(* ===== verification/OS_Prelude.thy ===== *)
theory OS_Prelude
  imports Main "HOL-Library.Word" "HOL-Library.Multiset"
begin

text \<open>
  Shared vocabulary of the development: the machine-integer types of the C sources, the
  result type of operations that may run into undefined behaviour, and the generic list
  lemmas the components use.

  \<^item> \<open>u8\<close>, \<open>u32\<close>, \<open>u64\<close> are the unsigned integers of \<open>stdint.h\<close> (\<open>BYTE\<close> is \<open>u8\<close>; \<open>addr_t\<close>
    and \<open>arg_t\<close> are \<open>u64\<close>, because \<open>os-cfg.h\<close> defines \<open>MM64\<close>).  A C \<open>int\<close> is an \<open>i32\<close>: a
    32 bit word that is read with \<open>sint\<close> where the sign matters, widened with \<open>scast\<close>.
  \<^item> An operation that dereferences a pointer or indexes an array returns \<open>fault + 'a\<close>:
    \<open>Inl\<close> names the undefined behaviour the C code would run into, \<open>Inr\<close> is a normal
    return.  Error codes such as \<open>-1\<close> are ordinary values inside \<open>Inr\<close>.
  \<^item> Pointers to process control blocks and to other heap objects are natural numbers
    (indices into the store that holds the objects); \<open>NULL\<close> is \<open>None\<close>.
\<close>

section \<open>Machine types\<close>

type_synonym u8 = "8 word"
type_synonym u32 = "32 word"
type_synonym u64 = "64 word"
type_synonym i32 = "32 word"

type_synonym pcb_ref = nat
type_synonym mm_ref = nat
type_synonym dev_ref = nat

section \<open>Faults and results\<close>

datatype fault = Null_deref | Out_of_bounds | Uninit

definition bindR :: "'e + 'a \<Rightarrow> ('a \<Rightarrow> 'e + 'b) \<Rightarrow> 'e + 'b" where
  "bindR m f = (case m of Inl e \<Rightarrow> Inl e | Inr x \<Rightarrow> f x)"

lemma bindR_Inl [simp]: "bindR (Inl e) f = Inl e"
  by (simp add: bindR_def)

lemma bindR_Inr [simp]: "bindR (Inr x) f = f x"
  by (simp add: bindR_def)

lemma bindR_eq_Inr: "bindR m f = Inr y \<longleftrightarrow> (\<exists>x. m = Inr x \<and> f x = Inr y)"
  by (cases m) auto

lemma bindR_InrE:
  assumes "bindR m f = Inr y"
  obtains x where "m = Inr x" and "f x = Inr y"
  using assms by (auto simp: bindR_eq_Inr)

text \<open>Array accesses with the bounds written out.\<close>

definition get_at :: "'a list \<Rightarrow> nat \<Rightarrow> fault + 'a" where
  "get_at xs i = (if i < length xs then Inr (xs ! i) else Inl Out_of_bounds)"

definition set_at :: "'a list \<Rightarrow> nat \<Rightarrow> 'a \<Rightarrow> fault + 'a list" where
  "set_at xs i v = (if i < length xs then Inr (xs[i := v]) else Inl Out_of_bounds)"

definition deref :: "'a option \<Rightarrow> fault + 'a" where
  "deref p = (case p of None \<Rightarrow> Inl Null_deref | Some x \<Rightarrow> Inr x)"

lemma deref_simps [simp]: "deref None = Inl Null_deref" "deref (Some x) = Inr x"
  by (simp_all add: deref_def)

lemma get_at_in [simp]: "i < length xs \<Longrightarrow> get_at xs i = Inr (xs ! i)"
  by (simp add: get_at_def)

lemma set_at_in [simp]: "i < length xs \<Longrightarrow> set_at xs i v = Inr (xs[i := v])"
  by (simp add: set_at_def)

lemma get_at_Inr: "get_at xs i = Inr v \<longleftrightarrow> i < length xs \<and> v = xs ! i"
  by (auto simp: get_at_def)

lemma set_at_Inr: "set_at xs i v = Inr ys \<longleftrightarrow> i < length xs \<and> ys = xs[i := v]"
  by (auto simp: set_at_def)

lemma deref_Inr: "deref p = Inr x \<longleftrightarrow> p = Some x"
  by (cases p) auto

lemmas res_simps = bindR_eq_Inr get_at_Inr set_at_Inr deref_Inr

section \<open>Lists\<close>

text \<open>
  The in-place shift loop of \<open>queue.c\<close>, \<open>for (j = i; j < n; j++) a[j] = a[j + 1]\<close>, as a
  recursion on the number of remaining iterations.
\<close>

fun shift_loop :: "nat \<Rightarrow> nat \<Rightarrow> 'a list \<Rightarrow> 'a list" where
  "shift_loop j 0 xs = xs"
| "shift_loop j (Suc k) xs = shift_loop (Suc j) k (xs[j := xs ! Suc j])"

lemma length_shift_loop [simp]: "length (shift_loop j k xs) = length xs"
  by (induction j k xs rule: shift_loop.induct) auto

lemma nth_shift_loop:
  "j + k < length xs \<Longrightarrow> m < length xs \<Longrightarrow>
   shift_loop j k xs ! m = (if j \<le> m \<and> m < j + k then xs ! Suc m else xs ! m)"
proof (induction j k xs rule: shift_loop.induct)
  case (1 j xs)
  then show ?case by auto
next
  case (2 j k xs)
  then show ?case by (auto simp: nth_list_update)
qed

lemma take_shift_loop:
  assumes "i < n" and "n \<le> length xs"
  shows "take (n - 1) (shift_loop i (n - 1 - i) xs) = take i xs @ drop (Suc i) (take n xs)"
proof (rule nth_equalityI)
  show "length (take (n - 1) (shift_loop i (n - 1 - i) xs)) =
    length (take i xs @ drop (Suc i) (take n xs))"
    using assms by simp
next
  fix m
  assume "m < length (take (n - 1) (shift_loop i (n - 1 - i) xs))"
  then have m: "m < n - 1" "m < length xs" by simp_all
  have "shift_loop i (n - 1 - i) xs ! m = (if i \<le> m \<and> m < n - 1 then xs ! Suc m else xs ! m)"
    using assms m by (subst nth_shift_loop) auto
  then show "take (n - 1) (shift_loop i (n - 1 - i) xs) ! m =
    (take i xs @ drop (Suc i) (take n xs)) ! m"
    using assms m by (auto simp: nth_append)
qed

lemma remove1_take_drop:
  assumes "i < length xs" and "x \<notin> set (take i xs)" and "xs ! i = x"
  shows "remove1 x xs = take i xs @ drop (Suc i) xs"
proof -
  have "xs = take i xs @ x # drop (Suc i) xs"
    using assms(1,3) id_take_nth_drop by blast
  then have "remove1 x xs = remove1 x (take i xs @ x # drop (Suc i) xs)" by simp
  also have "\<dots> = take i xs @ drop (Suc i) xs"
    using assms(2) by (simp add: remove1_append)
  finally show ?thesis .
qed

lemma find_upt_Some:
  "find P [0..<n] = Some i \<longleftrightarrow> i < n \<and> P i \<and> (\<forall>j<i. \<not> P j)"
  by (auto simp: find_Some_iff)

lemma find_upt_None: "find P [0..<n] = None \<longleftrightarrow> (\<forall>i<n. \<not> P i)"
  by (auto simp: find_None_iff)

section \<open>Words\<close>

lemma uint_small: "unat (x :: u64) < 2 ^ 31 \<Longrightarrow> uint x < 2 ^ 31"
  by (metis uint_nat of_nat_less_iff of_nat_numeral of_nat_power)

lemma uint_ucast_small: "uint (x :: u64) < 2 ^ 31 \<Longrightarrow> uint (ucast x :: i32) = uint x"
  by (simp add: unsigned_ucast_eq take_bit_int_eq_self)

lemma signed_take_bit_small: "uint (x :: u64) < 2 ^ 31 \<Longrightarrow> signed_take_bit 31 (uint x) = uint x"
  by (simp add: signed_take_bit_int_eq_self_iff order_trans [OF _ uint_ge_0])

lemma sint_signed_take_bit: "sint (y :: i32) = signed_take_bit 31 (uint y)"
  by (simp add: sint_uint)

text \<open>A value below \<open>2^31\<close> survives the conversion from \<open>addr_t\<close> to \<open>int\<close>.\<close>

lemma sint_ucast_small: "unat (x :: u64) < 2 ^ 31 \<Longrightarrow> sint (ucast x :: i32) = uint x"
  using uint_small [of x] by (simp only: sint_signed_take_bit uint_ucast_small signed_take_bit_small)

end
