(* ===== verification/OS_Memphy.thy ===== *)
theory OS_Memphy
  imports OS_Prelude
begin

text \<open>
  The simulated memory devices of \<open>mm-memphy.c\<close>: a byte array with an access mode, and two
  lists of frame descriptors.  The free list is kept with the C tail explicit
  (\<open>Fp_null\<close>, or \<open>Fp_wild\<close> for a \<open>fp_next\<close> field that was never assigned).  The \<open>mp\<close>
  argument of the C functions points to one of the device objects of \<open>main\<close>; the
  \<open>mp == NULL\<close> guards are decided where a device pointer of the kernel is followed
  (\<open>OS_State\<close>).
\<close>

section \<open>State\<close>

definition PAGING_PAGESZ :: nat where
  "PAGING_PAGESZ = 256"

datatype fp_list = Fp_null | Fp_wild | Fp_node u64 fp_list

record memphy =
  storage :: "u8 list"
  maxsz :: int
  rdmflg :: int
  cursor :: int
  free_fp_list :: fp_list
  used_fp_list :: "u64 list"

text \<open>C division of \<open>int\<close> rounds towards zero.\<close>

definition c_div :: "int \<Rightarrow> int \<Rightarrow> int" where
  "c_div a b = sgn a * sgn b * (\<bar>a\<bar> div \<bar>b\<bar>)"

section \<open>Byte access\<close>

function mv_csr_loop :: "u64 \<Rightarrow> int \<Rightarrow> int \<Rightarrow> int \<Rightarrow> int" where
  "mv_csr_loop offset msz numstep csr =
     (if numstep < uint offset \<and> numstep < msz
      then mv_csr_loop offset msz (numstep + 1) ((csr + 1) mod msz)
      else csr)"
  by pat_completeness auto
termination
  by (relation "measure (\<lambda>(offset, msz, numstep, csr). nat (msz - numstep))") auto

declare mv_csr_loop.simps [simp del]

definition MEMPHY_mv_csr :: "memphy \<Rightarrow> u64 \<Rightarrow> memphy" where
  "MEMPHY_mv_csr mp offset = mp\<lparr>cursor := mv_csr_loop offset (maxsz mp) 0 0\<rparr>"

text \<open>The reads return the code, the new content of \<open>*value\<close> and the device.\<close>

definition MEMPHY_seq_read :: "memphy \<Rightarrow> u64 \<Rightarrow> u8 \<Rightarrow> fault + int \<times> u8 \<times> memphy" where
  "MEMPHY_seq_read mp addr value =
     (if rdmflg mp = 0 then Inr (-1, value, mp)
      else let mp = MEMPHY_mv_csr mp addr
           in bindR (get_at (storage mp) (unat addr)) (\<lambda>v. Inr (0, v, mp)))"

definition MEMPHY_read :: "memphy \<Rightarrow> u64 \<Rightarrow> u8 \<Rightarrow> fault + int \<times> u8 \<times> memphy" where
  "MEMPHY_read mp addr value =
     (if rdmflg mp \<noteq> 0
      then bindR (get_at (storage mp) (unat addr)) (\<lambda>v. Inr (0, v, mp))
      else MEMPHY_seq_read mp addr value)"

definition MEMPHY_seq_write :: "memphy \<Rightarrow> u64 \<Rightarrow> u8 \<Rightarrow> fault + int \<times> memphy" where
  "MEMPHY_seq_write mp addr value =
     (if rdmflg mp = 0 then Inr (-1, mp)
      else let mp = MEMPHY_mv_csr mp addr
           in bindR (set_at (storage mp) (unat addr) value) (\<lambda>st. Inr (0, mp\<lparr>storage := st\<rparr>)))"

definition MEMPHY_write :: "memphy \<Rightarrow> u64 \<Rightarrow> u8 \<Rightarrow> fault + int \<times> memphy" where
  "MEMPHY_write mp addr data =
     (if rdmflg mp \<noteq> 0
      then bindR (set_at (storage mp) (unat addr) data) (\<lambda>st. Inr (0, mp\<lparr>storage := st\<rparr>))
      else MEMPHY_seq_write mp addr data)"

section \<open>Frames\<close>

text \<open>The loop of \<open>MEMPHY_format\<close> that appends nodes \<open>iter\<close>, \<open>iter + 1\<close>, ... each with a
  \<open>NULL\<close> successor until the next one is linked.\<close>

fun format_rest :: "nat \<Rightarrow> nat \<Rightarrow> fp_list" where
  "format_rest iter 0 = Fp_null"
| "format_rest iter (Suc k) = Fp_node (of_nat iter) (format_rest (Suc iter) k)"

definition MEMPHY_format :: "memphy \<Rightarrow> int \<Rightarrow> int \<times> memphy" where
  "MEMPHY_format mp pagesz =
     (let numfp = c_div (maxsz mp) pagesz
      in if numfp \<le> 0 then (-1, mp)
         else (0, mp\<lparr>free_fp_list :=
                 Fp_node 0 (if numfp = 1 then Fp_wild else format_rest 1 (nat numfp - 1))\<rparr>))"

text \<open>\<open>None\<close> is the return code \<open>-1\<close> (no frame left); \<open>Some f\<close> is code 0 with \<open>*retfpn = f\<close>.
  The node moves to the used list.\<close>

definition MEMPHY_get_freefp :: "memphy \<Rightarrow> fault + u64 option \<times> memphy" where
  "MEMPHY_get_freefp mp =
     (case free_fp_list mp of
        Fp_null \<Rightarrow> Inr (None, mp)
      | Fp_wild \<Rightarrow> Inl Uninit
      | Fp_node f nxt \<Rightarrow>
          Inr (Some f, mp\<lparr>free_fp_list := nxt, used_fp_list := f # used_fp_list mp\<rparr>))"

definition MEMPHY_put_freefp :: "memphy \<Rightarrow> u64 \<Rightarrow> memphy" where
  "MEMPHY_put_freefp mp f = mp\<lparr>free_fp_list := Fp_node f (free_fp_list mp)\<rparr>"

text \<open>The lines \<open>MEMPHY_dump\<close> prints: every non-zero byte with its address.\<close>

definition MEMPHY_dump :: "memphy \<Rightarrow> (nat \<times> u8) list" where
  "MEMPHY_dump mp = filter (\<lambda>(i, b). b \<noteq> 0) (map (\<lambda>i. (i, storage mp ! i)) [0..<nat (maxsz mp)])"

text \<open>\<open>init_memphy\<close> on a device object with arbitrary previous content \<open>mp\<close>; \<open>malloc\<close> is
  taken to succeed.  \<open>maxsz\<close> is the size truncated to a C \<open>int\<close>.\<close>

definition init_memphy :: "memphy \<Rightarrow> u64 \<Rightarrow> int \<Rightarrow> int \<times> memphy" where
  "init_memphy mp max_size randomflg =
     (let mp = mp\<lparr>storage := replicate (unat max_size) 0,
                  maxsz := sint (ucast max_size :: i32),
                  free_fp_list := Fp_null, used_fp_list := []\<rparr>;
          mp = snd (MEMPHY_format mp (int PAGING_PAGESZ));
          mp = mp\<lparr>rdmflg := (if randomflg \<noteq> 0 then 1 else 0)\<rparr>;
          mp = (if rdmflg mp = 0 then mp\<lparr>cursor := 0\<rparr> else mp)
      in (0, mp))"

section \<open>The free list as a list of frames\<close>

fun fp_items :: "fp_list \<Rightarrow> u64 list" where
  "fp_items Fp_null = []"
| "fp_items Fp_wild = []"
| "fp_items (Fp_node f nxt) = f # fp_items nxt"

fun fp_ok :: "fp_list \<Rightarrow> bool" where
  "fp_ok Fp_null = True"
| "fp_ok Fp_wild = False"
| "fp_ok (Fp_node f nxt) = fp_ok nxt"

definition free_frames :: "memphy \<Rightarrow> u64 list" where
  "free_frames mp = fp_items (free_fp_list mp)"

definition pool_ok :: "memphy \<Rightarrow> bool" where
  "pool_ok mp \<longleftrightarrow> fp_ok (free_fp_list mp)"

lemma format_rest_ok [simp]: "fp_ok (format_rest i k)"
  by (induction i k rule: format_rest.induct) auto

lemma format_rest_items [simp]: "fp_items (format_rest i k) = map of_nat [i..<i + k]"
  by (induction i k rule: format_rest.induct) (simp_all add: upt_conv_Cons del: upt_Suc)

section \<open>The contract of a frame pool\<close>

text \<open>The allocation loop of the memory manager (\<open>alloc_pages_range\<close>), over any pool.\<close>

fun take_frames :: "('m \<Rightarrow> fault + 'f option \<times> 'm) \<Rightarrow> nat \<Rightarrow> 'm \<Rightarrow> fault + bool \<times> 'f list \<times> 'm" where
  "take_frames get 0 m = Inr (True, [], m)"
| "take_frames get (Suc n) m =
     bindR (get m) (\<lambda>(r, m).
       case r of
         None \<Rightarrow> Inr (False, [], m)
       | Some f \<Rightarrow> bindR (take_frames get n m) (\<lambda>(ok, fs, m). Inr (ok, f # fs, m)))"

locale frame_pool =
  fixes inv :: "'m \<Rightarrow> bool"
    and free :: "'m \<Rightarrow> 'f list"
    and get :: "'m \<Rightarrow> fault + 'f option \<times> 'm"
    and put :: "'m \<Rightarrow> 'f \<Rightarrow> 'm"
    and frame :: "'m \<Rightarrow> 'x"
  assumes get_empty: "inv m \<Longrightarrow> free m = [] \<Longrightarrow> get m = Inr (None, m)"
    and get_Cons: "inv m \<Longrightarrow> free m = f # fs \<Longrightarrow>
      \<exists>m'. get m = Inr (Some f, m') \<and> inv m' \<and> free m' = fs \<and> frame m' = frame m"
    and put_inv: "inv m \<Longrightarrow> inv (put m f)"
    and put_free: "inv m \<Longrightarrow> free (put m f) = f # free m"
    and put_frame: "frame (put m f) = frame m"
begin

lemma get_put: "inv m \<Longrightarrow> \<exists>m'. get (put m f) = Inr (Some f, m') \<and> free m' = free m"
  using get_Cons [OF put_inv put_free] by blast

text \<open>Enough frames: the loop takes the first \<open>n\<close>, in order, and nothing else changes.\<close>

lemma take_frames_enough:
  "inv m \<Longrightarrow> n \<le> length (free m) \<Longrightarrow>
   \<exists>m'. take_frames get n m = Inr (True, take n (free m), m') \<and> inv m'
     \<and> free m' = drop n (free m) \<and> frame m' = frame m"
proof (induction n arbitrary: m)
  case 0
  then show ?case by simp
next
  case (Suc n)
  then obtain f fs where fr: "free m = f # fs" by (cases "free m") auto
  obtain m1 where m1: "get m = Inr (Some f, m1)" "inv m1" "free m1 = fs" "frame m1 = frame m"
    using get_Cons [OF Suc.prems(1) fr] by blast
  obtain m2 where "take_frames get n m1 = Inr (True, take n fs, m2)" "inv m2"
    "free m2 = drop n fs" "frame m2 = frame m1"
    using Suc.IH [OF m1(2)] Suc.prems(2) fr m1(3) by auto
  then show ?case using m1 fr by auto
qed

text \<open>Too few frames: all of them are taken and the loop reports failure.\<close>

lemma take_frames_short:
  "inv m \<Longrightarrow> length (free m) < n \<Longrightarrow>
   \<exists>m'. take_frames get n m = Inr (False, free m, m') \<and> inv m' \<and> free m' = []
     \<and> frame m' = frame m"
proof (induction n arbitrary: m)
  case 0
  then show ?case by simp
next
  case (Suc n)
  show ?case
  proof (cases "free m")
    case Nil
    then show ?thesis using get_empty [OF Suc.prems(1)] Suc.prems(1) by simp
  next
    case (Cons f fs)
    obtain m1 where m1: "get m = Inr (Some f, m1)" "inv m1" "free m1 = fs" "frame m1 = frame m"
      using get_Cons [OF Suc.prems(1) Cons] by blast
    obtain m2 where "take_frames get n m1 = Inr (False, fs, m2)" "inv m2" "free m2 = []"
      "frame m2 = frame m1"
      using Suc.IH [OF m1(2)] Suc.prems(2) Cons m1(3) by auto
    then show ?thesis using m1 Cons by auto
  qed
qed

end

text \<open>Allocation never touches the bytes or the geometry of the device.\<close>

definition device_core :: "memphy \<Rightarrow> u8 list \<times> int \<times> int" where
  "device_core mp = (storage mp, maxsz mp, rdmflg mp)"

interpretation fpool: frame_pool pool_ok free_frames MEMPHY_get_freefp MEMPHY_put_freefp device_core
proof unfold_locales
  fix m f fs
  show "pool_ok m \<Longrightarrow> free_frames m = [] \<Longrightarrow> MEMPHY_get_freefp m = Inr (None, m)"
    by (cases "free_fp_list m") (auto simp: pool_ok_def free_frames_def MEMPHY_get_freefp_def)
  show "pool_ok m \<Longrightarrow> free_frames m = f # fs \<Longrightarrow>
      \<exists>m'. MEMPHY_get_freefp m = Inr (Some f, m') \<and> pool_ok m' \<and> free_frames m' = fs
        \<and> device_core m' = device_core m"
    by (cases "free_fp_list m")
       (auto simp: pool_ok_def free_frames_def MEMPHY_get_freefp_def device_core_def)
qed (auto simp: pool_ok_def free_frames_def MEMPHY_put_freefp_def device_core_def)

section \<open>Byte access lemmas\<close>

lemma mv_csr_loop_eq:
  assumes "0 \<le> numstep" and "0 < msz" and "csr = numstep mod msz"
  shows "mv_csr_loop offset msz numstep csr = max numstep (min (uint offset) msz) mod msz"
  using assms
proof (induction offset msz numstep csr rule: mv_csr_loop.induct)
  case (1 offset msz numstep csr)
  show ?case
  proof (cases "numstep < uint offset \<and> numstep < msz")
    case True
    then have "mv_csr_loop offset msz (numstep + 1) ((csr + 1) mod msz)
        = max (numstep + 1) (min (uint offset) msz) mod msz"
      using "1.IH" "1.prems" by (simp add: mod_add_left_eq)
    with True show ?thesis
      by (subst mv_csr_loop.simps) (simp add: max_def min_def)
  next
    case False
    then have "max numstep (min (uint offset) msz) = numstep" by arith
    then show ?thesis using False "1.prems"
      by (subst mv_csr_loop.simps) (simp only: if_False)
  qed
qed

lemma MEMPHY_read_random:
  "rdmflg mp \<noteq> 0 \<Longrightarrow> unat a < length (storage mp) \<Longrightarrow>
   MEMPHY_read mp a v = Inr (0, storage mp ! unat a, mp)"
  by (simp add: MEMPHY_read_def)

lemma MEMPHY_write_random:
  "rdmflg mp \<noteq> 0 \<Longrightarrow> unat a < length (storage mp) \<Longrightarrow>
   MEMPHY_write mp a v = Inr (0, mp\<lparr>storage := (storage mp)[unat a := v]\<rparr>)"
  by (simp add: MEMPHY_write_def)

lemma c_div_uint: "c_div (uint (x :: u64)) 256 = int (unat x div 256)"
  by (cases "uint x = 0") (auto simp: c_div_def zdiv_int sgn_if)

lemma init_memphy_fields:
  assumes "unat sz < 2 ^ 31"
  shows "storage (snd (init_memphy mp sz flg)) = replicate (unat sz) 0"
    and "maxsz (snd (init_memphy mp sz flg)) = int (unat sz)"
    and "rdmflg (snd (init_memphy mp sz flg)) = (if flg \<noteq> 0 then 1 else 0)"
    and "used_fp_list (snd (init_memphy mp sz flg)) = []"
    and "free_fp_list (snd (init_memphy mp sz flg)) =
      (let n = unat sz div PAGING_PAGESZ
       in if n = 0 then Fp_null else Fp_node 0 (if n = 1 then Fp_wild else format_rest 1 (n - 1)))"
  using assms
  by (simp_all add: init_memphy_def MEMPHY_format_def sint_ucast_small Let_def c_div_uint
      PAGING_PAGESZ_def)

text \<open>A device object before \<open>init_memphy\<close>, for the examples.\<close>

definition blank_device :: memphy where
  "blank_device = \<lparr>storage = [], maxsz = 0, rdmflg = 0, cursor = 0, free_fp_list = Fp_null, used_fp_list = []\<rparr>"

section \<open>Properties\<close>

text \<open>After \<open>init_memphy\<close> a device of at least two frames has zeroed storage of the
  requested size, its free list holds exactly the frames \<open>0, 1, ..., size / 256 - 1\<close> in
  order and ends properly, and every listed frame lies inside the storage.\<close>

theorem init_memphy_frames:
  assumes "2 * PAGING_PAGESZ \<le> unat sz" and "unat sz < 2 ^ 31"
  shows "storage (snd (init_memphy mp sz flg)) = replicate (unat sz) 0
    \<and> pool_ok (snd (init_memphy mp sz flg))
    \<and> free_frames (snd (init_memphy mp sz flg)) = map of_nat [0..<unat sz div PAGING_PAGESZ]
    \<and> used_fp_list (snd (init_memphy mp sz flg)) = []
    \<and> (\<forall>i < unat sz div PAGING_PAGESZ. Suc i * PAGING_PAGESZ \<le> unat sz)"
proof -
  let ?n = "unat sz div PAGING_PAGESZ"
  have n: "2 \<le> ?n" using assms(1) by (simp add: PAGING_PAGESZ_def)
  then have "free_fp_list (snd (init_memphy mp sz flg)) = Fp_node 0 (format_rest 1 (?n - 1))"
    using assms(2) by (simp add: init_memphy_fields Let_def)
  moreover have "(0 :: u64) # map of_nat [1..<?n] = map of_nat [0..<?n]"
    using n by (simp add: upt_conv_Cons)
  moreover have "Suc i * PAGING_PAGESZ \<le> unat sz" if "i < ?n" for i
    using that by (metis Suc_leI div_times_less_eq_dividend le_trans mult_le_mono1)
  ultimately show ?thesis using assms(2) n
    by (auto simp: init_memphy_fields pool_ok_def free_frames_def)
qed

theorem init_memphy_frames_witness:
  "free_frames (snd (init_memphy blank_device 1024 1)) = [0, 1, 2, 3]"
proof -
  have "map of_nat [0..<4] = [0, 1, 2, 3 :: u64]" by code_simp
  then show ?thesis using init_memphy_frames [of 1024 blank_device 1] by (simp add: PAGING_PAGESZ_def)
qed

text \<open>A device of exactly one frame gets a frame list whose last \<open>fp_next\<close> is never
  assigned: the frame can be taken once, and asking for the next one follows an
  uninitialised pointer instead of reporting that no frame is left.\<close>

theorem one_frame_device_faults:
  assumes "PAGING_PAGESZ \<le> unat sz" and "unat sz < 2 * PAGING_PAGESZ"
  shows "\<exists>mp1. MEMPHY_get_freefp (snd (init_memphy mp sz flg)) = Inr (Some 0, mp1)
    \<and> MEMPHY_get_freefp mp1 = Inl Uninit"
proof -
  have "unat sz div PAGING_PAGESZ = 1" using assms by (simp add: PAGING_PAGESZ_def)
  moreover have "unat sz < 2 ^ 31" using assms by (simp add: PAGING_PAGESZ_def)
  ultimately show ?thesis by (simp add: init_memphy_fields MEMPHY_get_freefp_def Let_def)
qed

theorem one_frame_device_faults_witness:
  "\<exists>mp1. MEMPHY_get_freefp (snd (init_memphy blank_device 256 1)) = Inr (Some 0, mp1)
    \<and> MEMPHY_get_freefp mp1 = Inl Uninit"
  using one_frame_device_faults [of 256] by (simp add: PAGING_PAGESZ_def)

text \<open>Bytes of a random access device: a write inside the storage succeeds, changes that
  byte only, keeps the frame lists, and is what the next read of the address returns; any
  access outside the storage is an out-of-bounds access, because neither function checks
  the address.\<close>

theorem memphy_read_after_write:
  assumes "rdmflg mp \<noteq> 0"
  shows "if unat a < length (storage mp)
    then \<exists>mp'. MEMPHY_write mp a d = Inr (0, mp')
      \<and> (\<forall>b v. unat b < length (storage mp) \<longrightarrow>
            MEMPHY_read mp' b v = Inr (0, if b = a then d else storage mp ! unat b, mp'))
      \<and> free_fp_list mp' = free_fp_list mp \<and> used_fp_list mp' = used_fp_list mp
    else MEMPHY_write mp a d = Inl Out_of_bounds \<and> MEMPHY_read mp a v = Inl Out_of_bounds"
  using assms
  by (auto simp: MEMPHY_write_def MEMPHY_read_def nth_list_update get_at_def set_at_def
      word_unat_eq_iff)

theorem memphy_read_after_write_witness:
  "\<exists>mp'. MEMPHY_write (snd (init_memphy blank_device 512 1)) 5 7 = Inr (0, mp')
     \<and> MEMPHY_read mp' 5 0 = Inr (0, 7, mp')"
  using memphy_read_after_write [of "snd (init_memphy blank_device 512 1)" 5 7 0]
  by (auto simp: init_memphy_fields)

text \<open>A sequential device cannot be used at all: \<open>MEMPHY_seq_read\<close> and
  \<open>MEMPHY_seq_write\<close> refuse exactly the devices they are called for, so every access
  returns \<open>-1\<close> and neither the value nor the device changes.\<close>

theorem sequential_device_unusable:
  "let mp = snd (init_memphy mp0 sz 0)
   in MEMPHY_read mp a v = Inr (-1, v, mp) \<and> MEMPHY_write mp a d = Inr (-1, mp)"
  by (simp add: init_memphy_def MEMPHY_read_def MEMPHY_seq_read_def MEMPHY_write_def
      MEMPHY_seq_write_def Let_def)

text \<open>The cursor loop of a sequential device ends at the address, or wraps to 0 for an
  address at or beyond the end.\<close>

theorem mv_csr_position:
  assumes "0 < maxsz mp"
  shows "cursor (MEMPHY_mv_csr mp a) = (if uint a < maxsz mp then uint a else 0)"
  using assms mv_csr_loop_eq [of 0 "maxsz mp" 0 a]
  by (simp add: MEMPHY_mv_csr_def min_def max_def)

theorem mv_csr_position_witness: "cursor (MEMPHY_mv_csr (snd (init_memphy blank_device 512 0)) 300) = 300"
  using mv_csr_position [of "snd (init_memphy blank_device 512 0)" 300] by (simp add: init_memphy_fields)

text \<open>The frame pool: taking \<open>n\<close> frames from a device with at least \<open>n\<close> free frames
  returns the first \<open>n\<close> of the free list and leaves the others, without touching a byte;
  with fewer free frames the loop fails and has taken all of them.\<close>

theorem take_frames_outcome:
  assumes "pool_ok mp"
  shows "\<exists>mp'. take_frames MEMPHY_get_freefp n mp
        = Inr (n \<le> length (free_frames mp), take n (free_frames mp), mp')
    \<and> pool_ok mp' \<and> free_frames mp' = drop n (free_frames mp) \<and> device_core mp' = device_core mp"
  using fpool.take_frames_enough [OF assms, of n] fpool.take_frames_short [OF assms, of n]
  by (cases "n \<le> length (free_frames mp)") (auto simp: not_le)

theorem take_frames_outcome_witness:
  "\<exists>mp'. take_frames MEMPHY_get_freefp 2 (snd (init_memphy blank_device 768 1)) = Inr (True, [0, 1], mp')
    \<and> free_frames mp' = [2]"
proof -
  let ?mp = "snd (init_memphy blank_device 768 1)"
  have "map of_nat [0..<3] = [0, 1, 2 :: u64]" by code_simp
  then have "pool_ok ?mp" "free_frames ?mp = [0, 1, 2]"
    using init_memphy_fields [of 768 blank_device 1] by (simp_all add: PAGING_PAGESZ_def pool_ok_def free_frames_def Let_def upt_rec)
  then show ?thesis using take_frames_outcome [of ?mp 2] by auto
qed

end
