(* ===== verification/OS_Pte.thy ===== *)
theory OS_Pte
  imports OS_Memphy
begin

unbundle bit_operations_syntax

text \<open>
  The bit layouts: the mask macros of \<open>bitops.h\<close>, the page-table-entry and address macros of
  \<open>mm.h\<close> and \<open>mm64.h\<close>, \<open>init_pte\<close> and the address splitting of \<open>mm64.c\<close>.  Masks are the
  32 bit \<open>unsigned int\<close> values of the C macros; an entry is an \<open>addr_t\<close>, so a 32 bit mask is
  zero-extended when it meets an entry (also after complementing it, which clears the upper
  half of the entry).
\<close>

section \<open>Macros of bitops.h\<close>

definition BITS_PER_LONG :: nat where
  "BITS_PER_LONG = 32"

definition BIT :: "nat \<Rightarrow> u32" where
  "BIT nr = push_bit nr 1"

definition DIV_ROUND_UP :: "u64 \<Rightarrow> u64 \<Rightarrow> u64" where
  "DIV_ROUND_UP n d = (n + d - 1) div d"

definition GENMASK :: "nat \<Rightarrow> nat \<Rightarrow> u32" where
  "GENMASK h l = push_bit l (- 1) AND drop_bit (BITS_PER_LONG - h - 1) (- 1)"

definition NBITS2 :: "u32 \<Rightarrow> nat" where
  "NBITS2 n = (if n AND 2 \<noteq> 0 then 1 else 0)"

definition NBITS4 :: "u32 \<Rightarrow> nat" where
  "NBITS4 n = (if n AND 0xC \<noteq> 0 then 2 + NBITS2 (drop_bit 2 n) else NBITS2 n)"

definition NBITS8 :: "u32 \<Rightarrow> nat" where
  "NBITS8 n = (if n AND 0xF0 \<noteq> 0 then 4 + NBITS4 (drop_bit 4 n) else NBITS4 n)"

definition NBITS16 :: "u32 \<Rightarrow> nat" where
  "NBITS16 n = (if n AND 0xFF00 \<noteq> 0 then 8 + NBITS8 (drop_bit 8 n) else NBITS8 n)"

definition NBITS32 :: "u32 \<Rightarrow> nat" where
  "NBITS32 n = (if n AND 0xFFFF0000 \<noteq> 0 then 16 + NBITS16 (drop_bit 16 n) else NBITS16 n)"

definition NBITS :: "u32 \<Rightarrow> nat" where
  "NBITS n = (if n = 0 then 0 else NBITS32 n)"

section \<open>Macros of mm.h\<close>

definition PAGING_CPU_BUS_WIDTH :: nat where
  "PAGING_CPU_BUS_WIDTH = 22"

definition PAGING_PAGE_ALIGNSZ :: "u64 \<Rightarrow> u64" where
  "PAGING_PAGE_ALIGNSZ sz = DIV_ROUND_UP sz (of_nat PAGING_PAGESZ) * of_nat PAGING_PAGESZ"

definition PAGING_MAX_PGN :: nat where
  "PAGING_MAX_PGN = (2 ^ PAGING_CPU_BUS_WIDTH + PAGING_PAGESZ - 1) div PAGING_PAGESZ"

definition PAGING_PTE_PRESENT_MASK :: u32 where "PAGING_PTE_PRESENT_MASK = BIT 31"
definition PAGING_PTE_SWAPPED_MASK :: u32 where "PAGING_PTE_SWAPPED_MASK = BIT 30"
definition PAGING_PTE_DIRTY_MASK :: u32 where "PAGING_PTE_DIRTY_MASK = BIT 28"
definition PAGING_PTE_FPN_MASK :: u32 where "PAGING_PTE_FPN_MASK = GENMASK 12 0"
definition PAGING_PTE_SWPTYP_MASK :: u32 where "PAGING_PTE_SWPTYP_MASK = GENMASK 4 0"
definition PAGING_PTE_SWPOFF_MASK :: u32 where "PAGING_PTE_SWPOFF_MASK = GENMASK 25 5"

definition PAGING_ADDR_PGN_LOBIT :: nat where
  "PAGING_ADDR_PGN_LOBIT = NBITS (of_nat PAGING_PAGESZ)"

definition PAGING_ADDR_FPN_LOBIT :: nat where
  "PAGING_ADDR_FPN_LOBIT = NBITS (of_nat PAGING_PAGESZ)"

definition PAGING_OFFST_MASK :: u32 where
  "PAGING_OFFST_MASK = GENMASK (NBITS (of_nat PAGING_PAGESZ) - 1) 0"

definition PAGING_PGN_MASK :: u32 where
  "PAGING_PGN_MASK = GENMASK (PAGING_CPU_BUS_WIDTH - 1) PAGING_ADDR_PGN_LOBIT"

text \<open>\<open>SETBIT\<close>, \<open>CLRBIT\<close> and \<open>SETVAL\<close> assign to an entry; \<open>GETVAL\<close> reads a 32 bit value.\<close>

definition SETBIT :: "u64 \<Rightarrow> u32 \<Rightarrow> u64" where
  "SETBIT v msk = v OR ucast msk"

definition CLRBIT :: "u64 \<Rightarrow> u32 \<Rightarrow> u64" where
  "CLRBIT v msk = v AND ucast (NOT msk)"

definition SETVAL :: "u64 \<Rightarrow> u64 \<Rightarrow> u32 \<Rightarrow> nat \<Rightarrow> u64" where
  "SETVAL v value msk offst = (v AND ucast (NOT msk)) OR (push_bit offst value AND ucast msk)"

definition GETVAL :: "u32 \<Rightarrow> u32 \<Rightarrow> nat \<Rightarrow> u32" where
  "GETVAL v msk offst = drop_bit offst (v AND msk)"

definition PAGING_PAGE_PRESENT :: "u32 \<Rightarrow> bool" where
  "PAGING_PAGE_PRESENT pte \<longleftrightarrow> pte AND PAGING_PTE_PRESENT_MASK \<noteq> 0"

definition PAGING_FPN :: "u32 \<Rightarrow> u32" where
  "PAGING_FPN pte = GETVAL pte PAGING_PTE_FPN_MASK 0"

definition PAGING_SWP :: "u32 \<Rightarrow> u32" where
  "PAGING_SWP pte = drop_bit 5 (pte AND PAGING_PTE_SWPOFF_MASK)"

definition PAGING_OFFST :: "u32 \<Rightarrow> u32" where
  "PAGING_OFFST x = GETVAL x PAGING_OFFST_MASK 0"

definition PAGING_PGN :: "u32 \<Rightarrow> u32" where
  "PAGING_PGN x = GETVAL x PAGING_PGN_MASK PAGING_ADDR_PGN_LOBIT"

section \<open>Entries\<close>

text \<open>The assignments of \<open>pte_set_swap\<close> and \<open>pte_set_fpn\<close> to the entry they look up.\<close>

definition mark_swap :: "u64 \<Rightarrow> i32 \<Rightarrow> u64 \<Rightarrow> u64" where
  "mark_swap pte swptyp swpoff =
     (let pte = SETBIT pte PAGING_PTE_PRESENT_MASK;
          pte = SETBIT pte PAGING_PTE_SWAPPED_MASK;
          pte = SETVAL pte (ucast swptyp) PAGING_PTE_SWPTYP_MASK 0
      in SETVAL pte swpoff PAGING_PTE_SWPOFF_MASK 5)"

definition mark_fpn :: "u64 \<Rightarrow> u64 \<Rightarrow> u64" where
  "mark_fpn pte fpn =
     (let pte = SETBIT pte PAGING_PTE_PRESENT_MASK;
          pte = CLRBIT pte PAGING_PTE_SWAPPED_MASK
      in SETVAL pte fpn PAGING_PTE_FPN_MASK 0)"

text \<open>\<open>init_pte\<close> returns the code and the new content of \<open>*pte\<close>.\<close>

definition init_pte :: "u64 \<Rightarrow> int \<Rightarrow> u64 \<Rightarrow> int \<Rightarrow> int \<Rightarrow> i32 \<Rightarrow> u64 \<Rightarrow> int \<times> u64" where
  "init_pte pte pre fpn drt swp swptyp swpoff =
     (if pre \<noteq> 0 then
        if swp = 0 then
          if fpn = 0 then (-1, pte)
          else let pte = SETBIT pte PAGING_PTE_PRESENT_MASK;
                   pte = CLRBIT pte PAGING_PTE_SWAPPED_MASK;
                   pte = CLRBIT pte PAGING_PTE_DIRTY_MASK
               in (0, SETVAL pte fpn PAGING_PTE_FPN_MASK 0)
        else let pte = SETBIT pte PAGING_PTE_PRESENT_MASK;
                 pte = SETBIT pte PAGING_PTE_SWAPPED_MASK;
                 pte = CLRBIT pte PAGING_PTE_DIRTY_MASK;
                 pte = SETVAL pte (ucast swptyp) PAGING_PTE_SWPTYP_MASK 0
             in (0, SETVAL pte swpoff PAGING_PTE_SWPOFF_MASK 5)
      else (0, pte))"

section \<open>Addresses of mm64\<close>

definition PAGING64_PGTBL_ENTRIES :: nat where
  "PAGING64_PGTBL_ENTRIES = 512"

definition PAGING64_PAGESZ :: nat where
  "PAGING64_PAGESZ = 4096"

definition GENMASK64 :: "nat \<Rightarrow> nat \<Rightarrow> u64" where
  "GENMASK64 h l = push_bit l (- 1) AND drop_bit (64 - h - 1) (- 1)"

definition PAGING64_ADDR_PT_MASK :: u64 where "PAGING64_ADDR_PT_MASK = GENMASK64 20 12"
definition PAGING64_ADDR_PMD_MASK :: u64 where "PAGING64_ADDR_PMD_MASK = GENMASK64 29 21"
definition PAGING64_ADDR_PUD_MASK :: u64 where "PAGING64_ADDR_PUD_MASK = GENMASK64 38 30"
definition PAGING64_ADDR_P4D_MASK :: u64 where "PAGING64_ADDR_P4D_MASK = GENMASK64 47 39"
definition PAGING64_ADDR_PGD_MASK :: u64 where "PAGING64_ADDR_PGD_MASK = GENMASK64 56 48"

text \<open>The five indices are returned as a tuple in the order of the out-parameters.\<close>

definition get_pd_from_address :: "u64 \<Rightarrow> u64 \<times> u64 \<times> u64 \<times> u64 \<times> u64" where
  "get_pd_from_address addr =
     (drop_bit 48 (addr AND PAGING64_ADDR_PGD_MASK),
      drop_bit 39 (addr AND PAGING64_ADDR_P4D_MASK),
      drop_bit 30 (addr AND PAGING64_ADDR_PUD_MASK),
      drop_bit 21 (addr AND PAGING64_ADDR_PMD_MASK),
      drop_bit 12 (addr AND PAGING64_ADDR_PT_MASK))"

definition get_pd_from_pagenum :: "u64 \<Rightarrow> u64 \<times> u64 \<times> u64 \<times> u64 \<times> u64" where
  "get_pd_from_pagenum pgn = get_pd_from_address (push_bit 12 pgn)"

section \<open>Bits of the masks\<close>

lemma bit_BIT: "bit (BIT k) n \<longleftrightarrow> n = k \<and> k < 32"
  by (auto simp: BIT_def bit_simps)

lemma bit_GENMASK: "h < 32 \<Longrightarrow> bit (GENMASK h l) n \<longleftrightarrow> l \<le> n \<and> n \<le> h"
  by (auto simp: GENMASK_def BITS_PER_LONG_def bit_simps)

lemma bit_GENMASK64: "h < 64 \<Longrightarrow> bit (GENMASK64 h l) n \<longleftrightarrow> l \<le> n \<and> n \<le> h"
  by (auto simp: GENMASK64_def bit_simps)

lemma NBITS_pagesz [simp]: "NBITS 256 = 8"
  by code_simp

lemmas mask_defs = PAGING_PTE_PRESENT_MASK_def PAGING_PTE_SWAPPED_MASK_def
  PAGING_PTE_DIRTY_MASK_def PAGING_PTE_FPN_MASK_def PAGING_PTE_SWPTYP_MASK_def
  PAGING_PTE_SWPOFF_MASK_def PAGING_OFFST_MASK_def PAGING_PGN_MASK_def PAGING_ADDR_PGN_LOBIT_def
  PAGING_CPU_BUS_WIDTH_def PAGING_PAGESZ_def

lemmas mask64_defs = PAGING64_ADDR_PT_MASK_def PAGING64_ADDR_PMD_MASK_def PAGING64_ADDR_PUD_MASK_def
  PAGING64_ADDR_P4D_MASK_def PAGING64_ADDR_PGD_MASK_def

lemmas bit_masks = bit_BIT bit_GENMASK bit_GENMASK64

lemma bit_mark_fpn:
  "bit (mark_fpn pte fpn) n \<longleftrightarrow> n < 32 \<and>
     (if n \<le> 12 then bit fpn n else if n = 30 then False else n = 31 \<or> bit pte n)"
  by (auto simp: mark_fpn_def SETBIT_def CLRBIT_def SETVAL_def mask_defs bit_masks bit_simps Let_def)

lemma bit_mark_swap:
  "bit (mark_swap pte typ off) n \<longleftrightarrow> n < 32 \<and>
     (if n \<le> 4 then bit typ n else if n \<le> 25 then bit off (n - 5) else n = 30 \<or> n = 31 \<or> bit pte n)"
  by (auto simp: mark_swap_def SETBIT_def SETVAL_def mask_defs bit_masks bit_simps Let_def)

lemma present_iff_bit: "PAGING_PAGE_PRESENT pte \<longleftrightarrow> bit pte 31"
  by (simp add: PAGING_PAGE_PRESENT_def PAGING_PTE_PRESENT_MASK_def BIT_def bit_iff_and_push_bit_not_eq_0)

lemma FPN_eq: "PAGING_FPN pte = take_bit 13 pte"
  by (rule bit_word_eqI) (auto simp: PAGING_FPN_def GETVAL_def mask_defs bit_masks bit_simps)

lemma SWP_eq: "PAGING_SWP pte = take_bit 21 (drop_bit 5 pte)"
  by (rule bit_word_eqI) (auto simp: PAGING_SWP_def mask_defs bit_masks bit_simps)

lemma OFFST_eq: "PAGING_OFFST x = take_bit 8 x"
  by (rule bit_word_eqI) (auto simp: PAGING_OFFST_def GETVAL_def mask_defs bit_masks bit_simps)

lemma PGN_eq: "PAGING_PGN x = take_bit 14 (drop_bit 8 x)"
  by (rule bit_word_eqI) (auto simp: PAGING_PGN_def GETVAL_def mask_defs bit_masks bit_simps)

lemma pd_from_address_eq:
  "get_pd_from_address a =
     (take_bit 9 (drop_bit 48 a), take_bit 9 (drop_bit 39 a), take_bit 9 (drop_bit 30 a),
      take_bit 9 (drop_bit 21 a), take_bit 9 (drop_bit 12 a))"
  by (auto simp: get_pd_from_address_def mask64_defs bit_masks bit_simps intro!: bit_word_eqI)

lemma pd_from_pagenum_eq:
  "get_pd_from_pagenum p =
     (take_bit 9 (drop_bit 36 p), take_bit 9 (drop_bit 27 p), take_bit 9 (drop_bit 18 p),
      take_bit 9 (drop_bit 9 p), take_bit 9 p)"
  by (auto simp: get_pd_from_pagenum_def pd_from_address_eq bit_simps intro!: bit_word_eqI)

section \<open>Consequences\<close>

lemma present_bit_fpn [simp]: "PAGING_PAGE_PRESENT (ucast (mark_fpn pte f))"
  by (simp add: present_iff_bit bit_mark_fpn bit_simps)

lemma present_bit_swap [simp]: "PAGING_PAGE_PRESENT (ucast (mark_swap pte typ off))"
  by (simp add: present_iff_bit bit_mark_swap bit_simps)

lemma FPN_mark_fpn: "PAGING_FPN (ucast (mark_fpn pte f)) = ucast (take_bit 13 f)"
  by (rule bit_word_eqI) (auto simp: FPN_eq bit_mark_fpn bit_simps)

lemma SWP_mark_swap: "PAGING_SWP (ucast (mark_swap pte typ off)) = ucast (take_bit 21 off)"
  by (rule bit_word_eqI) (auto simp: SWP_eq bit_mark_swap bit_simps)

lemma FPN_mark_swap:
  "PAGING_FPN (ucast (mark_swap pte typ off)) = take_bit 5 typ OR push_bit 5 (take_bit 8 (ucast off))"
  by (rule bit_word_eqI) (auto simp: FPN_eq bit_mark_swap bit_simps)

lemma unat_take_bit: "unat (take_bit n w) = unat w mod 2 ^ n"
  by (simp only: unsigned_take_bit_eq) (simp only: take_bit_eq_mod)

lemma unat_drop_bit: "unat (drop_bit n w) = unat w div 2 ^ n"
  by (simp only: unat_drop_bit_eq) (simp only: drop_bit_eq_div)

lemma unat_FPN_mark_fpn: "unat (PAGING_FPN (ucast (mark_fpn pte f))) = unat f mod 8192"
proof -
  have "unat (take_bit 13 f) = unat f mod 8192" by (simp add: unat_take_bit)
  moreover from this have "unat (ucast (take_bit 13 f) :: u32) = unat (take_bit 13 f)"
    by (simp add: unsigned_ucast_eq take_bit_nat_eq_self)
  ultimately show ?thesis by (simp add: FPN_mark_fpn)
qed

lemma unat_FPN_mark_swap: "unat (PAGING_FPN (ucast (mark_swap pte 0 off))) = 32 * (unat off mod 256)"
proof -
  have "unat (take_bit 8 (ucast off) :: u32) = unat off mod 256"
    by (simp only: unat_take_bit unsigned_ucast_eq)
       (simp add: take_bit_eq_mod mod_mod_cancel)
  then have "unat (push_bit 5 (take_bit 8 (ucast off)) :: u32) = 32 * (unat off mod 256)"
    by (simp add: push_bit_eq_mult unat_word_ariths)
  then show ?thesis by (simp add: FPN_mark_swap)
qed

lemma mark_fpn_nonzero: "ucast (mark_fpn pte f) \<noteq> (0 :: u32)"
  using present_bit_fpn [of pte f] by (auto simp: present_iff_bit)

lemma unat_PGN: "unat (PAGING_PGN a) = unat a div 256 mod 2 ^ 14"
  by (simp add: PGN_eq unat_take_bit unat_drop_bit)

lemma unat_OFFST: "unat (PAGING_OFFST a) = unat a mod 256"
  by (simp add: OFFST_eq unat_take_bit)

lemma unat_ALIGNSZ:
  assumes "unat sz + 255 < 2 ^ 64"
  shows "unat (PAGING_PAGE_ALIGNSZ sz) = (unat sz + 255) div 256 * 256"
    and "unat (PAGING_PAGE_ALIGNSZ sz div 256) = (unat sz + 255) div 256"
proof -
  have "DIV_ROUND_UP sz 256 = (sz + 255) div 256" by (simp add: DIV_ROUND_UP_def add.commute)
  moreover have "unat (sz + 255) = unat sz + 255"
    using assms by (simp add: unat_word_ariths)
  ultimately have d: "unat (DIV_ROUND_UP sz 256) = (unat sz + 255) div 256"
    by (simp add: unat_div)
  have "(unat sz + 255) div 256 * 256 < 2 ^ 64"
    using assms by (meson div_times_less_eq_dividend le_less_trans)
  then show "unat (PAGING_PAGE_ALIGNSZ sz) = (unat sz + 255) div 256 * 256"
    by (simp add: PAGING_PAGE_ALIGNSZ_def PAGING_PAGESZ_def unat_word_ariths d)
  then show "unat (PAGING_PAGE_ALIGNSZ sz div 256) = (unat sz + 255) div 256"
    by (simp add: unat_div)
qed

lemma pd_indices_less:
  "get_pd_from_pagenum p = (i0, i1, i2, i3, i4) \<Longrightarrow>
   unat i0 < 512 \<and> unat i1 < 512 \<and> unat i2 < 512 \<and> unat i3 < 512 \<and> unat i4 < 512"
  by (auto simp: pd_from_pagenum_eq unat_take_bit)

text \<open>Page numbers are told apart by the page tables up to their low 45 bits.\<close>

lemma pd_from_pagenum_inj:
  "get_pd_from_pagenum p = get_pd_from_pagenum q \<longleftrightarrow> take_bit 45 p = take_bit 45 q"
proof
  assume eq: "get_pd_from_pagenum p = get_pd_from_pagenum q"
  have "bit p n = bit q n" if n: "n < 45" for n
  proof -
    have "bit (take_bit 9 (drop_bit k p)) (n - k) = bit (take_bit 9 (drop_bit k q)) (n - k)"
      if "k \<in> {0, 9, 18, 27, 36}" for k using eq that by (auto simp: pd_from_pagenum_eq)
    then have "bit p n = bit q n" if "k \<in> {0, 9, 18, 27, 36}" "k \<le> n" "n < k + 9" for k
      using that n by (fastforce simp: bit_simps)
    note block = this
    consider "n < 9" | "9 \<le> n" "n < 18" | "18 \<le> n" "n < 27" | "27 \<le> n" "n < 36" | "36 \<le> n"
      by linarith
    then show ?thesis
      using block [of 0] block [of 9] block [of 18] block [of 27] block [of 36] n by cases auto
  qed
  then show "take_bit 45 p = take_bit 45 q" by (auto intro!: bit_word_eqI simp: bit_simps)
next
  assume eq: "take_bit 45 p = take_bit 45 q"
  then have "bit p n = bit q n" if "n < 45" for n
    using that by (metis bit_take_bit_iff)
  then show "get_pd_from_pagenum p = get_pd_from_pagenum q"
    by (auto simp: pd_from_pagenum_eq bit_simps intro!: bit_word_eqI)
qed

section \<open>Properties\<close>

text \<open>Installing a frame in an entry, whatever the entry held: the entry reads as present
  and not swapped, and the frame number read back is the installed one modulo 8192.  The
  frame field has 13 bits, so two frames that differ by a multiple of 8192 (RAM above 2 MB)
  become the same entry.\<close>

theorem pte_fpn_roundtrip:
  "PAGING_PAGE_PRESENT (ucast (mark_fpn pte f))
   \<and> (ucast (mark_fpn pte f) AND PAGING_PTE_SWAPPED_MASK) = 0
   \<and> unat (PAGING_FPN (ucast (mark_fpn pte f))) = unat f mod 8192
   \<and> mark_fpn pte (f + 8192) = mark_fpn pte f"
proof (intro conjI)
  show "(ucast (mark_fpn pte f) AND PAGING_PTE_SWAPPED_MASK) = 0"
    by (auto simp: mask_defs bit_mark_fpn bit_masks bit_simps intro!: bit_word_eqI)
  have "take_bit 13 (f + 8192) = take_bit 13 f"
    by (simp only: word_unat_eq_iff unat_take_bit)
       (simp add: unat_word_ariths mod_mod_cancel)
  then have "bit (f + 8192) n = bit f n" if "n \<le> 12" for n
    using that bit_take_bit_iff [of 13 f n] bit_take_bit_iff [of 13 "f + 8192" n] by simp
  then show "mark_fpn pte (f + 8192) = mark_fpn pte f"
    by (auto simp: bit_mark_fpn intro!: bit_word_eqI)
qed (simp_all add: unat_FPN_mark_fpn)

text \<open>A swapped-out entry still reads as present.  Its swap offset reads back modulo
  \<open>2^21\<close>; the frame number that \<open>PAGING_FPN\<close> extracts from it is made of the swap type and
  the low bits of the swap offset.\<close>

theorem pte_swap_reads_present:
  "PAGING_PAGE_PRESENT (ucast (mark_swap pte typ off))
   \<and> unat (PAGING_SWP (ucast (mark_swap pte typ off))) = unat off mod 2 ^ 21
   \<and> unat (PAGING_FPN (ucast (mark_swap pte 0 off))) = 32 * (unat off mod 256)"
proof (intro conjI)
  have "unat (take_bit 21 off) = unat off mod 2 ^ 21" by (simp add: unat_take_bit)
  then show "unat (PAGING_SWP (ucast (mark_swap pte typ off))) = unat off mod 2 ^ 21"
    by (simp add: SWP_mark_swap unsigned_ucast_eq take_bit_nat_eq_self)
qed (simp_all add: unat_FPN_mark_swap)

text \<open>A 22 bit virtual address splits into a page number of 14 bits and an offset of 8
  bits, and is put together again from them.\<close>

theorem address_split:
  assumes "unat a < 2 ^ 22"
  shows "unat (PAGING_PGN a) * PAGING_PAGESZ + unat (PAGING_OFFST a) = unat a
    \<and> unat (PAGING_PGN a) < PAGING_MAX_PGN \<and> unat (PAGING_OFFST a) < PAGING_PAGESZ"
  using assms by (simp add: unat_PGN unat_OFFST PAGING_PAGESZ_def PAGING_MAX_PGN_def PAGING_CPU_BUS_WIDTH_def)

theorem address_split_witness:
  "unat (PAGING_PGN 1000) = 3 \<and> unat (PAGING_PGN 1000) * PAGING_PAGESZ + unat (PAGING_OFFST 1000) = 1000"
  using address_split [of 1000] by (simp add: unat_PGN)

text \<open>A page number splits into five table indices below 512, and two page numbers get
  the same indices exactly when they agree modulo \<open>2^45\<close>.\<close>

theorem pagenum_split:
  "(case get_pd_from_pagenum p of (pgd, p4d, pud, pmd, pt) \<Rightarrow>
      unat pgd < 512 \<and> unat p4d < 512 \<and> unat pud < 512 \<and> unat pmd < 512 \<and> unat pt < 512
      \<and> (((unat pgd * 512 + unat p4d) * 512 + unat pud) * 512 + unat pmd) * 512 + unat pt
          = unat p mod 2 ^ 45)
   \<and> (get_pd_from_pagenum p = get_pd_from_pagenum q \<longleftrightarrow> unat p mod 2 ^ 45 = unat q mod 2 ^ 45)"
proof (intro conjI)
  have "(((n div 2 ^ 36 mod 512 * 512 + n div 2 ^ 27 mod 512) * 512 + n div 2 ^ 18 mod 512) * 512
      + n div 2 ^ 9 mod 512) * 512 + n mod 512 = n mod 2 ^ 45" for n :: nat
  proof -
    have "m mod (512 * k) = m div 512 mod k * 512 + m mod 512" for m k :: nat
      by (simp add: mod_mult2_eq)
    note step = this
    show ?thesis
      using step [of n "2 ^ 36"] step [of "n div 2 ^ 9" "2 ^ 27"] step [of "n div 2 ^ 18" "2 ^ 18"]
        step [of "n div 2 ^ 27" "2 ^ 9"]
      by (simp add: div_mult2_eq [symmetric])
  qed
  then show "case get_pd_from_pagenum p of (pgd, p4d, pud, pmd, pt) \<Rightarrow>
      unat pgd < 512 \<and> unat p4d < 512 \<and> unat pud < 512 \<and> unat pmd < 512 \<and> unat pt < 512
      \<and> (((unat pgd * 512 + unat p4d) * 512 + unat pud) * 512 + unat pmd) * 512 + unat pt
          = unat p mod 2 ^ 45"
    by (simp add: pd_from_pagenum_eq unat_take_bit unat_drop_bit)
  show "get_pd_from_pagenum p = get_pd_from_pagenum q \<longleftrightarrow> unat p mod 2 ^ 45 = unat q mod 2 ^ 45"
    by (simp only: pd_from_pagenum_inj word_unat_eq_iff unat_take_bit)
qed

text \<open>\<open>init_pte\<close> on every branch: an online page needs a non-zero frame and gets the
  entry of \<open>pte_set_fpn\<close> without the dirty bit, a swapped page gets the entry of
  \<open>pte_set_swap\<close> without the dirty bit, and a page that is not present is left alone.\<close>

theorem init_pte_branches:
  "init_pte pte pre f drt swp typ off =
     (if pre = 0 then (0, pte)
      else if swp \<noteq> 0 then (0, CLRBIT (mark_swap pte typ off) PAGING_PTE_DIRTY_MASK)
      else if f = 0 then (-1, pte)
      else (0, CLRBIT (mark_fpn pte f) PAGING_PTE_DIRTY_MASK))"
  by (auto simp: init_pte_def Let_def mark_swap_def mark_fpn_def SETBIT_def CLRBIT_def SETVAL_def
      mask_defs bit_masks bit_simps intro!: bit_word_eqI)

end
