(* ===== verification/OS_Pgtable.thy ===== *)
theory OS_Pgtable
  imports OS_Pte
begin

text \<open>
  The five-level page table of \<open>mm64.c\<close>.  A table is an array of 512 \<open>addr_t\<close> words; the
  words of the four upper levels are pointers to tables of the next level (0 is \<open>NULL\<close>), the
  words of the last level are page-table entries.  The tables that \<open>calloc\<close> has returned are
  kept in one list per level, a pointer \<open>k + 1\<close> names the table at position \<open>k\<close> of the list
  of its level, and \<open>calloc\<close> returns a fresh zeroed table at the end of the list (it is taken
  to succeed, as the code does).  The abstraction \<open>pt_lookup\<close> reads the structure as a
  function from page numbers to entries.
\<close>

section \<open>State and walk\<close>

record pgtable =
  pgd_tbl :: "nat list"
  p4d_tbls :: "nat list list"
  pud_tbls :: "nat list list"
  pmd_tbls :: "nat list list"
  pt_tbls :: "u64 list list"

definition zero_table :: "'c::zero list" where
  "zero_table = replicate PAGING64_PGTBL_ENTRIES 0"

definition empty_pgtable :: pgtable where
  "empty_pgtable = \<lparr>pgd_tbl = zero_table, p4d_tbls = [], pud_tbls = [], pmd_tbls = [], pt_tbls = []\<rparr>"

text \<open>\<open>if (tbl[i] == 0) tbl[i] = calloc(512, sizeof(addr_t)); base = tbl[i];\<close> where \<open>heap\<close>
  holds the tables of the next level.\<close>

definition dir_step :: "nat list \<Rightarrow> nat \<Rightarrow> 'c::zero list list \<Rightarrow> nat \<times> nat list \<times> 'c list list" where
  "dir_step tbl i heap =
     (if tbl ! i = 0
      then (Suc (length heap), tbl[i := Suc (length heap)], heap @ [zero_table])
      else (tbl ! i, tbl, heap))"

text \<open>The body of \<open>get_pte\<close> for a process with page tables: the location of the entry (table
  and index) and the page tables with the missing levels allocated.\<close>

definition pt_walk :: "pgtable \<Rightarrow> u64 \<Rightarrow> (nat \<times> nat) \<times> pgtable" where
  "pt_walk t pgn =
     (let (i0, i1, i2, i3, i4) = get_pd_from_pagenum pgn;
          (p4d, pgd, p4ds) = dir_step (pgd_tbl t) (unat i0) (p4d_tbls t);
          (pud, tb, puds) = dir_step (p4ds ! (p4d - 1)) (unat i1) (pud_tbls t);
          p4ds = p4ds[p4d - 1 := tb];
          (pmd, tb, pmds) = dir_step (puds ! (pud - 1)) (unat i2) (pmd_tbls t);
          puds = puds[pud - 1 := tb];
          (pt, tb, pts) = dir_step (pmds ! (pmd - 1)) (unat i3) (pt_tbls t);
          pmds = pmds[pmd - 1 := tb]
      in ((pt - 1, unat i4),
          \<lparr>pgd_tbl = pgd, p4d_tbls = p4ds, pud_tbls = puds, pmd_tbls = pmds, pt_tbls = pts\<rparr>))"

text \<open>\<open>*pte\<close> and \<open>*pte = v\<close> at a location the walk returned.\<close>

definition read_entry :: "pgtable \<Rightarrow> nat \<times> nat \<Rightarrow> u64" where
  "read_entry t loc = pt_tbls t ! fst loc ! snd loc"

definition write_entry :: "pgtable \<Rightarrow> nat \<times> nat \<Rightarrow> u64 \<Rightarrow> pgtable" where
  "write_entry t loc v =
     t\<lparr>pt_tbls := (pt_tbls t)[fst loc := (pt_tbls t ! fst loc)[snd loc := v]]\<rparr>"

section \<open>One level of directories\<close>

text \<open>\<open>sel f P\<close> extends a path selection \<open>f\<close> (which table of this level a path leads to) by
  one index: the table of the next level, if the entry is not \<open>NULL\<close>.\<close>

definition sel :: "('x \<Rightarrow> nat option) \<Rightarrow> nat list list \<Rightarrow> 'x \<times> nat \<Rightarrow> nat option" where
  "sel f P = (\<lambda>(x, j). case f x of
     None \<Rightarrow> None
   | Some a \<Rightarrow> if j < 512 \<and> P ! a ! j \<noteq> 0 then Some (P ! a ! j - 1) else None)"

definition tables_ok :: "'c list list \<Rightarrow> bool" where
  "tables_ok P \<longleftrightarrow> (\<forall>t \<in> set P. length t = 512)"

text \<open>A level is well formed when paths reach different tables and no pointer dangles.\<close>

definition sel_ok :: "('x \<Rightarrow> nat option) \<Rightarrow> nat \<Rightarrow> bool" where
  "sel_ok f n \<longleftrightarrow> (\<forall>x a. f x = Some a \<longrightarrow> a < n) \<and> (\<forall>x y a. f x = Some a \<longrightarrow> f y = Some a \<longrightarrow> x = y)"

text \<open>Pointers outside any reachable table do not exist: fresh tables are all zero.\<close>

lemma sel_okD: "sel_ok f n \<Longrightarrow> f x = Some a \<Longrightarrow> a < n"
  by (auto simp: sel_ok_def)

lemma sel_ok_inj: "sel_ok f n \<Longrightarrow> f x = Some a \<Longrightarrow> f y = Some a \<Longrightarrow> x = y"
  by (auto simp: sel_ok_def)

lemma zero_table_props [simp]:
  "length (zero_table :: 'c::zero list) = 512"
  "j < 512 \<Longrightarrow> (zero_table :: 'c::zero list) ! j = 0"
  by (simp_all add: zero_table_def PAGING64_PGTBL_ENTRIES_def)

lemma tables_ok_fresh: "tables_ok P \<Longrightarrow> tables_ok (P @ [zero_table])"
  by (auto simp: tables_ok_def)

lemma tables_okD: "tables_ok P \<Longrightarrow> a < length P \<Longrightarrow> length (P ! a) = 512"
  by (simp add: tables_ok_def)

lemma tables_ok_update: "tables_ok P \<Longrightarrow> length tb = 512 \<Longrightarrow> tables_ok (P[a := tb])"
  using set_update_subset_insert [of P a tb] by (auto simp: tables_ok_def)

text \<open>Extending the selection by a fresh table does not change the next level.\<close>

lemma sel_fresh:
  assumes "sel_ok f (length P)" and "f x = None"
  shows "sel (f(x := Some (length P))) (P @ [zero_table]) = sel f P"
    and "sel_ok (f(x := Some (length P))) (length (P @ [zero_table]))"
proof -
  show "sel_ok (f(x := Some (length P))) (length (P @ [zero_table]))"
    using assms unfolding sel_ok_def by (auto simp: less_Suc_eq) 
  show "sel (f(x := Some (length P))) (P @ [zero_table]) = sel f P"
    using assms sel_okD [OF assms(1)]
    by (fastforce simp: sel_def nth_append split: option.splits)
qed

text \<open>One step of the walk: from a table that path \<open>x\<close> leads to, the step returns the table
  of path \<open>(x, j)\<close>.  If it existed nothing changes; otherwise exactly this path is added,
  with a fresh table.\<close>

lemma dir_step_sel:
  fixes f :: "'x \<Rightarrow> nat option" and C :: "'c::zero list list"
  assumes P: "tables_ok P" and f: "sel_ok f (length P)" and fx: "f x = Some a" and j: "j < 512"
    and ok: "sel_ok (sel f P) (length C)"
    and step: "dir_step (P ! a) j C = (p, tb, C')"
  shows "tables_ok (P[a := tb])" and "sel_ok (sel f (P[a := tb])) (length C')"
    and "sel f (P[a := tb]) = (sel f P)((x, j) := Some (p - 1))"
    and "sel f P (x, j) = None \<Longrightarrow> p - 1 = length C \<and> C' = C @ [zero_table]"
    and "sel f P (x, j) \<noteq> None \<Longrightarrow> P[a := tb] = P \<and> C' = C \<and> sel f P (x, j) = Some (p - 1)"
proof -
  have a: "a < length P" using sel_okD [OF f fx] .
  have tb: "length tb = 512"
    using step tables_okD [OF P a] by (auto simp: dir_step_def split: if_splits)
  show "tables_ok (P[a := tb])" using P tb by (rule tables_ok_update)
  have none: "sel f P (x, j) = None \<longleftrightarrow> P ! a ! j = 0" using fx j by (simp add: sel_def)
  then show new: "sel f P (x, j) = None \<Longrightarrow> p - 1 = length C \<and> C' = C @ [zero_table]"
    using step by (auto simp: dir_step_def)
  show old: "sel f P (x, j) \<noteq> None \<Longrightarrow> P[a := tb] = P \<and> C' = C \<and> sel f P (x, j) = Some (p - 1)"
    using step none fx j by (auto simp: dir_step_def sel_def split: if_splits)
  show upd: "sel f (P[a := tb]) = (sel f P)((x, j) := Some (p - 1))"
  proof (cases "P ! a ! j = 0")
    case False
    then show ?thesis using old none by auto
  next
    case True
    then have t: "tb = (P ! a)[j := Suc (length C)]" "p - 1 = length C"
      using step by (auto simp: dir_step_def)
    show ?thesis
    proof (rule ext)
      fix yk :: "'x \<times> nat"
      obtain y k where yk: "yk = (y, k)" by (cases yk)
      show "sel f (P[a := tb]) yk = ((sel f P)((x, j) := Some (p - 1))) yk"
      proof (cases "y = x")
        case True
        then show ?thesis using a t fx j tables_okD [OF P a] by (simp add: yk sel_def nth_list_update)
      next
        case False
        then have "f y \<noteq> Some a" using sel_ok_inj [OF f fx, of y] by auto
        then show ?thesis using False by (cases "f y") (auto simp: yk sel_def nth_list_update)
      qed
    qed
  qed
  show "sel_ok (sel f (P[a := tb])) (length C')"
  proof (cases "sel f P (x, j)")
    case None
    with new have "p - 1 = length C" "length C' = Suc (length C)" by auto
    with ok None show ?thesis unfolding upd sel_ok_def by (auto simp: less_Suc_eq)
  next
    case (Some r)
    with old ok show ?thesis by auto
  qed
qed

text \<open>What a step hands to the next level: the selection extended by the current path, and
  the tables unchanged or extended by one fresh table.\<close>

definition extended ::
  "('x \<Rightarrow> nat option) \<Rightarrow> 'c::zero list list \<Rightarrow> 'x \<Rightarrow> ('x \<Rightarrow> nat option) \<Rightarrow> 'c list list \<Rightarrow> nat \<Rightarrow> bool" where
  "extended f P x f' P' a \<longleftrightarrow>
     tables_ok P' \<and> sel_ok f' (length P') \<and> f' = f(x := Some a)
     \<and> (f x = None \<longrightarrow> a = length P \<and> P' = P @ [zero_table])
     \<and> (f x \<noteq> None \<longrightarrow> P' = P \<and> f x = Some a)"

lemma extended_step:
  fixes C :: "'c::zero list list"
  assumes ext: "extended f P x f' P' a" and P: "tables_ok P" and f: "sel_ok f (length P)"
    and C: "tables_ok C" and ok: "sel_ok (sel f P) (length C)" and j: "j < 512"
    and step: "dir_step (P' ! a) j C = (p, tb, C')"
  shows "extended (sel f P) C (x, j) (sel f' (P'[a := tb])) C' (p - 1)"
    and "tables_ok (P'[a := tb])" and "sel_ok f' (length (P'[a := tb]))"
    and "sel f P (x, j) \<noteq> None \<Longrightarrow> P'[a := tb] = P"
proof -
  have sel': "sel f' P' = sel f P"
    using ext sel_fresh(1) [OF f, of x] by (cases "f x") (auto simp: extended_def fun_upd_idem)
  have P': "tables_ok P'" "sel_ok f' (length P')" "f' x = Some a"
    using ext by (auto simp: extended_def)
  note st = dir_step_sel [OF P' j ok [folded sel'] step]
  have C': "tables_ok C'" using st(4,5) C tables_ok_fresh [OF C] by (cases "sel f' P' (x, j)") auto
  show "tables_ok (P'[a := tb])" "sel_ok f' (length (P'[a := tb]))" using st(1) P'(2) by simp_all
  show "extended (sel f P) C (x, j) (sel f' (P'[a := tb])) C' (p - 1)"
    unfolding extended_def using st C' by (simp add: sel')
  have "f x \<noteq> None" if "sel f P (x, j) \<noteq> None" using that by (auto simp: sel_def split: option.splits)
  then show "sel f P (x, j) \<noteq> None \<Longrightarrow> P'[a := tb] = P"
    using st(5) ext by (auto simp: sel' extended_def)
qed

section \<open>The whole walk\<close>

type_synonym path = "(((unit \<times> nat) \<times> nat) \<times> nat) \<times> nat"

definition pgn_path :: "u64 \<Rightarrow> path" where
  "pgn_path pgn = (case get_pd_from_pagenum pgn of
     (i0, i1, i2, i3, i4) \<Rightarrow> (((((), unat i0), unat i1), unat i2), unat i3))"

definition pgn_index :: "u64 \<Rightarrow> nat" where
  "pgn_index pgn = (case get_pd_from_pagenum pgn of (i0, i1, i2, i3, i4) \<Rightarrow> unat i4)"

abbreviation root_sel :: "unit \<Rightarrow> nat option" where
  "root_sel \<equiv> \<lambda>_. Some 0"

definition resolve :: "pgtable \<Rightarrow> path \<Rightarrow> nat option" where
  "resolve t = sel (sel (sel (sel root_sel [pgd_tbl t]) (p4d_tbls t)) (pud_tbls t)) (pmd_tbls t)"

definition pt_wf :: "pgtable \<Rightarrow> bool" where
  "pt_wf t \<longleftrightarrow>
     tables_ok [pgd_tbl t] \<and> tables_ok (p4d_tbls t) \<and> tables_ok (pud_tbls t)
     \<and> tables_ok (pmd_tbls t) \<and> tables_ok (pt_tbls t)
     \<and> sel_ok (sel root_sel [pgd_tbl t]) (length (p4d_tbls t))
     \<and> sel_ok (sel (sel root_sel [pgd_tbl t]) (p4d_tbls t)) (length (pud_tbls t))
     \<and> sel_ok (sel (sel (sel root_sel [pgd_tbl t]) (p4d_tbls t)) (pud_tbls t)) (length (pmd_tbls t))
     \<and> sel_ok (resolve t) (length (pt_tbls t))"

definition pt_lookup :: "pgtable \<Rightarrow> u64 \<Rightarrow> u64" where
  "pt_lookup t pgn =
     (case resolve t (pgn_path pgn) of None \<Rightarrow> 0 | Some r \<Rightarrow> pt_tbls t ! r ! pgn_index pgn)"

text \<open>Two page numbers share their entry exactly when they agree on the low 45 bits.\<close>

definition same_entry :: "u64 \<Rightarrow> u64 \<Rightarrow> bool" where
  "same_entry p q \<longleftrightarrow> take_bit 45 p = take_bit 45 q"

lemma same_entry_path: "same_entry p q \<longleftrightarrow> pgn_path p = pgn_path q \<and> pgn_index p = pgn_index q"
  unfolding same_entry_def pd_from_pagenum_inj [symmetric]
  by (auto simp: pgn_path_def pgn_index_def word_unat_eq_iff split: prod.splits)

lemma same_entry_refl [simp]: "same_entry p p"
  by (simp add: same_entry_def)

lemma same_entry_sym: "same_entry p q \<longleftrightarrow> same_entry q p"
  by (auto simp: same_entry_def)

lemma same_entry_small: "unat p < 2 ^ 45 \<Longrightarrow> unat q < 2 ^ 45 \<Longrightarrow> same_entry p q \<longleftrightarrow> p = q"
  by (simp only: same_entry_def word_unat_eq_iff unat_take_bit mod_less)

lemma pgn_index_less: "pgn_index p < 512"
  using pd_indices_less by (auto simp: pgn_index_def split: prod.splits)

lemma empty_pgtable_wf: "pt_wf empty_pgtable" and empty_pgtable_lookup: "pt_lookup empty_pgtable p = 0"
  by (auto simp: pt_wf_def empty_pgtable_def tables_ok_def sel_ok_def sel_def resolve_def pt_lookup_def
      pgn_path_def split: option.splits if_splits prod.splits)

lemma pt_walk_spec:
  assumes wf: "pt_wf t" and walk: "pt_walk t pgn = (loc, t')"
  shows "pt_wf t'" and "resolve t' = (resolve t)(pgn_path pgn := Some (fst loc))"
    and "snd loc = pgn_index pgn"
    and "resolve t (pgn_path pgn) = None \<Longrightarrow>
      fst loc = length (pt_tbls t) \<and> pt_tbls t' = pt_tbls t @ [zero_table]"
    and "resolve t (pgn_path pgn) \<noteq> None \<Longrightarrow> t' = t \<and> resolve t (pgn_path pgn) = Some (fst loc)"
proof -
  obtain i0 i1 i2 i3 i4 where pd: "get_pd_from_pagenum pgn = (i0, i1, i2, i3, i4)"
    by (cases "get_pd_from_pagenum pgn")
  have i: "unat i0 < 512" "unat i1 < 512" "unat i2 < 512" "unat i3 < 512"
    using pd_indices_less [OF pd] by auto
  obtain p0 tb0 c1 where s0: "dir_step (pgd_tbl t) (unat i0) (p4d_tbls t) = (p0, tb0, c1)"
    by (cases "dir_step (pgd_tbl t) (unat i0) (p4d_tbls t)")
  obtain p1 tb1 c2 where s1: "dir_step (c1 ! (p0 - 1)) (unat i1) (pud_tbls t) = (p1, tb1, c2)"
    by (cases "dir_step (c1 ! (p0 - 1)) (unat i1) (pud_tbls t)")
  obtain p2 tb2 c3 where s2: "dir_step (c2 ! (p1 - 1)) (unat i2) (pmd_tbls t) = (p2, tb2, c3)"
    by (cases "dir_step (c2 ! (p1 - 1)) (unat i2) (pmd_tbls t)")
  obtain p3 tb3 c4 where s3: "dir_step (c3 ! (p2 - 1)) (unat i3) (pt_tbls t) = (p3, tb3, c4)"
    by (cases "dir_step (c3 ! (p2 - 1)) (unat i3) (pt_tbls t)")
  have t': "loc = (p3 - 1, unat i4)"
    "t' = \<lparr>pgd_tbl = tb0, p4d_tbls = c1[p0 - 1 := tb1], pud_tbls = c2[p1 - 1 := tb2],
           pmd_tbls = c3[p2 - 1 := tb3], pt_tbls = c4\<rparr>"
    using walk by (simp_all add: pt_walk_def pd s0 s1 [simplified] s2 [simplified] s3 [simplified])
  note w = wf [unfolded pt_wf_def resolve_def]
  let ?f1 = "sel root_sel [pgd_tbl t]" and ?g1 = "sel root_sel [tb0]"
  let ?P1 = "c1[p0 - 1 := tb1]" and ?P2 = "c2[p1 - 1 := tb2]" and ?P3 = "c3[p2 - 1 := tb3]"
  let ?f2 = "sel ?f1 (p4d_tbls t)" and ?g2 = "sel ?g1 ?P1"
  let ?f3 = "sel ?f2 (pud_tbls t)" and ?g3 = "sel ?g2 ?P2"
  let ?f4 = "sel ?f3 (pmd_tbls t)" and ?g4 = "sel ?g3 ?P3"
  have root: "extended root_sel [pgd_tbl t] () root_sel [pgd_tbl t] 0" "sel_ok root_sel (length [pgd_tbl t])"
    using w by (simp_all add: extended_def sel_ok_def fun_eq_iff)
  have s0': "dir_step ([pgd_tbl t] ! 0) (unat i0) (p4d_tbls t) = (p0, tb0, c1)" using s0 by simp
  note e1 = extended_step [OF root(1) _ root(2) _ _ i(1) s0', simplified]
  have x1: "extended ?f1 (p4d_tbls t) ((), unat i0) ?g1 c1 (p0 - 1)" "tables_ok [tb0]"
    "?f1 ((), unat i0) \<noteq> None \<Longrightarrow> tb0 = pgd_tbl t"
    using e1 w by simp_all
  note e2 = extended_step [OF x1(1) _ _ _ _ i(2) s1]
  have x2: "extended ?f2 (pud_tbls t) (((), unat i0), unat i1) ?g2 c2 (p1 - 1)" "tables_ok ?P1"
    "sel_ok ?g1 (length ?P1)"
    "?f2 (((), unat i0), unat i1) \<noteq> None \<Longrightarrow> ?P1 = p4d_tbls t"
    using e2 w by simp_all
  note e3 = extended_step [OF x2(1) _ _ _ _ i(3) s2]
  have x3: "extended ?f3 (pmd_tbls t) ((((), unat i0), unat i1), unat i2) ?g3 c3 (p2 - 1)" "tables_ok ?P2"
    "sel_ok ?g2 (length ?P2)"
    "?f3 ((((), unat i0), unat i1), unat i2) \<noteq> None \<Longrightarrow> ?P2 = pud_tbls t"
    using e3 w by simp_all
  note e4 = extended_step [OF x3(1) _ _ _ _ i(4) s3]
  have x4: "extended ?f4 (pt_tbls t) (((((), unat i0), unat i1), unat i2), unat i3) ?g4 c4 (p3 - 1)" "tables_ok ?P3"
    "sel_ok ?g3 (length ?P3)"
    "?f4 (((((), unat i0), unat i1), unat i2), unat i3) \<noteq> None \<Longrightarrow> ?P3 = pmd_tbls t"
    using e4 w by simp_all
  have path: "pgn_path pgn = (((((), unat i0), unat i1), unat i2), unat i3)"
    by (simp add: pgn_path_def pd)
  have res: "resolve t = ?f4" "resolve t' = ?g4" by (simp_all add: resolve_def t')
  have "tables_ok c4" "sel_ok ?g4 (length c4)" using x4(1) unfolding extended_def by blast+
  then show "pt_wf t'" using x1(2) x2(2,3) x3(2,3) x4(2,3)
    by (simp add: pt_wf_def resolve_def t')
  show "resolve t' = (resolve t)(pgn_path pgn := Some (fst loc))"
  proof -
    have "?g4 = ?f4((((((), unat i0), unat i1), unat i2), unat i3) \<mapsto> p3 - 1)"
      using x4(1) unfolding extended_def by blast
    then show ?thesis by (simp only: res path t'(1) fst_conv)
  qed
  show "snd loc = pgn_index pgn" by (simp add: t' pgn_index_def pd)
  show "resolve t (pgn_path pgn) = None \<Longrightarrow>
      fst loc = length (pt_tbls t) \<and> pt_tbls t' = pt_tbls t @ [zero_table]"
    using x4(1) by (simp add: res path t' extended_def)
  assume some: "resolve t (pgn_path pgn) \<noteq> None"
  then have "?f3 ((((), unat i0), unat i1), unat i2) \<noteq> None"
    "?f2 (((), unat i0), unat i1) \<noteq> None" "?f1 ((), unat i0) \<noteq> None"
    by (auto simp: res path sel_def split: option.splits if_splits)
  then have "tb0 = pgd_tbl t" "?P1 = p4d_tbls t" "?P2 = pud_tbls t" "?P3 = pmd_tbls t" "c4 = pt_tbls t"
    using x1(3) x2(4) x3(4) x4(1,4) some by (simp_all add: res path extended_def)
  then show "t' = t \<and> resolve t (pgn_path pgn) = Some (fst loc)"
    using some x4(1) by (simp add: t' res path extended_def)
qed

section \<open>Reading and writing entries\<close>

text \<open>Walking does not change what any page reads as, and the location it returns holds the
  entry of the page.\<close>

lemma pt_walk_lookup:
  assumes wf: "pt_wf t" and walk: "pt_walk t pgn = (loc, t')"
  shows "pt_lookup t' q = pt_lookup t q" and "read_entry t' loc = pt_lookup t pgn"
proof -
  note sp = pt_walk_spec [OF assms]
  have same: "pt_lookup t' q = pt_lookup t q" for q
  proof (cases "resolve t (pgn_path pgn)")
    case (Some r)
    with sp(5) show ?thesis by simp
  next
    case None
    note new = sp(4) [OF None]
    show ?thesis
    proof (cases "pgn_path q = pgn_path pgn")
      case True
      then show ?thesis using None new sp(2) by (simp add: pt_lookup_def nth_append pgn_index_less)
    next
      case False
      have ok: "sel_ok (resolve t) (length (pt_tbls t))" using wf by (simp add: pt_wf_def)
      have "resolve t' (pgn_path q) = resolve t (pgn_path q)" using False sp(2) by simp
      moreover have "pt_tbls t' ! r = pt_tbls t ! r" if "resolve t (pgn_path q) = Some r" for r
        using new sel_okD [OF ok that] by (simp add: nth_append)
      ultimately show ?thesis by (simp add: pt_lookup_def split: option.split)
    qed
  qed
  show "pt_lookup t' q = pt_lookup t q" by (rule same)
  have "pt_lookup t' pgn = read_entry t' loc"
    using sp(2,3) by (simp add: pt_lookup_def read_entry_def)
  then show "read_entry t' loc = pt_lookup t pgn" by (simp add: same)
qed

lemma write_entry_lookup:
  assumes wf: "pt_wf t" and walk: "pt_walk t pgn = (loc, t')"
  shows "pt_wf (write_entry t' loc v)"
    and "pt_lookup (write_entry t' loc v) q = (if same_entry q pgn then v else pt_lookup t q)"
proof -
  note sp = pt_walk_spec [OF assms]
  let ?w = "write_entry t' loc v"
  have ok: "sel_ok (resolve t') (length (pt_tbls t'))" "tables_ok (pt_tbls t')"
    using sp(1) by (simp_all add: pt_wf_def)
  have at: "resolve t' (pgn_path pgn) = Some (fst loc)" using sp(2) by simp
  have r: "fst loc < length (pt_tbls t')" using sel_okD [OF ok(1) at] .
  have len: "length (pt_tbls t' ! fst loc) = 512" using tables_okD [OF ok(2) r] .
  have res: "resolve ?w = resolve t'" by (simp add: resolve_def write_entry_def)
  have "tables_ok (pt_tbls ?w)" using ok(2) len by (simp add: write_entry_def tables_ok_update)
  moreover have "length (pt_tbls ?w) = length (pt_tbls t')" "pgd_tbl ?w = pgd_tbl t'"
    "p4d_tbls ?w = p4d_tbls t'" "pud_tbls ?w = pud_tbls t'" "pmd_tbls ?w = pmd_tbls t'"
    by (simp_all add: write_entry_def)
  ultimately show "pt_wf ?w" using sp(1) unfolding pt_wf_def res by (simp only: simp_thms)
  show "pt_lookup ?w q = (if same_entry q pgn then v else pt_lookup t q)"
  proof (cases "pgn_path q = pgn_path pgn")
    case True
    then have "resolve t' (pgn_path q) = Some (fst loc)" using at by simp
    moreover have "pt_tbls ?w ! fst loc ! pgn_index q =
        (if pgn_index q = pgn_index pgn then v else pt_tbls t' ! fst loc ! pgn_index q)"
      using r len sp(3) pgn_index_less [of q] by (simp add: write_entry_def nth_list_update)
    ultimately have "pt_lookup ?w q = (if pgn_index q = pgn_index pgn then v else pt_lookup t' q)"
      by (simp add: pt_lookup_def res)
    with True show ?thesis using pt_walk_lookup(1) [OF assms] by (simp add: same_entry_path)
  next
    case False
    have "pt_tbls ?w ! s = pt_tbls t' ! s" if "resolve t' (pgn_path q) = Some s" for s
    proof -
      have "s \<noteq> fst loc" using sel_ok_inj [OF ok(1) that, of "pgn_path pgn"] at False by auto
      then show ?thesis by (simp add: write_entry_def)
    qed
    then have "pt_lookup ?w q = pt_lookup t' q" by (simp add: pt_lookup_def res split: option.split)
    with False show ?thesis using pt_walk_lookup(1) [OF assms] by (simp add: same_entry_path)
  qed
qed

section \<open>The contract of a page table\<close>

text \<open>What \<open>pte_get_entry\<close>, \<open>pte_set_fpn\<close> and \<open>pte_set_swap\<close> do to the tables of one process.\<close>

definition tbl_get :: "pgtable \<Rightarrow> u64 \<Rightarrow> u64 \<times> pgtable" where
  "tbl_get t pgn = (let (loc, t) = pt_walk t pgn in (read_entry t loc, t))"

definition tbl_update :: "pgtable \<Rightarrow> u64 \<Rightarrow> (u64 \<Rightarrow> u64) \<Rightarrow> pgtable" where
  "tbl_update t pgn f = (let (loc, t) = pt_walk t pgn in write_entry t loc (f (read_entry t loc)))"

text \<open>A run of updates on consecutive pages, as the mapping loops do it.\<close>

fun update_run :: "('t \<Rightarrow> u64 \<Rightarrow> ('e \<Rightarrow> 'e) \<Rightarrow> 't) \<Rightarrow> 't \<Rightarrow> u64 \<Rightarrow> ('e \<Rightarrow> 'e) list \<Rightarrow> 't" where
  "update_run upd t p [] = t"
| "update_run upd t p (f # fs) = update_run upd (upd t p f) (p + 1) fs"

locale page_map =
  fixes inv :: "'t \<Rightarrow> bool"
    and look :: "'t \<Rightarrow> u64 \<Rightarrow> 'e"
    and same :: "u64 \<Rightarrow> u64 \<Rightarrow> bool"
    and get :: "'t \<Rightarrow> u64 \<Rightarrow> 'e \<times> 't"
    and update :: "'t \<Rightarrow> u64 \<Rightarrow> ('e \<Rightarrow> 'e) \<Rightarrow> 't"
  assumes inv_get: "inv t \<Longrightarrow> inv (snd (get t p))"
    and inv_update: "inv t \<Longrightarrow> inv (update t p f)"
    and get_value: "inv t \<Longrightarrow> fst (get t p) = look t p"
    and look_get: "inv t \<Longrightarrow> look (snd (get t p)) q = look t q"
    and look_update: "inv t \<Longrightarrow> look (update t p f) q = (if same q p then f (look t p) else look t q)"
    and same_small: "unat p < 2 ^ 45 \<Longrightarrow> unat q < 2 ^ 45 \<Longrightarrow> same p q \<longleftrightarrow> p = q"
begin

lemma inv_update_run: "inv t \<Longrightarrow> inv (update_run update t p fs)"
  by (induction fs arbitrary: t p) (auto intro: inv_update)

text \<open>A run changes exactly its own pages, each with its own function.\<close>

lemma look_update_run:
  assumes "inv t" and "unat p + length fs \<le> 2 ^ 45" and "unat q < 2 ^ 45"
  shows "look (update_run update t p fs) q =
    (if unat p \<le> unat q \<and> unat q < unat p + length fs
     then (fs ! (unat q - unat p)) (look t q) else look t q)"
  using assms
proof (induction fs arbitrary: t p)
  case Nil
  then show ?case by auto
next
  case (Cons f fs)
  have p1: "unat (p + 1) = Suc (unat p)" using Cons.prems(2) by (simp add: unat_word_ariths)
  have sm: "same q p \<longleftrightarrow> unat q = unat p"
    using same_small [of q p] Cons.prems by (simp add: word_unat_eq_iff)
  have IH: "look (update_run update t p (f # fs)) q =
    (if unat p < unat q \<and> unat q < Suc (unat p) + length fs
     then (fs ! (unat q - Suc (unat p))) (look (update t p f) q) else look (update t p f) q)"
    using Cons.IH [OF inv_update [OF Cons.prems(1)], of "p + 1"] Cons.prems by (simp add: p1 Suc_le_eq)
  show ?case
  proof (cases "unat q = unat p")
    case True
    then have "q = p" by (simp add: word_unat_eq_iff)
    then show ?thesis using IH sm look_update [OF Cons.prems(1), of p f q] by simp
  next
    case False
    then show ?thesis using IH sm look_update [OF Cons.prems(1), of p f q]
      by (auto simp: nth_Cons' less_diff_conv)
  qed
qed

end

lemma tbl_get_eq: "tbl_get t p = (read_entry (snd (pt_walk t p)) (fst (pt_walk t p)), snd (pt_walk t p))"
  by (simp add: tbl_get_def case_prod_unfold Let_def)

lemma tbl_update_eq: "tbl_update t p f = write_entry (snd (pt_walk t p)) (fst (pt_walk t p))
    (f (read_entry (snd (pt_walk t p)) (fst (pt_walk t p))))"
  by (simp add: tbl_update_def case_prod_unfold Let_def)

interpretation ptm: page_map pt_wf pt_lookup same_entry tbl_get tbl_update
proof unfold_locales
  fix t p q and f :: "u64 \<Rightarrow> u64"
  assume wf: "pt_wf t"
  have w: "pt_walk t p = (fst (pt_walk t p), snd (pt_walk t p))" by simp
  show "pt_wf (snd (tbl_get t p))" using pt_walk_spec(1) [OF wf w] by (simp add: tbl_get_eq)
  show "pt_wf (tbl_update t p f)" using write_entry_lookup(1) [OF wf w] by (simp add: tbl_update_eq)
  show "fst (tbl_get t p) = pt_lookup t p" using pt_walk_lookup(2) [OF wf w] by (simp add: tbl_get_eq)
  show "pt_lookup (snd (tbl_get t p)) q = pt_lookup t q"
    using pt_walk_lookup(1) [OF wf w] by (simp add: tbl_get_eq)
  show "pt_lookup (tbl_update t p f) q = (if same_entry q p then f (pt_lookup t p) else pt_lookup t q)"
    using write_entry_lookup(2) [OF wf w] pt_walk_lookup(2) [OF wf w] by (simp add: tbl_update_eq)
qed (rule same_entry_small)

section \<open>Properties\<close>

text \<open>C15: the five-level table implements a map from page numbers (modulo \<open>2^45\<close>) to
  entries.  \<open>get_pte\<close> allocates what is missing without changing what any page reads as and
  returns the location of the page's entry; writing through that location changes this
  page's entry and no other.\<close>

theorem pgtable_refines_map:
  assumes "pt_wf t" and "pt_walk t p = (loc, t')"
  shows "pt_wf t' \<and> read_entry t' loc = pt_lookup t p \<and> (\<forall>q. pt_lookup t' q = pt_lookup t q)
    \<and> pt_wf (write_entry t' loc v)
    \<and> (\<forall>q. pt_lookup (write_entry t' loc v) q =
          (if unat q mod 2 ^ 45 = unat p mod 2 ^ 45 then v else pt_lookup t q))"
proof -
  have "same_entry q p \<longleftrightarrow> unat q mod 2 ^ 45 = unat p mod 2 ^ 45" for q
    by (simp only: same_entry_def word_unat_eq_iff unat_take_bit)
  then show ?thesis
    using pt_walk_spec(1) [OF assms] pt_walk_lookup [OF assms] write_entry_lookup [OF assms]
    by simp
qed

theorem pgtable_refines_map_witness:
  "pt_lookup (write_entry (snd (pt_walk empty_pgtable 3)) (fst (pt_walk empty_pgtable 3)) 9) 3 = 9
   \<and> pt_lookup (write_entry (snd (pt_walk empty_pgtable 3)) (fst (pt_walk empty_pgtable 3)) 9) 4 = 0"
  using pgtable_refines_map [OF empty_pgtable_wf, of 3 "fst (pt_walk empty_pgtable 3)"
      "snd (pt_walk empty_pgtable 3)" 9]
  by (simp add: empty_pgtable_lookup)

text \<open>Lazy allocation: a page that was looked up once is found again at the same location
  without allocating, and the first lookup of a page allocates at most one table per level.\<close>

theorem pt_walk_lazy:
  assumes "pt_wf t" and "pt_walk t p = (loc, t')"
  shows "pt_walk t' p = (loc, t')
    \<and> length (p4d_tbls t') \<le> Suc (length (p4d_tbls t)) \<and> length (pud_tbls t') \<le> Suc (length (pud_tbls t))
    \<and> length (pmd_tbls t') \<le> Suc (length (pmd_tbls t)) \<and> length (pt_tbls t') \<le> Suc (length (pt_tbls t))"
proof -
  note sp = pt_walk_spec [OF assms]
  obtain loc2 t2 where w2: "pt_walk t' p = (loc2, t2)" by (cases "pt_walk t' p")
  note sp2 = pt_walk_spec [OF sp(1) w2]
  have "resolve t' (pgn_path p) = Some (fst loc)" using sp(2) by simp
  then have "t2 = t'" "loc2 = loc" using sp2(3,5) sp(3) by (auto simp: prod_eq_iff)
  moreover have "length (p4d_tbls t') \<le> Suc (length (p4d_tbls t)) \<and> length (pud_tbls t') \<le> Suc (length (pud_tbls t))
    \<and> length (pmd_tbls t') \<le> Suc (length (pmd_tbls t)) \<and> length (pt_tbls t') \<le> Suc (length (pt_tbls t))"
    using assms(2) by (auto simp: pt_walk_def dir_step_def Let_def split: prod.splits if_splits)
  ultimately show ?thesis using w2 by simp
qed

theorem pt_walk_lazy_witness:
  "pt_walk (snd (pt_walk empty_pgtable 7)) 7 = (fst (pt_walk empty_pgtable 7), snd (pt_walk empty_pgtable 7))"
  using pt_walk_lazy [OF empty_pgtable_wf, of 7 "fst (pt_walk empty_pgtable 7)" "snd (pt_walk empty_pgtable 7)"]
  by simp

end
