(* ===== verification/OS_Mm.thy ===== *)
theory OS_Mm
  imports OS_Pgtable
begin

text \<open>
  The memory manager of \<open>mm64.c\<close> and the virtual memory areas of \<open>mm-vm.c\<close>.  A \<open>caller\<close>
  record is what these functions reach through \<open>struct pcb_t *caller\<close>: its own \<open>mm_struct\<close>
  (\<open>NULL\<close> is \<open>None\<close>), the RAM device \<open>caller->krnl->mram\<close> and the active swap device
  \<open>caller->krnl->active_mswp\<close>.  Linked lists of areas, regions, pages and frames are lists.
  The fields \<open>vmaid\<close> of a region and \<open>vm_mm\<close> of an area are written but never read and are
  left out; \<open>rg_next\<close>, \<open>vm_next\<close>, \<open>pg_next\<close> are the list structure.  The pointer constants
  \<open>p4d\<close>, \<open>pud\<close>, \<open>pmd\<close>, \<open>pt\<close> of \<open>mm_struct\<close> are always \<open>NULL\<close> and unused.
\<close>

section \<open>State\<close>

record vm_rg =
  rg_start :: u64
  rg_end :: u64

record vma =
  vm_id :: u64
  vm_start :: u64
  vm_end :: u64
  sbrk :: u64
  vm_freerg_list :: "vm_rg list"

record mm =
  pgd :: pgtable
  mmap :: "vma list"
  symrgtbl :: "vm_rg list"
  fifo_pgn :: "u64 list"

definition PAGING_MAX_SYMTBL_SZ :: nat where
  "PAGING_MAX_SYMTBL_SZ = 30"

record caller =
  own_mm :: "mm option"
  mram :: memphy
  active_mswp :: memphy

section \<open>Page-table entries of a caller\<close>

text \<open>\<open>get_pte\<close> returns \<open>NULL\<close> for a process without \<open>mm_struct\<close>.\<close>

definition get_pte :: "caller \<Rightarrow> u64 \<Rightarrow> (nat \<times> nat) option \<times> caller" where
  "get_pte c pgn =
     (case own_mm c of
        None \<Rightarrow> (None, c)
      | Some mm \<Rightarrow>
          let (loc, t) = pt_walk (pgd mm) pgn in (Some loc, c\<lparr>own_mm := Some (mm\<lparr>pgd := t\<rparr>)\<rparr>))"

text \<open>\<open>*pte\<close> and assignment through \<open>pte\<close>, for a location of the caller's own tables.\<close>

definition load_pte :: "caller \<Rightarrow> nat \<times> nat \<Rightarrow> fault + u64" where
  "load_pte c loc = bindR (deref (own_mm c)) (\<lambda>mm. Inr (read_entry (pgd mm) loc))"

definition store_pte :: "caller \<Rightarrow> nat \<times> nat \<Rightarrow> u64 \<Rightarrow> fault + caller" where
  "store_pte c loc v =
     bindR (deref (own_mm c)) (\<lambda>mm. Inr (c\<lparr>own_mm := Some (mm\<lparr>pgd := write_entry (pgd mm) loc v\<rparr>)\<rparr>))"

definition pte_set_swap :: "caller \<Rightarrow> u64 \<Rightarrow> i32 \<Rightarrow> u64 \<Rightarrow> fault + int \<times> caller" where
  "pte_set_swap c pgn swptyp swpoff =
     (let (pte, c) = get_pte c pgn
      in case pte of
           None \<Rightarrow> Inr (-1, c)
         | Some loc \<Rightarrow>
             bindR (load_pte c loc) (\<lambda>v.
             bindR (store_pte c loc (mark_swap v swptyp swpoff)) (\<lambda>c. Inr (0, c))))"

definition pte_set_fpn :: "caller \<Rightarrow> u64 \<Rightarrow> u64 \<Rightarrow> fault + int \<times> caller" where
  "pte_set_fpn c pgn fpn =
     (let (pte, c) = get_pte c pgn
      in case pte of
           None \<Rightarrow> Inr (-1, c)
         | Some loc \<Rightarrow>
             bindR (load_pte c loc) (\<lambda>v.
             bindR (store_pte c loc (mark_fpn v fpn)) (\<lambda>c. Inr (0, c))))"

text \<open>The entry is read as \<open>uint32_t\<close>.\<close>

definition pte_get_entry :: "caller \<Rightarrow> u64 \<Rightarrow> fault + u32 \<times> caller" where
  "pte_get_entry c pgn =
     (let (pte, c) = get_pte c pgn
      in bindR (deref pte) (\<lambda>loc.
         bindR (load_pte c loc) (\<lambda>v. Inr (ucast v, c))))"

definition pte_set_entry :: "caller \<Rightarrow> u64 \<Rightarrow> u32 \<Rightarrow> fault + int \<times> caller" where
  "pte_set_entry c pgn pte_val =
     (let (pte, c) = get_pte c pgn
      in bindR (deref pte) (\<lambda>loc.
         bindR (store_pte c loc (ucast pte_val)) (\<lambda>c. Inr (0, c))))"

section \<open>Mapping\<close>

text \<open>\<open>for (i = 0; i < pgnum; i++)\<close> as a recursion on the remaining iterations.\<close>

fun memset_loop :: "nat \<Rightarrow> nat \<Rightarrow> caller \<Rightarrow> u64 \<Rightarrow> fault + caller" where
  "memset_loop 0 i c pgn = Inr c"
| "memset_loop (Suc k) i c pgn =
     (let (pte, c) = get_pte c (pgn + of_nat i)
      in bindR (deref pte) (\<lambda>loc.
         bindR (store_pte c loc 0) (\<lambda>c. memset_loop k (Suc i) c pgn)))"

definition vmap_pgd_memset :: "caller \<Rightarrow> u64 \<Rightarrow> i32 \<Rightarrow> fault + int \<times> caller" where
  "vmap_pgd_memset c addr pgnum =
     bindR (memset_loop (nat (sint pgnum)) 0 c (addr div of_nat PAGING_PAGESZ)) (\<lambda>c. Inr (0, c))"

definition init_vm_rg :: "u64 \<Rightarrow> u64 \<Rightarrow> vm_rg" where
  "init_vm_rg s e = \<lparr>rg_start = s, rg_end = e\<rparr>"

definition enlist_vm_rg_node :: "vm_rg list \<Rightarrow> vm_rg \<Rightarrow> vm_rg list" where
  "enlist_vm_rg_node rglist rgnode = rgnode # rglist"

definition enlist_pgn_node :: "u64 list \<Rightarrow> u64 \<Rightarrow> u64 list" where
  "enlist_pgn_node plist pgn = pgn # plist"

fun vmap_loop :: "nat \<Rightarrow> nat \<Rightarrow> caller \<Rightarrow> u64 \<Rightarrow> u64 list \<Rightarrow> fault + int \<times> caller" where
  "vmap_loop 0 i c addr fpit = Inr (0, c)"
| "vmap_loop (Suc k) i c addr fpit =
     (case fpit of
        [] \<Rightarrow> Inr (-1, c)
      | f # fs \<Rightarrow>
          let pgn = addr div of_nat PAGING_PAGESZ + of_nat i
          in bindR (pte_set_fpn c pgn f) (\<lambda>(_, c).
             bindR (deref (own_mm c)) (\<lambda>mm.
             vmap_loop k (Suc i) (c\<lparr>own_mm := Some (mm\<lparr>fifo_pgn := enlist_pgn_node (fifo_pgn mm) pgn\<rparr>)\<rparr>)
               addr fs)))"

definition vmap_page_range ::
  "caller \<Rightarrow> u64 \<Rightarrow> i32 \<Rightarrow> u64 list \<Rightarrow> vm_rg \<Rightarrow> fault + u64 \<times> vm_rg \<times> caller" where
  "vmap_page_range c addr pgnum frames ret_rg =
     (let ret_rg = ret_rg\<lparr>rg_start := addr, rg_end := addr + scast (pgnum * of_nat PAGING_PAGESZ)\<rparr>
      in bindR (vmap_loop (nat (sint pgnum)) 0 c addr frames) (\<lambda>(r, c).
         Inr (of_int r, ret_rg, c)))"

definition alloc_pages_range :: "caller \<Rightarrow> i32 \<Rightarrow> fault + u64 \<times> u64 list \<times> caller" where
  "alloc_pages_range c req_pgnum =
     bindR (take_frames MEMPHY_get_freefp (nat (sint req_pgnum)) (mram c)) (\<lambda>(ok, fs, ram).
     Inr (if ok then 0 else - 3000, fs, c\<lparr>mram := ram\<rparr>))"

text \<open>The first test compares an unsigned value with 0 and is never true; it is kept as it is.\<close>

definition vm_map_ram ::
  "caller \<Rightarrow> u64 \<Rightarrow> u64 \<Rightarrow> u64 \<Rightarrow> i32 \<Rightarrow> vm_rg \<Rightarrow> fault + u64 \<times> vm_rg \<times> caller" where
  "vm_map_ram c astart aend mapstart incpgnum ret_rg =
     bindR (alloc_pages_range c incpgnum) (\<lambda>(ret_alloc, frm_lst, c).
       if ret_alloc < 0 \<and> ret_alloc \<noteq> - 3000 then Inr (- 1, ret_rg, c)
       else if ret_alloc = - 3000 then Inr (- 1, ret_rg, c)
       else bindR (vmap_page_range c mapstart incpgnum frm_lst ret_rg) (\<lambda>(_, ret_rg, c).
            Inr (0, ret_rg, c)))"

section \<open>Copying a page between devices\<close>

text \<open>The byte variable of the loop body has no initial value, so a failing read would store
  an indeterminate byte.\<close>

fun swap_cp_loop :: "nat \<Rightarrow> nat \<Rightarrow> memphy \<Rightarrow> u64 \<Rightarrow> memphy \<Rightarrow> u64 \<Rightarrow> fault + memphy \<times> memphy" where
  "swap_cp_loop 0 cellidx mpsrc srcfpn mpdst dstfpn = Inr (mpsrc, mpdst)"
| "swap_cp_loop (Suc k) cellidx mpsrc srcfpn mpdst dstfpn =
     (let addrsrc = srcfpn * of_nat PAGING_PAGESZ + of_nat cellidx;
          addrdst = dstfpn * of_nat PAGING_PAGESZ + of_nat cellidx
      in bindR (MEMPHY_read mpsrc addrsrc 0) (\<lambda>(r, data, mpsrc).
         if r \<noteq> 0 then Inl Uninit
         else bindR (MEMPHY_write mpdst addrdst data) (\<lambda>(_, mpdst).
              swap_cp_loop k (Suc cellidx) mpsrc srcfpn mpdst dstfpn)))"

definition swap_cp_page :: "memphy \<Rightarrow> u64 \<Rightarrow> memphy \<Rightarrow> u64 \<Rightarrow> fault + memphy \<times> memphy" where
  "swap_cp_page mpsrc srcfpn mpdst dstfpn = swap_cp_loop PAGING_PAGESZ 0 mpsrc srcfpn mpdst dstfpn"

definition mm_swap_page :: "caller \<Rightarrow> u64 \<Rightarrow> u64 \<Rightarrow> fault + int \<times> caller" where
  "mm_swap_page c vicfpn swpfpn =
     bindR (swap_cp_page (mram c) vicfpn (active_mswp c) swpfpn) (\<lambda>(ram, swp).
     Inr (0, c\<lparr>mram := ram, active_mswp := swp\<rparr>))"

section \<open>A new mm_struct\<close>

text \<open>\<open>init_mm\<close> on the memory that \<open>malloc\<close> returned: the symbol table is not written and
  keeps whatever it held.\<close>

definition init_mm :: "mm \<Rightarrow> mm" where
  "init_mm mm =
     (let vma0 = \<lparr>vm_id = 0, vm_start = 0, vm_end = 0, sbrk = 0, vm_freerg_list = []\<rparr>;
          mm = mm\<lparr>pgd := empty_pgtable\<rparr>;
          first_rg = init_vm_rg 0 0;
          vma0 = vma0\<lparr>vm_freerg_list := enlist_vm_rg_node (vm_freerg_list vma0) first_rg\<rparr>
      in mm\<lparr>mmap := [vma0], fifo_pgn := []\<rparr>)"

section \<open>Virtual memory areas\<close>

text \<open>The area list is searched by increasing id; the result is its position.  \<open>vm_id\<close> is
  \<open>unsigned long\<close>, so the \<open>int\<close> id is sign-extended and compared as unsigned.\<close>

fun find_vma :: "nat \<Rightarrow> vma list \<Rightarrow> u64 \<Rightarrow> nat option" where
  "find_vma k [] vmaid = None"
| "find_vma k (a # as) vmaid =
     (if vm_id a < vmaid then find_vma (Suc k) as vmaid
      else if vm_id a = vmaid then Some k else None)"

definition get_vma_by_num :: "mm option \<Rightarrow> i32 \<Rightarrow> nat option" where
  "get_vma_by_num mm vmaid =
     (case mm of None \<Rightarrow> None | Some mm \<Rightarrow> find_vma 0 (mmap mm) (scast vmaid))"

definition get_vm_area_node_at_brk :: "caller \<Rightarrow> i32 \<Rightarrow> u64 \<Rightarrow> u64 \<Rightarrow> vm_rg option" where
  "get_vm_area_node_at_brk c vmaid sz alignedsz =
     (case own_mm c of
        None \<Rightarrow> None
      | Some mm \<Rightarrow>
          (case get_vma_by_num (own_mm c) vmaid of
             None \<Rightarrow> None
           | Some k \<Rightarrow> Some \<lparr>rg_start = sbrk (mmap mm ! k), rg_end = sbrk (mmap mm ! k) + sz\<rparr>))"

text \<open>The macros \<open>INCLUDE\<close> and \<open>OVERLAP\<close> of \<open>mm.h\<close> are the constant 0.\<close>

definition OVERLAP :: "u64 \<Rightarrow> u64 \<Rightarrow> u64 \<Rightarrow> u64 \<Rightarrow> bool" where
  "OVERLAP x1 x2 y1 y2 = False"

definition validate_overlap_vm_area :: "caller \<Rightarrow> i32 \<Rightarrow> u64 \<Rightarrow> u64 \<Rightarrow> int" where
  "validate_overlap_vm_area c vmaid vmastart vmaend =
     (case own_mm c of
        None \<Rightarrow> -1
      | Some mm \<Rightarrow>
          if vmaend \<le> vmastart then -1
          else if mmap mm = [] then -1
          else (case get_vma_by_num (own_mm c) vmaid of
                  None \<Rightarrow> -1
                | Some k \<Rightarrow>
                    if list_ex (\<lambda>j. j \<noteq> k \<and> OVERLAP (vm_start (mmap mm ! k)) (vm_end (mmap mm ! k))
                                  (vm_start (mmap mm ! j)) (vm_end (mmap mm ! j))) [0..<length (mmap mm)]
                    then -1 else 0))"

text \<open>The result of \<open>vm_map_ram\<close> is unsigned, so the test for failure never succeeds; it is
  kept as it is.\<close>

definition inc_vma_limit :: "caller \<Rightarrow> i32 \<Rightarrow> u64 \<Rightarrow> fault + int \<times> caller" where
  "inc_vma_limit c vmaid inc_sz =
     (if own_mm c = None then Inr (-1, c)
      else let inc_amt = PAGING_PAGE_ALIGNSZ inc_sz;
               incnumpage = (ucast (inc_amt div of_nat PAGING_PAGESZ) :: i32)
           in case (get_vm_area_node_at_brk c vmaid inc_sz inc_amt, get_vma_by_num (own_mm c) vmaid) of
                (Some area, Some k) \<Rightarrow>
                  if validate_overlap_vm_area c vmaid (rg_start area) (rg_end area) < 0 then Inr (-1, c)
                  else bindR (vm_map_ram c (rg_start area) (rg_end area) (rg_start area) incnumpage area)
                         (\<lambda>(r, area, c).
                       if r < 0 then Inr (-1, c)
                       else bindR (deref (own_mm c)) (\<lambda>mm.
                            Inr (0, c\<lparr>own_mm := Some (mm\<lparr>mmap := (mmap mm)
                              [k := (mmap mm ! k)\<lparr>vm_end := rg_end area, sbrk := rg_end area\<rparr>]\<rparr>)\<rparr>)))
              | _ \<Rightarrow> Inr (-1, c))"

section \<open>Page-table operations as map updates\<close>

text \<open>The entry of a page, and the invariant of an \<open>mm_struct\<close>: well-formed tables, 30 symbols
  and the single heap area with id 0 that \<open>init_mm\<close> creates.\<close>

definition pte_of :: "mm \<Rightarrow> u64 \<Rightarrow> u64" where
  "pte_of mm pgn = pt_lookup (pgd mm) pgn"

definition mm_ok :: "mm \<Rightarrow> bool" where
  "mm_ok mm \<longleftrightarrow> pt_wf (pgd mm) \<and> length (symrgtbl mm) = PAGING_MAX_SYMTBL_SZ
     \<and> (\<exists>v. mmap mm = [v] \<and> vm_id v = 0)"

definition set_pte :: "mm \<Rightarrow> u64 \<Rightarrow> (u64 \<Rightarrow> u64) \<Rightarrow> mm" where
  "set_pte mm pgn f = mm\<lparr>pgd := tbl_update (pgd mm) pgn f\<rparr>"

lemma set_pte_simps [simp]:
  "mmap (set_pte mm p f) = mmap mm" "symrgtbl (set_pte mm p f) = symrgtbl mm"
  "fifo_pgn (set_pte mm p f) = fifo_pgn mm" "pgd (set_pte mm p f) = tbl_update (pgd mm) p f"
  by (simp_all add: set_pte_def)

lemma mm_ok_set_pte: "mm_ok mm \<Longrightarrow> mm_ok (set_pte mm p f)"
  by (simp add: mm_ok_def ptm.inv_update)

lemma pte_of_set_pte:
  "mm_ok mm \<Longrightarrow> pte_of (set_pte mm p f) q = (if same_entry q p then f (pte_of mm p) else pte_of mm q)"
  by (simp add: mm_ok_def pte_of_def ptm.look_update)

lemma pte_set_fpn_eq:
  "own_mm c = Some mm \<Longrightarrow>
   pte_set_fpn c p f = Inr (0, c\<lparr>own_mm := Some (set_pte mm p (\<lambda>v. mark_fpn v f))\<rparr>)"
  by (simp add: pte_set_fpn_def get_pte_def load_pte_def store_pte_def set_pte_def tbl_update_def
      case_prod_unfold Let_def)

lemma pte_set_swap_eq:
  "own_mm c = Some mm \<Longrightarrow>
   pte_set_swap c p typ off = Inr (0, c\<lparr>own_mm := Some (set_pte mm p (\<lambda>v. mark_swap v typ off))\<rparr>)"
  by (simp add: pte_set_swap_def get_pte_def load_pte_def store_pte_def set_pte_def tbl_update_def
      case_prod_unfold Let_def)

lemma pte_get_entry_eq:
  "own_mm c = Some mm \<Longrightarrow> mm_ok mm \<Longrightarrow>
   pte_get_entry c p = Inr (ucast (pte_of mm p),
     c\<lparr>own_mm := Some (mm\<lparr>pgd := snd (tbl_get (pgd mm) p)\<rparr>)\<rparr>)"
  using ptm.get_value [of "pgd mm" p]
  by (simp add: pte_get_entry_def get_pte_def load_pte_def tbl_get_def pte_of_def mm_ok_def
      case_prod_unfold Let_def)

lemma pte_of_get [simp]: "mm_ok mm \<Longrightarrow> pte_of (mm\<lparr>pgd := snd (tbl_get (pgd mm) p)\<rparr>) q = pte_of mm q"
  by (simp add: pte_of_def mm_ok_def ptm.look_get)

lemma mm_ok_get [simp]: "mm_ok mm \<Longrightarrow> mm_ok (mm\<lparr>pgd := snd (tbl_get (pgd mm) p)\<rparr>)"
  by (simp add: mm_ok_def ptm.inv_get)

lemma mm_ok_init: "length (symrgtbl mm) = PAGING_MAX_SYMTBL_SZ \<Longrightarrow> mm_ok (init_mm mm)"
  by (simp add: mm_ok_def init_mm_def Let_def empty_pgtable_wf)

section \<open>Mapping a run of pages\<close>

abbreviation run_pages :: "u64 \<Rightarrow> nat \<Rightarrow> u64 list" where
  "run_pages p n \<equiv> map (\<lambda>i. p + of_nat i) [0..<n]"

definition map_run :: "mm \<Rightarrow> u64 \<Rightarrow> u64 list \<Rightarrow> mm" where
  "map_run mm p fs = mm\<lparr>pgd := update_run tbl_update (pgd mm) p (map (\<lambda>f v. mark_fpn v f) fs),
     fifo_pgn := rev (run_pages p (length fs)) @ fifo_pgn mm\<rparr>"

lemma run_pages_Suc: "run_pages p (Suc n) = p # run_pages (p + 1) n"
proof -
  have "[0..<Suc n] = 0 # map Suc [0..<n]" by (simp only: map_Suc_upt upt_conv_Cons zero_less_Suc)
  then show ?thesis by (simp add: o_def add.assoc del: upt_Suc)
qed

lemma vmap_loop_eq:
  assumes "own_mm c = Some mm" and "k \<le> length fs"
  shows "vmap_loop k i c addr fs =
    Inr (0, c\<lparr>own_mm := Some (map_run mm (addr div of_nat PAGING_PAGESZ + of_nat i) (take k fs))\<rparr>)"
  using assms
proof (induction k arbitrary: i c mm fs)
  case 0
  then show ?case by (cases c) (simp add: map_run_def)
next
  case (Suc k)
  let ?p = "addr div of_nat PAGING_PAGESZ + of_nat i"
  obtain f fs' where fs: "fs = f # fs'" using Suc.prems(2) by (cases fs) auto
  let ?mm1 = "(set_pte mm ?p (\<lambda>v. mark_fpn v f))\<lparr>fifo_pgn := ?p # fifo_pgn mm\<rparr>"
  have "vmap_loop (Suc k) i c addr fs = vmap_loop k (Suc i) (c\<lparr>own_mm := Some ?mm1\<rparr>) addr fs'"
    using Suc.prems(1) by (simp add: fs pte_set_fpn_eq enlist_pgn_node_def Let_def)
  also have "\<dots> = Inr (0, c\<lparr>own_mm := Some (map_run ?mm1 (?p + 1) (take k fs'))\<rparr>)"
    using Suc.IH [of "c\<lparr>own_mm := Some ?mm1\<rparr>" ?mm1 fs' "Suc i"] Suc.prems(2)
    by (simp add: fs ac_simps)
  also have "map_run ?mm1 (?p + 1) (take k fs') = map_run mm ?p (take (Suc k) fs)"
    using Suc.prems(2) by (simp add: map_run_def fs set_pte_def run_pages_Suc min_absorb2 del: upt_Suc)
  finally show ?case .
qed

lemma mm_ok_map_run: "mm_ok mm \<Longrightarrow> mm_ok (map_run mm p fs)"
  by (simp add: mm_ok_def map_run_def ptm.inv_update_run)

lemma pte_of_map_run:
  assumes "mm_ok mm" and "unat p + length fs \<le> 2 ^ 45" and "unat q < 2 ^ 45"
  shows "pte_of (map_run mm p fs) q =
    (if unat p \<le> unat q \<and> unat q < unat p + length fs
     then mark_fpn (pte_of mm q) (fs ! (unat q - unat p)) else pte_of mm q)"
  using assms ptm.look_update_run [of "pgd mm" p "map (\<lambda>f v. mark_fpn v f) fs" q]
  by (simp add: pte_of_def map_run_def mm_ok_def less_diff_conv2)

lemma map_run_simps [simp]:
  "mmap (map_run mm p fs) = mmap mm" "symrgtbl (map_run mm p fs) = symrgtbl mm"
  "fifo_pgn (map_run mm p fs) = rev (run_pages p (length fs)) @ fifo_pgn mm"
  by (simp_all add: map_run_def)

section \<open>Growing the heap area\<close>

lemma find_heap:
  "mm_ok mm \<Longrightarrow> get_vma_by_num (Some mm) 0 = Some 0"
  by (auto simp: mm_ok_def get_vma_by_num_def)

definition heap :: "mm \<Rightarrow> vma" where
  "heap mm = mmap mm ! 0"

lemma mmap_heap: "mm_ok mm \<Longrightarrow> mmap mm = [heap mm]"
  by (auto simp: mm_ok_def heap_def)

lemma vm_map_ram_enough:
  assumes c: "own_mm c = Some mm" and pool: "pool_ok (mram c)"
    and n: "nat (sint pgnum) \<le> length (free_frames (mram c))"
  shows "\<exists>ram. vm_map_ram c s e at pgnum rg = Inr (0,
      rg\<lparr>rg_start := at, rg_end := at + scast (pgnum * of_nat PAGING_PAGESZ)\<rparr>,
      c\<lparr>mram := ram, own_mm := Some (map_run mm (at div of_nat PAGING_PAGESZ)
           (take (nat (sint pgnum)) (free_frames (mram c))))\<rparr>)
    \<and> pool_ok ram \<and> free_frames ram = drop (nat (sint pgnum)) (free_frames (mram c))
    \<and> device_core ram = device_core (mram c)"
proof -
  obtain ram where ram: "take_frames MEMPHY_get_freefp (nat (sint pgnum)) (mram c)
      = Inr (True, take (nat (sint pgnum)) (free_frames (mram c)), ram)"
    "pool_ok ram" "free_frames ram = drop (nat (sint pgnum)) (free_frames (mram c))"
    "device_core ram = device_core (mram c)"
    using fpool.take_frames_enough [OF pool n] by blast
  have "vmap_loop (nat (sint pgnum)) 0 (c\<lparr>mram := ram\<rparr>) at
      (take (nat (sint pgnum)) (free_frames (mram c))) = Inr (0, c\<lparr>mram := ram, own_mm :=
        Some (map_run mm (at div of_nat PAGING_PAGESZ) (take (nat (sint pgnum)) (free_frames (mram c))))\<rparr>)"
    using vmap_loop_eq [of "c\<lparr>mram := ram\<rparr>" mm "nat (sint pgnum)"] c n by simp
  then show ?thesis using ram(2-4)
    by (intro exI [of _ ram]) (simp add: vm_map_ram_def alloc_pages_range_def vmap_page_range_def Let_def ram(1))
qed

lemma vm_map_ram_short:
  assumes pool: "pool_ok (mram c)" and n: "length (free_frames (mram c)) < nat (sint pgnum)"
  shows "\<exists>ram. vm_map_ram c s e at pgnum rg = Inr (- 1, rg, c\<lparr>mram := ram\<rparr>)
    \<and> pool_ok ram \<and> free_frames ram = [] \<and> device_core ram = device_core (mram c)"
  using fpool.take_frames_short [OF pool n]
  by (auto simp: vm_map_ram_def alloc_pages_range_def)

text \<open>The number of whole pages that cover a size.\<close>

definition pages :: "u64 \<Rightarrow> nat" where
  "pages sz = (unat sz + 255) div 256"

definition grow :: "mm \<Rightarrow> u64 list \<Rightarrow> mm" where
  "grow mm fs = (map_run mm (sbrk (heap mm) div 256) fs)
     \<lparr>mmap := [(heap mm)\<lparr>vm_end := sbrk (heap mm) + of_nat (256 * length fs),
                       sbrk := sbrk (heap mm) + of_nat (256 * length fs)\<rparr>]\<rparr>"

definition heap_end :: "mm \<Rightarrow> u64 \<Rightarrow> mm" where
  "heap_end mm e = mm\<lparr>mmap := [(heap mm)\<lparr>vm_end := e, sbrk := e\<rparr>]\<rparr>"

lemma grow_eq: "grow mm fs = heap_end (map_run mm (sbrk (heap mm) div 256) fs) (sbrk (heap mm) + of_nat (256 * length fs))"
  by (simp add: grow_def heap_end_def heap_def)

lemma node_at_brk:
  "own_mm c = Some mm \<Longrightarrow> mm_ok mm \<Longrightarrow> get_vm_area_node_at_brk c 0 sz al =
     Some \<lparr>rg_start = sbrk (heap mm), rg_end = sbrk (heap mm) + sz\<rparr>"
  by (simp add: get_vm_area_node_at_brk_def find_heap heap_def)

lemma validate_overlap_heap:
  "own_mm c = Some mm \<Longrightarrow> mm_ok mm \<Longrightarrow>
   validate_overlap_vm_area c 0 s e = (if e \<le> s then -1 else 0)"
  by (simp add: validate_overlap_vm_area_def find_heap mmap_heap OVERLAP_def list_ex_iff)

lemma scast_of_nat_small: "m < 2 ^ 31 \<Longrightarrow> scast (of_nat m :: i32) = (of_nat m :: u64)"
proof -
  assume m: "m < 2 ^ 31"
  have "sint (of_nat m :: i32) = signed_take_bit 31 (int m)"
    using m by (simp add: sint_uint unsigned_of_nat take_bit_nat_eq_self)
  also have "\<dots> = int m" using m by (simp add: signed_take_bit_int_eq_self_iff)
  finally have "sint (of_nat m :: i32) = int m" .
  then show ?thesis by (metis of_int_of_nat_eq of_int_sint scast_eq)
qed

definition page_count :: "u64 \<Rightarrow> i32" where
  "page_count sz = ucast (PAGING_PAGE_ALIGNSZ sz div of_nat PAGING_PAGESZ)"

lemma page_count:
  assumes "unat sz < 2 ^ 31 - 256"
  shows "nat (sint (page_count sz)) = pages sz"
    and "scast (page_count sz * of_nat PAGING_PAGESZ) = (of_nat (256 * pages sz) :: u64)"
proof -
  let ?n = "PAGING_PAGE_ALIGNSZ sz div 256"
  have un: "unat ?n = pages sz" using assms by (simp add: unat_ALIGNSZ pages_def)
  have lt: "pages sz < 2 ^ 23" "256 * pages sz < 2 ^ 31" using assms by (simp_all add: pages_def)
  show "nat (sint (page_count sz)) = pages sz"
    using sint_ucast_small [of ?n] un lt by (simp add: page_count_def PAGING_PAGESZ_def uint_nat)
  have "page_count sz = of_nat (unat ?n)" by (simp add: page_count_def PAGING_PAGESZ_def)
  then have "page_count sz * of_nat PAGING_PAGESZ = of_nat (256 * pages sz)"
    by (simp add: un PAGING_PAGESZ_def mult.commute)
  then show "scast (page_count sz * of_nat PAGING_PAGESZ) = (of_nat (256 * pages sz) :: u64)"
    using scast_of_nat_small lt(2) by metis
qed

lemma inc_vma_limit_enough:
  assumes c: "own_mm c = Some mm" and ok: "mm_ok mm" and pool: "pool_ok (mram c)"
    and sz: "0 < unat sz" "unat sz < 2 ^ 31 - 256" and brk: "unat (sbrk (heap mm)) + unat sz < 2 ^ 64"
    and n: "pages sz \<le> length (free_frames (mram c))"
  shows "\<exists>ram. inc_vma_limit c 0 sz =
      Inr (0, c\<lparr>mram := ram, own_mm := Some (grow mm (take (pages sz) (free_frames (mram c))))\<rparr>)
    \<and> pool_ok ram \<and> free_frames ram = drop (pages sz) (free_frames (mram c))
    \<and> device_core ram = device_core (mram c)"
proof -
  let ?pn = "page_count sz"
  have "\<not> sbrk (heap mm) + sz \<le> sbrk (heap mm)"
    using sz brk by (simp add: word_le_nat_alt unat_word_ariths)
  then have v: "validate_overlap_vm_area c 0 (sbrk (heap mm)) (sbrk (heap mm) + sz) = 0"
    by (simp add: validate_overlap_heap [OF c ok])
  obtain ram where m: "vm_map_ram c (sbrk (heap mm)) (sbrk (heap mm) + sz) (sbrk (heap mm)) ?pn
        \<lparr>rg_start = sbrk (heap mm), rg_end = sbrk (heap mm) + sz\<rparr> = Inr (0,
      \<lparr>rg_start = sbrk (heap mm), rg_end = sbrk (heap mm) + of_nat (256 * pages sz)\<rparr>,
      c\<lparr>mram := ram, own_mm := Some (map_run mm (sbrk (heap mm) div 256)
           (take (pages sz) (free_frames (mram c))))\<rparr>)"
    and ram: "pool_ok ram" "free_frames ram = drop (pages sz) (free_frames (mram c))"
      "device_core ram = device_core (mram c)"
    using vm_map_ram_enough [OF c pool, of ?pn "sbrk (heap mm)" "sbrk (heap mm) + sz" "sbrk (heap mm)"
        "\<lparr>rg_start = sbrk (heap mm), rg_end = sbrk (heap mm) + sz\<rparr>"] n
    unfolding page_count [OF sz(2)] by (auto simp: PAGING_PAGESZ_def)
  show ?thesis using ram n
    by (intro exI [of _ ram])
       (simp add: inc_vma_limit_def page_count_def [symmetric] c node_at_brk [OF c ok] find_heap [OF ok] v m Let_def
         mmap_heap [OF ok] grow_def)
qed

lemma inc_vma_limit_short:
  assumes c: "own_mm c = Some mm" and ok: "mm_ok mm" and pool: "pool_ok (mram c)"
    and sz: "0 < unat sz" "unat sz < 2 ^ 31 - 256" and brk: "unat (sbrk (heap mm)) + unat sz < 2 ^ 64"
    and n: "length (free_frames (mram c)) < pages sz"
  shows "\<exists>ram. inc_vma_limit c 0 sz =
      Inr (0, c\<lparr>mram := ram, own_mm := Some (heap_end mm (sbrk (heap mm) + sz))\<rparr>)
    \<and> pool_ok ram \<and> free_frames ram = [] \<and> device_core ram = device_core (mram c)"
proof -
  let ?rg = "\<lparr>rg_start = sbrk (heap mm), rg_end = sbrk (heap mm) + sz\<rparr>"
  have "\<not> sbrk (heap mm) + sz \<le> sbrk (heap mm)"
    using sz brk by (simp add: word_le_nat_alt unat_word_ariths)
  then have v: "validate_overlap_vm_area c 0 (sbrk (heap mm)) (sbrk (heap mm) + sz) = 0"
    by (simp add: validate_overlap_heap [OF c ok])
  obtain ram where m: "vm_map_ram c (sbrk (heap mm)) (sbrk (heap mm) + sz) (sbrk (heap mm)) (page_count sz) ?rg
      = Inr (- 1, ?rg, c\<lparr>mram := ram\<rparr>)"
    and ram: "pool_ok ram" "free_frames ram = []" "device_core ram = device_core (mram c)"
    using vm_map_ram_short [where c = c and pgnum = "page_count sz", OF pool] n
    unfolding page_count [OF sz(2)] by blast
  show ?thesis using ram
    by (intro exI [of _ ram])
       (simp add: inc_vma_limit_def page_count_def [symmetric] c node_at_brk [OF c ok] find_heap [OF ok] v m Let_def
         mmap_heap [OF ok] heap_end_def)
qed

lemma mm_ok_heap_end: "mm_ok mm \<Longrightarrow> mm_ok (heap_end mm e)"
  by (auto simp: mm_ok_def heap_end_def heap_def)

lemma heap_end_simps [simp]:
  "heap (heap_end mm e) = (heap mm)\<lparr>vm_end := e, sbrk := e\<rparr>" "pgd (heap_end mm e) = pgd mm"
  "symrgtbl (heap_end mm e) = symrgtbl mm" "fifo_pgn (heap_end mm e) = fifo_pgn mm"
  "pte_of (heap_end mm e) q = pte_of mm q"
  by (simp_all add: heap_end_def heap_def pte_of_def)

lemma heap_map_run [simp]: "heap (map_run mm p fs) = heap mm"
  by (simp add: heap_def)

lemma mm_ok_grow: "mm_ok mm \<Longrightarrow> mm_ok (grow mm fs)"
  by (simp add: grow_eq mm_ok_heap_end mm_ok_map_run)

lemma grow_simps [simp]:
  "heap (grow mm fs) = (heap mm)\<lparr>vm_end := sbrk (heap mm) + of_nat (256 * length fs),
                          sbrk := sbrk (heap mm) + of_nat (256 * length fs)\<rparr>"
  "symrgtbl (grow mm fs) = symrgtbl mm"
  "fifo_pgn (grow mm fs) = rev (run_pages (sbrk (heap mm) div 256) (length fs)) @ fifo_pgn mm"
  by (simp_all add: grow_eq)

lemma pte_of_grow:
  assumes "mm_ok mm" and "unat (sbrk (heap mm)) div 256 + length fs \<le> 2 ^ 45" and "unat q < 2 ^ 45"
  shows "pte_of (grow mm fs) q =
    (let b = unat (sbrk (heap mm)) div 256
     in if b \<le> unat q \<and> unat q < b + length fs then mark_fpn (pte_of mm q) (fs ! (unat q - b))
        else pte_of mm q)"
  using pte_of_map_run [OF assms(1), of "sbrk (heap mm) div 256" fs q] assms(2,3)
  by (simp add: grow_eq unat_div Let_def)

section \<open>Copying a page\<close>

lemma swap_cp_loop_copies:
  assumes "rdmflg src \<noteq> 0" and "rdmflg dst \<noteq> 0"
    and "unat sf * 256 + i + k \<le> length (storage src)" and "length (storage src) < 2 ^ 64"
    and "unat df * 256 + i + k \<le> length (storage dst)" and "length (storage dst) < 2 ^ 64"
  shows "\<exists>dst'. swap_cp_loop k i src sf dst df = Inr (src, dst')
    \<and> (\<forall>j. storage dst' ! j = (if unat df * 256 + i \<le> j \<and> j < unat df * 256 + i + k
          then storage src ! (unat sf * 256 + (j - unat df * 256)) else storage dst ! j))
    \<and> length (storage dst') = length (storage dst)
    \<and> dst' = dst\<lparr>storage := storage dst'\<rparr>"
  using assms
proof (induction k arbitrary: i dst)
  case 0
  then show ?case by auto
next
  case (Suc k)
  let ?s = "unat sf * 256 + i" and ?d = "unat df * 256 + i"
  have s: "unat (sf * 256 + of_nat i) = ?s" and d: "unat (df * 256 + of_nat i) = ?d"
    using Suc.prems by (simp_all add: unat_word_ariths unat_of_nat)
  let ?dst = "dst\<lparr>storage := (storage dst)[?d := storage src ! ?s]\<rparr>"
  have step: "swap_cp_loop (Suc k) i src sf dst df = swap_cp_loop k (Suc i) src sf ?dst df"
    using Suc.prems
    by (simp add: PAGING_PAGESZ_def Let_def s d MEMPHY_read_random MEMPHY_write_random)
  obtain dst' where IH: "swap_cp_loop k (Suc i) src sf ?dst df = Inr (src, dst')"
      "\<And>j. storage dst' ! j = (if unat df * 256 + Suc i \<le> j \<and> j < unat df * 256 + Suc i + k
          then storage src ! (unat sf * 256 + (j - unat df * 256)) else storage ?dst ! j)"
      "length (storage dst') = length (storage ?dst)"
      "dst' = ?dst\<lparr>storage := storage dst'\<rparr>"
    using Suc.IH [of ?dst "Suc i"] Suc.prems by auto
  have "storage dst' ! j = (if ?d \<le> j \<and> j < ?d + Suc k
          then storage src ! (unat sf * 256 + (j - unat df * 256)) else storage dst ! j)" for j
    using IH(2) [of j] Suc.prems by (cases "j = ?d") (auto simp: nth_list_update not_le)
  moreover have "dst' = dst\<lparr>storage := storage dst'\<rparr>" using IH(4) by simp
  ultimately show ?case using IH(1,3) step by (intro exI [of _ dst']) simp
qed

text \<open>A fresh process with a RAM of \<open>sz\<close> bytes, for the examples.\<close>

definition fresh_mm :: mm where
  "fresh_mm = init_mm \<lparr>pgd = empty_pgtable, mmap = [],
     symrgtbl = replicate PAGING_MAX_SYMTBL_SZ (init_vm_rg 0 0), fifo_pgn = []\<rparr>"

definition fresh_caller :: "u64 \<Rightarrow> caller" where
  "fresh_caller sz = \<lparr>own_mm = Some fresh_mm, mram = snd (init_memphy blank_device sz 1),
     active_mswp = snd (init_memphy blank_device 1024 1)\<rparr>"

lemma fresh_mm [simp]: "mm_ok fresh_mm" "sbrk (heap fresh_mm) = 0" "pte_of fresh_mm q = 0"
  "fifo_pgn fresh_mm = []" "symrgtbl fresh_mm = replicate PAGING_MAX_SYMTBL_SZ (init_vm_rg 0 0)"
  by (simp_all add: fresh_mm_def mm_ok_init pte_of_def)
     (simp_all add: init_mm_def heap_def empty_pgtable_lookup Let_def)

lemma fresh_ram:
  "pool_ok (mram (fresh_caller 1024))" "free_frames (mram (fresh_caller 1024)) = [0, 1, 2, 3]"
  using init_memphy_fields [of 1024 blank_device 1]
  by (simp_all add: fresh_caller_def pool_ok_def free_frames_def PAGING_PAGESZ_def Let_def upt_rec)

section \<open>Properties\<close>

text \<open>C26: growing the heap with enough free frames: \<open>inc_vma_limit\<close> advances the break by whole
  pages, maps the new pages to the first free frames in order, records them in FIFO order for
  eviction, and changes no other page, no symbol and no byte of RAM.\<close>

theorem inc_vma_limit_maps_pages:
  assumes "own_mm c = Some mm" and "mm_ok mm" and "pool_ok (mram c)"
    and "0 < unat sz" and "unat sz < 2 ^ 31 - 256"
    and "unat (sbrk (heap mm)) < 2 ^ 52" and "pages sz \<le> length (free_frames (mram c))"
  shows "\<exists>c' mm'. inc_vma_limit c 0 sz = Inr (0, c') \<and> own_mm c' = Some mm' \<and> mm_ok mm'
    \<and> unat (sbrk (heap mm')) = unat (sbrk (heap mm)) + 256 * pages sz
    \<and> (let b = unat (sbrk (heap mm)) div 256 in
         (\<forall>q. unat q < 2 ^ 45 \<longrightarrow> pte_of mm' q =
            (if b \<le> unat q \<and> unat q < b + pages sz
             then mark_fpn (pte_of mm q) (free_frames (mram c) ! (unat q - b)) else pte_of mm q))
       \<and> fifo_pgn mm' = rev (map (\<lambda>i. of_nat (b + i)) [0..<pages sz]) @ fifo_pgn mm)
    \<and> symrgtbl mm' = symrgtbl mm
    \<and> free_frames (mram c') = drop (pages sz) (free_frames (mram c))
    \<and> storage (mram c') = storage (mram c)"
proof -
  let ?fs = "take (pages sz) (free_frames (mram c))" and ?b = "unat (sbrk (heap mm)) div 256"
  have len: "length ?fs = pages sz" using assms(7) by simp
  have pg: "pages sz \<le> 2 ^ 23" using assms(5) by (simp add: pages_def)
  obtain ram where g: "inc_vma_limit c 0 sz = Inr (0, c\<lparr>mram := ram, own_mm := Some (grow mm ?fs)\<rparr>)"
    and ram: "free_frames ram = drop (pages sz) (free_frames (mram c))" "device_core ram = device_core (mram c)"
    using inc_vma_limit_enough [OF assms(1-5) _ assms(7)] assms(5,6) by auto
  have b: "unat (sbrk (heap mm) div 256) = ?b" by (simp add: unat_div)
  have bw: "sbrk (heap mm) div 256 = of_nat ?b" by (simp flip: b)
  have pte: "pte_of (grow mm ?fs) q = (if ?b \<le> unat q \<and> unat q < ?b + pages sz
       then mark_fpn (pte_of mm q) (free_frames (mram c) ! (unat q - ?b)) else pte_of mm q)"
    if "unat q < 2 ^ 45" for q
    using pte_of_grow [OF assms(2), of ?fs q] that len pg assms(6)
    by (simp add: Let_def less_diff_conv2)
  have brk: "unat (sbrk (heap (grow mm ?fs))) = unat (sbrk (heap mm)) + 256 * pages sz"
    using pg assms(6) len by (simp add: unat_word_ariths unat_of_nat del: of_nat_mult)
  have fifo: "fifo_pgn (grow mm ?fs) = rev (map (\<lambda>i. of_nat (?b + i)) [0..<pages sz]) @ fifo_pgn mm"
    using len by (simp add: bw)
  show ?thesis
    by (intro exI [of _ "c\<lparr>mram := ram, own_mm := Some (grow mm ?fs)\<rparr>"] exI [of _ "grow mm ?fs"])
       (use ram in \<open>simp add: g mm_ok_grow assms(2) pte brk fifo device_core_def Let_def
          del: grow_simps(1,3)\<close>)
qed

theorem inc_vma_limit_maps_pages_witness:
  "\<exists>c' mm'. inc_vma_limit (fresh_caller 1024) 0 300 = Inr (0, c') \<and> own_mm c' = Some mm'
    \<and> unat (sbrk (heap mm')) = 512 \<and> pte_of mm' 1 = mark_fpn 0 1 \<and> pte_of mm' 2 = 0
    \<and> fifo_pgn mm' = [1, 0] \<and> free_frames (mram c') = [2, 3]"
proof -
  have "own_mm (fresh_caller 1024) = Some fresh_mm" by (simp add: fresh_caller_def)
  then show ?thesis
    using inc_vma_limit_maps_pages [of "fresh_caller 1024" fresh_mm 300] fresh_ram
    by (fastforce simp: pages_def upt_rec)
qed

text \<open>Growing the heap without enough free frames: the call still returns 0, because the
  unsigned result of \<open>vm_map_ram\<close> is never below 0.  The break moves by the requested size
  (not by whole pages), no page is mapped, and every frame that was left has been taken and
  is mapped nowhere.\<close>

theorem inc_vma_limit_out_of_frames:
  assumes "own_mm c = Some mm" and "mm_ok mm" and "pool_ok (mram c)"
    and "0 < unat sz" and "unat sz < 2 ^ 31 - 256"
    and "unat (sbrk (heap mm)) < 2 ^ 52" and "length (free_frames (mram c)) < pages sz"
  shows "\<exists>c' mm'. inc_vma_limit c 0 sz = Inr (0, c') \<and> own_mm c' = Some mm' \<and> mm_ok mm'
    \<and> unat (sbrk (heap mm')) = unat (sbrk (heap mm)) + unat sz
    \<and> (\<forall>q. pte_of mm' q = pte_of mm q) \<and> fifo_pgn mm' = fifo_pgn mm
    \<and> free_frames (mram c') = [] \<and> storage (mram c') = storage (mram c)"
proof -
  obtain ram where g: "inc_vma_limit c 0 sz
      = Inr (0, c\<lparr>mram := ram, own_mm := Some (heap_end mm (sbrk (heap mm) + sz))\<rparr>)"
    and ram: "free_frames ram = []" "device_core ram = device_core (mram c)"
    using inc_vma_limit_short [OF assms(1-5) _ assms(7)] assms(5,6) by auto
  show ?thesis
    by (intro exI [of _ "c\<lparr>mram := ram, own_mm := Some (heap_end mm (sbrk (heap mm) + sz))\<rparr>"]
         exI [of _ "heap_end mm (sbrk (heap mm) + sz)"])
       (use ram assms(5,6) in \<open>simp add: g mm_ok_heap_end assms(2) device_core_def unat_word_ariths\<close>)
qed

theorem inc_vma_limit_out_of_frames_witness:
  "\<exists>c' mm'. inc_vma_limit (fresh_caller 1024) 0 2000 = Inr (0, c') \<and> own_mm c' = Some mm'
    \<and> unat (sbrk (heap mm')) = 2000 \<and> pte_of mm' 0 = 0 \<and> free_frames (mram c') = []"
proof -
  have "own_mm (fresh_caller 1024) = Some fresh_mm" by (simp add: fresh_caller_def)
  then show ?thesis
    using inc_vma_limit_out_of_frames [of "fresh_caller 1024" fresh_mm 2000] fresh_ram
    by (fastforce simp: pages_def)
qed

text \<open>\<open>swap_cp_page\<close> between two random access devices copies exactly the 256 bytes of the
  source frame into the destination frame; the source, all other bytes and all frame lists
  are unchanged.\<close>

theorem swap_cp_page_copies:
  assumes "rdmflg src \<noteq> 0" and "rdmflg dst \<noteq> 0"
    and "(unat sf + 1) * 256 \<le> length (storage src)" and "length (storage src) < 2 ^ 64"
    and "(unat df + 1) * 256 \<le> length (storage dst)" and "length (storage dst) < 2 ^ 64"
  shows "\<exists>dst'. swap_cp_page src sf dst df = Inr (src, dst')
    \<and> (\<forall>j < length (storage dst). storage dst' ! j =
        (if j div 256 = unat df then storage src ! (unat sf * 256 + j mod 256) else storage dst ! j))
    \<and> length (storage dst') = length (storage dst)
    \<and> free_fp_list dst' = free_fp_list dst \<and> used_fp_list dst' = used_fp_list dst"
proof -
  obtain dst' where d: "swap_cp_loop 256 0 src sf dst df = Inr (src, dst')"
    "\<And>j. storage dst' ! j = (if unat df * 256 \<le> j \<and> j < unat df * 256 + 256
          then storage src ! (unat sf * 256 + (j - unat df * 256)) else storage dst ! j)"
    "length (storage dst') = length (storage dst)" "dst' = dst\<lparr>storage := storage dst'\<rparr>"
    using swap_cp_loop_copies [OF assms(1,2), of sf 0 256 df] assms(3-6) by auto
  have div_iff: "unat df * 256 \<le> j \<and> j < unat df * 256 + 256 \<longleftrightarrow> j div 256 = unat df" for j
    by auto
  have m: "j - unat df * 256 = j mod 256" if "j div 256 = unat df" for j
    using that by (metis minus_div_mult_eq_mod)
  have "free_fp_list dst' = free_fp_list dst" "used_fp_list dst' = used_fp_list dst"
    by (subst d(4), simp)+
  then show ?thesis using d(1-3) m by (intro exI [of _ dst']) (simp add: swap_cp_page_def PAGING_PAGESZ_def div_iff)
qed

theorem swap_cp_page_copies_witness:
  "\<exists>dst'. swap_cp_page (snd (init_memphy blank_device 512 1)) 1 (snd (init_memphy blank_device 768 1)) 2 =
      Inr (snd (init_memphy blank_device 512 1), dst') \<and> storage dst' ! 600 = 0 \<and> length (storage dst') = 768"
  using swap_cp_page_copies [of "snd (init_memphy blank_device 512 1)" "snd (init_memphy blank_device 768 1)" 1 2]
  by (auto simp: init_memphy_fields)

end
