(* ===== verification/OS_Region.thy ===== *)
theory OS_Region
  imports OS_Mm
begin

text \<open>
  The region bookkeeping of \<open>libmem.c\<close>: the free-region list of the heap area, the symbol
  table that maps a register index to an allocated region, the FIFO list of resident pages,
  and the release of all frames of a process.
\<close>

section \<open>Operations\<close>

text \<open>\<open>mm->mmap\<close> is followed before the region is checked.\<close>

definition enlist_vm_freerg_list :: "mm \<Rightarrow> vm_rg \<Rightarrow> fault + int \<times> mm" where
  "enlist_vm_freerg_list mm rg_elmt =
     (case mmap mm of
        [] \<Rightarrow> Inl Null_deref
      | v # vs \<Rightarrow>
          if rg_end rg_elmt \<le> rg_start rg_elmt then Inr (-1, mm)
          else Inr (0, mm\<lparr>mmap := v\<lparr>vm_freerg_list := rg_elmt # vm_freerg_list v\<rparr> # vs\<rparr>))"

text \<open>A region id is accepted up to \<open>PAGING_MAX_SYMTBL_SZ\<close> inclusive; \<open>None\<close> is \<open>NULL\<close>, otherwise
  the result is the index of the slot.\<close>

definition get_symrg_byid :: "i32 \<Rightarrow> nat option" where
  "get_symrg_byid rgid =
     (if sint rgid < 0 \<or> sint rgid > int PAGING_MAX_SYMTBL_SZ then None else Some (nat (sint rgid)))"

text \<open>The oldest page of the FIFO list is its last element.\<close>

definition find_victim_page :: "mm \<Rightarrow> u64 option \<times> mm" where
  "find_victim_page mm =
     (if fifo_pgn mm = [] then (None, mm)
      else (Some (last (fifo_pgn mm)), mm\<lparr>fifo_pgn := butlast (fifo_pgn mm)\<rparr>))"

text \<open>The traversal of the free list: the first region that is large enough, and the list
  with that region shrunk or unlinked.  The C \<open>int\<close> size is widened to \<open>addr_t\<close> with its sign.\<close>

fun first_fit :: "i32 \<Rightarrow> vm_rg list \<Rightarrow> (vm_rg \<times> vm_rg list) option" where
  "first_fit sz [] = None"
| "first_fit sz (rgit # rest) =
     (if rg_start rgit + scast sz \<le> rg_end rgit
      then Some (\<lparr>rg_start = rg_start rgit, rg_end = rg_start rgit + scast sz\<rparr>,
                 if rg_start rgit + scast sz < rg_end rgit
                 then rgit\<lparr>rg_start := rg_start rgit + scast sz\<rparr> # rest
                 else rest)
      else (case first_fit sz rest of
              None \<Rightarrow> None
            | Some (newrg, rest) \<Rightarrow> Some (newrg, rgit # rest)))"

text \<open>\<open>Some rg\<close> is return code 0 with \<open>*newrg = rg\<close>, \<open>None\<close> is \<open>-1\<close>.  The code recognises
  success by comparing \<open>newrg->rg_start\<close> with the value -1 it was probed with.\<close>

definition get_free_vmrg_area :: "caller \<Rightarrow> i32 \<Rightarrow> i32 \<Rightarrow> vm_rg option \<times> caller" where
  "get_free_vmrg_area c vmaid sz =
     (case own_mm c of
        None \<Rightarrow> (None, c)
      | Some mm \<Rightarrow>
          (case get_vma_by_num (own_mm c) vmaid of
             None \<Rightarrow> (None, c)
           | Some k \<Rightarrow>
               if vm_freerg_list (mmap mm ! k) = [] then (None, c)
               else (case first_fit sz (vm_freerg_list (mmap mm ! k)) of
                       None \<Rightarrow> (None, c)
                     | Some (newrg, rest) \<Rightarrow>
                         (if rg_start newrg = - 1 then None else Some newrg,
                          c\<lparr>own_mm := Some (mm\<lparr>mmap := (mmap mm)
                              [k := (mmap mm ! k)\<lparr>vm_freerg_list := rest\<rparr>]\<rparr>)\<rparr>))))"

text \<open>\<open>free_pcb_memph\<close> reads the words of the top directory as if they were page-table entries.
  \<open>addr_of\<close> stands for the addresses that \<open>calloc\<close> gave to the second-level tables.\<close>

fun free_pgd_loop :: "(nat \<Rightarrow> u64) \<Rightarrow> nat \<Rightarrow> nat \<Rightarrow> caller \<Rightarrow> fault + int \<times> caller" where
  "free_pgd_loop addr_of 0 pagenum c = Inr (0, c)"
| "free_pgd_loop addr_of (Suc k) pagenum c =
     (case own_mm c of
        None \<Rightarrow> Inr (-1, c)
      | Some mm \<Rightarrow>
          bindR (get_at (pgd_tbl (pgd mm)) pagenum) (\<lambda>tbl.
            let pte = (if tbl = 0 then 0 else ucast (addr_of tbl)) :: u32
            in if PAGING_PAGE_PRESENT pte
               then free_pgd_loop addr_of k (Suc pagenum)
                      (c\<lparr>mram := MEMPHY_put_freefp (mram c) (ucast (PAGING_FPN pte))\<rparr>)
               else free_pgd_loop addr_of k (Suc pagenum)
                      (c\<lparr>active_mswp := MEMPHY_put_freefp (active_mswp c) (ucast (PAGING_SWP pte))\<rparr>)))"

definition free_pcb_memph :: "(nat \<Rightarrow> u64) \<Rightarrow> caller \<Rightarrow> fault + int \<times> caller" where
  "free_pcb_memph addr_of c = free_pgd_loop addr_of PAGING_MAX_PGN 0 c"

section \<open>Coverage\<close>

text \<open>How many regions of a list cover a byte address.  Regions are disjoint when no address
  is covered twice; conservation laws are equations between these counts.\<close>

definition covers :: "nat \<Rightarrow> vm_rg \<Rightarrow> bool" where
  "covers x r \<longleftrightarrow> unat (rg_start r) \<le> x \<and> x < unat (rg_end r)"

definition cover :: "vm_rg list \<Rightarrow> nat \<Rightarrow> nat" where
  "cover rs x = length (filter (covers x) rs)"

definition in_heap :: "u64 \<Rightarrow> vm_rg \<Rightarrow> bool" where
  "in_heap brk r \<longleftrightarrow> rg_start r \<le> rg_end r \<and> rg_end r \<le> brk"

lemma cover_simps [simp]:
  "cover [] x = 0" "cover (r # rs) x = (if covers x r then 1 else 0) + cover rs x"
  "cover (rs @ qs) x = cover rs x + cover qs x"
  by (simp_all add: cover_def)

lemma cover_beyond: "(\<And>r. r \<in> set rs \<Longrightarrow> in_heap brk r) \<Longrightarrow> unat brk \<le> x \<Longrightarrow> cover rs x = 0"
  by (induction rs) (force simp: in_heap_def covers_def word_le_nat_alt)+

text \<open>Overwriting one entry of a list of regions.\<close>

lemma cover_update:
  "i < length rs \<Longrightarrow>
   cover (rs[i := r]) x + (if covers x (rs ! i) then 1 else 0) = cover rs x + (if covers x r then 1 else 0)"
proof (induction rs arbitrary: i)
  case (Cons a rs)
  then show ?case by (cases i) auto
qed simp

lemma covers_le_cover: "i < length rs \<Longrightarrow> covers x (rs ! i) \<Longrightarrow> 0 < cover rs x"
  unfolding cover_def by (rule length_pos_if_in_set [of "rs ! i"]) simp

text \<open>A size the code treats as non-negative.\<close>

lemma scast_nonneg:
  assumes "0 \<le> sint (sz :: i32)"
  shows "nat (sint sz) < 2 ^ 31" and "unat (scast sz :: u64) = nat (sint sz)"
proof -
  define n where "n = nat (sint sz)"
  have s: "sint sz = int n" using assms by (simp only: n_def nat_0_le)
  have "sint sz < 2 ^ 31" using sint_lt [of sz] by (simp only: len_num1 len_bit0) simp
  then have lt: "n < 2 ^ 31" unfolding s by simp
  then show "nat (sint sz) < 2 ^ 31" by (simp only: n_def)
  have "(scast sz :: u64) = of_nat n" by (metis s of_int_of_nat_eq of_int_sint)
  then show "unat (scast sz :: u64) = nat (sint sz)" using lt
    by (simp only: n_def [symmetric]) (simp add: unat_of_nat)
qed

text \<open>What first fit gives away was free before, and everything else stays free.\<close>

lemma first_fit_spec:
  assumes "first_fit sz rs = Some (g, rs')" and "0 \<le> sint sz"
    and "\<And>r. r \<in> set rs \<Longrightarrow> in_heap brk r" and "unat brk < 2 ^ 63"
  shows "unat (rg_end g) = unat (rg_start g) + nat (sint sz) \<and> in_heap brk g
    \<and> (\<forall>r \<in> set rs'. in_heap brk r) \<and> (\<forall>x. cover rs x = (if covers x g then 1 else 0) + cover rs' x)"
  using assms(1,3)
proof (induction rs arbitrary: rs')
  case Nil
  then show ?case by simp
next
  case (Cons r rs)
  let ?n = "nat (sint sz)"
  have r: "unat (rg_start r) \<le> unat (rg_end r)" "unat (rg_end r) \<le> unat brk"
    using Cons.prems(2) [of r] by (simp_all add: in_heap_def word_le_nat_alt)
  have add: "unat (rg_start r + scast sz) = unat (rg_start r) + ?n"
    using r assms(4) scast_nonneg [OF assms(2)] by (simp add: unat_word_ariths)
  show ?case
  proof (cases "rg_start r + scast sz \<le> rg_end r")
    case True
    then have le: "unat (rg_start r) + ?n \<le> unat (rg_end r)" by (simp add: word_le_nat_alt add)
    have g: "g = \<lparr>rg_start = rg_start r, rg_end = rg_start r + scast sz\<rparr>"
      and rs': "rs' = (if rg_start r + scast sz < rg_end r
        then r\<lparr>rg_start := rg_start r + scast sz\<rparr> # rs else rs)"
      using Cons.prems(1) True by auto
    have lt: "rg_start r + scast sz < rg_end r \<longleftrightarrow> unat (rg_start r) + ?n < unat (rg_end r)"
      by (simp add: word_less_nat_alt add)
    have "in_heap brk g" using r le by (simp add: g in_heap_def word_le_nat_alt add)
    moreover have "\<forall>q \<in> set rs'. in_heap brk q"
      using Cons.prems(2) r le by (auto simp: rs' in_heap_def word_le_nat_alt add)
    moreover have "cover (r # rs) x = (if covers x g then 1 else 0) + cover rs' x" for x
      using le by (auto simp: rs' g covers_def add lt)
    ultimately show ?thesis by (simp add: g add)
  next
    case False
    then obtain rs1 where rs1: "first_fit sz rs = Some (g, rs1)" "rs' = r # rs1"
      using Cons.prems(1) by (auto split: option.splits)
    then show ?thesis using Cons.IH [OF rs1(1)] Cons.prems(2) by auto
  qed
qed

text \<open>First fit fails exactly when no region is large enough.\<close>

lemma first_fit_None:
  assumes "0 \<le> sint sz" and "\<And>r. r \<in> set rs \<Longrightarrow> in_heap brk r" and "unat brk < 2 ^ 63"
  shows "first_fit sz rs = None \<longleftrightarrow> (\<forall>r \<in> set rs. unat (rg_end r) - unat (rg_start r) < nat (sint sz) \<and> 0 < sint sz)"
  using assms(2)
proof (induction rs)
  case (Cons r rs)
  have r: "unat (rg_start r) \<le> unat (rg_end r)" "unat (rg_end r) \<le> unat brk"
    using Cons.prems [of r] by (simp_all add: in_heap_def word_le_nat_alt)
  have "unat (rg_start r + scast sz) = unat (rg_start r) + nat (sint sz)"
    using r assms(3) scast_nonneg [OF assms(1)] by (simp add: unat_word_ariths)
  then have "rg_start r + scast sz \<le> rg_end r \<longleftrightarrow> \<not> (unat (rg_end r) - unat (rg_start r) < nat (sint sz) \<and> 0 < sint sz)"
    using r by (auto simp: word_le_nat_alt)
  then show ?case using Cons by (auto split: option.splits)
qed simp

section \<open>Disjoint regions\<close>

text \<open>All regions of a process: the free ones of the heap area and those the symbol table names.
  The invariant: they lie below the break and no byte belongs to two of them.\<close>

definition regions :: "mm \<Rightarrow> vm_rg list" where
  "regions mm = vm_freerg_list (heap mm) @ symrgtbl mm"

definition regions_ok :: "mm \<Rightarrow> bool" where
  "regions_ok mm \<longleftrightarrow> (\<forall>r \<in> set (regions mm). in_heap (sbrk (heap mm)) r) \<and> (\<forall>x. cover (regions mm) x \<le> 1)"

lemma regions_okD: "regions_ok mm \<Longrightarrow> r \<in> set (regions mm) \<Longrightarrow> in_heap (sbrk (heap mm)) r"
  by (simp add: regions_ok_def)

lemma regions_ok_free: "regions_ok mm \<Longrightarrow> r \<in> set (vm_freerg_list (heap mm)) \<Longrightarrow> in_heap (sbrk (heap mm)) r"
  by (simp add: regions_ok_def regions_def)

lemma in_heap_mono: "in_heap b r \<Longrightarrow> b \<le> b' \<Longrightarrow> in_heap b' r"
  by (auto simp: in_heap_def)

definition set_free :: "mm \<Rightarrow> vm_rg list \<Rightarrow> mm" where
  "set_free mm rs = mm\<lparr>mmap := [(heap mm)\<lparr>vm_freerg_list := rs\<rparr>]\<rparr>"

lemma set_free_simps [simp]:
  "heap (set_free mm rs) = (heap mm)\<lparr>vm_freerg_list := rs\<rparr>" "pgd (set_free mm rs) = pgd mm"
  "symrgtbl (set_free mm rs) = symrgtbl mm" "fifo_pgn (set_free mm rs) = fifo_pgn mm"
  "pte_of (set_free mm rs) q = pte_of mm q"
  by (simp_all add: set_free_def heap_def pte_of_def)

lemma mm_ok_set_free: "mm_ok mm \<Longrightarrow> mm_ok (set_free mm rs)"
  by (auto simp: mm_ok_def set_free_def heap_def)

lemma get_free_vmrg_area_eq:
  assumes c: "own_mm c = Some mm" and ok: "mm_ok mm" and rok: "regions_ok mm"
    and brk: "unat (sbrk (heap mm)) < 2 ^ 63" and sz: "0 \<le> sint sz"
  shows "get_free_vmrg_area c 0 sz =
    (case first_fit sz (vm_freerg_list (heap mm)) of
       None \<Rightarrow> (None, c)
     | Some (g, rest) \<Rightarrow> (Some g, c\<lparr>own_mm := Some (set_free mm rest)\<rparr>))"
proof -
  have "rg_start g \<noteq> - 1" if "first_fit sz (vm_freerg_list (heap mm)) = Some (g, rest)" for g rest
  proof -
    have "in_heap (sbrk (heap mm)) g"
      using first_fit_spec [OF that sz regions_ok_free [OF rok] brk] by blast
    then have "unat (rg_start g) < 2 ^ 63" using brk by (auto simp: in_heap_def word_le_nat_alt)
    moreover have "unat (- 1 :: u64) = 2 ^ 64 - 1" by (simp add: unsigned_minus_1_eq_mask mask_eq_exp_minus_1)
    ultimately show ?thesis by (auto simp: not_less)
  qed
  then show ?thesis
    using c ok by (auto simp: get_free_vmrg_area_def find_heap set_free_def mmap_heap split: option.split)
qed

section \<open>Properties\<close>

text \<open>C28: a search for free space of a non-negative size either fails, and then no free region
  was large enough and nothing changed, or it returns a region of exactly that size that was
  free, lies below the break, overlaps no allocated region, and is the only thing taken from
  the free list.\<close>

theorem get_free_vmrg_area_spec:
  assumes "own_mm c = Some mm" and "mm_ok mm" and "regions_ok mm"
    and "unat (sbrk (heap mm)) < 2 ^ 63" and "0 \<le> sint sz"
  shows "case get_free_vmrg_area c 0 sz of
      (None, c') \<Rightarrow> c' = c
        \<and> (\<forall>r \<in> set (vm_freerg_list (heap mm)). unat (rg_end r) - unat (rg_start r) < nat (sint sz))
    | (Some g, c') \<Rightarrow> unat (rg_end g) = unat (rg_start g) + nat (sint sz) \<and> rg_end g \<le> sbrk (heap mm)
        \<and> (\<forall>x. covers x g \<longrightarrow> cover (symrgtbl mm) x = 0)
        \<and> (\<exists>mm'. own_mm c' = Some mm' \<and> mm_ok mm' \<and> symrgtbl mm' = symrgtbl mm
            \<and> (\<forall>q. pte_of mm' q = pte_of mm q) \<and> sbrk (heap mm') = sbrk (heap mm)
            \<and> (\<forall>x. cover (vm_freerg_list (heap mm)) x
                 = (if covers x g then 1 else 0) + cover (vm_freerg_list (heap mm')) x))"
proof (cases "first_fit sz (vm_freerg_list (heap mm))")
  case None
  moreover have "\<forall>r \<in> set (vm_freerg_list (heap mm)). unat (rg_end r) - unat (rg_start r) < nat (sint sz)"
    using None first_fit_None [OF assms(5), of "vm_freerg_list (heap mm)" "sbrk (heap mm)"]
      regions_ok_free [OF assms(3)] assms(4) by blast
  ultimately show ?thesis by (simp add: get_free_vmrg_area_eq [OF assms])
next
  case (Some a)
  obtain g rest where a: "first_fit sz (vm_freerg_list (heap mm)) = Some (g, rest)" using Some by (cases a) simp
  note sp = first_fit_spec [OF a assms(5) regions_ok_free [OF assms(3)] assms(4)]
  have "cover (symrgtbl mm) x = 0" if "covers x g" for x
  proof -
    have "cover (regions mm) x \<le> 1" using assms(3) by (simp add: regions_ok_def)
    then show ?thesis using that sp by (simp add: regions_def)
  qed
  then show ?thesis using sp assms(2)
    by (simp add: get_free_vmrg_area_eq [OF assms] a in_heap_def mm_ok_set_free)
qed

text \<open>A process with one free region of 256 bytes and one allocated region of 256 bytes.\<close>

definition two_regions :: mm where
  "two_regions = (heap_end (set_free fresh_mm [\<lparr>rg_start = 256, rg_end = 512\<rparr>]) 512)
     \<lparr>symrgtbl := (symrgtbl fresh_mm)[3 := \<lparr>rg_start = 0, rg_end = 256\<rparr>]\<rparr>"

lemma two_regions:
  "mm_ok two_regions" "regions_ok two_regions" "sbrk (heap two_regions) = 512"
  "vm_freerg_list (heap two_regions) = [\<lparr>rg_start = 256, rg_end = 512\<rparr>]"
  "symrgtbl two_regions ! 3 = \<lparr>rg_start = 0, rg_end = 256\<rparr>"
proof -
  have h: "heap two_regions = heap (heap_end (set_free fresh_mm [\<lparr>rg_start = 256, rg_end = 512\<rparr>]) 512)"
    by (simp add: two_regions_def heap_def)
  show sb: "sbrk (heap two_regions) = 512" "vm_freerg_list (heap two_regions) = [\<lparr>rg_start = 256, rg_end = 512\<rparr>]"
    by (simp_all add: h)
  show "symrgtbl two_regions ! 3 = \<lparr>rg_start = 0, rg_end = 256\<rparr>"
    by (simp add: two_regions_def PAGING_MAX_SYMTBL_SZ_def)
  have "mm_ok (heap_end (set_free fresh_mm [\<lparr>rg_start = 256, rg_end = 512\<rparr>]) 512)"
    by (simp add: mm_ok_heap_end mm_ok_set_free)
  then show "mm_ok two_regions" by (simp add: two_regions_def mm_ok_def)
  have s: "symrgtbl two_regions = replicate 3 (init_vm_rg 0 0) @ \<lparr>rg_start = 0, rg_end = 256\<rparr> # replicate 26 (init_vm_rg 0 0)"
    by (simp add: two_regions_def PAGING_MAX_SYMTBL_SZ_def list_update_def numeral_eq_Suc)
  have c0: "cover (replicate n \<lparr>rg_start = 0, rg_end = 0\<rparr>) x = 0" for n x
    by (induction n) (simp_all add: covers_def)
  show "regions_ok two_regions"
    by (auto simp: regions_ok_def regions_def sb s c0 in_heap_def covers_def init_vm_rg_def)
qed

theorem get_free_vmrg_area_spec_witness:
  "\<exists>g c' mm'. get_free_vmrg_area ((fresh_caller 1024)\<lparr>own_mm := Some two_regions\<rparr>) 0 100 = (Some g, c')
     \<and> rg_start g = 256 \<and> unat (rg_end g) = 356 \<and> own_mm c' = Some mm' \<and> mm_ok mm'
     \<and> (\<forall>x. covers x g \<longrightarrow> cover (symrgtbl two_regions) x = 0)"
proof -
  let ?c = "(fresh_caller 1024)\<lparr>own_mm := Some two_regions\<rparr>"
  obtain g c' where g: "get_free_vmrg_area ?c 0 100 = (Some g, c')" "rg_start g = 256"
    by (simp add: get_free_vmrg_area_def find_heap two_regions mmap_heap)
  show ?thesis
    using get_free_vmrg_area_spec [of ?c two_regions 100] g by (auto simp: two_regions)
qed

text \<open>A size of \<open>2^31\<close> or more becomes a negative C \<open>int\<close>: the search succeeds on the first
  region, returns a region that ends below its start, and moves the start of the free region
  downwards, so bytes that may belong to allocated regions become free again.\<close>

theorem get_free_vmrg_area_negative:
  assumes "own_mm c = Some mm" and "mm_ok mm" and "vm_freerg_list (heap mm) = r # rs"
    and "sint sz < 0" and "nat (- sint sz) \<le> unat (rg_start r)" and "rg_start r \<le> rg_end r"
    and "unat (rg_end r) < 2 ^ 63"
  shows "\<exists>g c' mm'. get_free_vmrg_area c 0 sz = (Some g, c') \<and> rg_start g = rg_start r
    \<and> unat (rg_end g) = unat (rg_start r) - nat (- sint sz) \<and> own_mm c' = Some mm'
    \<and> (\<exists>r'. vm_freerg_list (heap mm') = r' # rs \<and> rg_end r' = rg_end r
         \<and> unat (rg_start r') = unat (rg_start r) - nat (- sint sz))"
proof -
  define m where "m = nat (- sint sz)"
  have m: "sint sz = - int m" "0 < m" using assms(4) by (simp_all add: m_def)
  have "(scast sz :: u64) = - of_nat m" by (metis m(1) of_int_minus of_int_of_nat_eq of_int_sint)
  then have "rg_start r + scast sz = rg_start r - of_nat m" by simp
  moreover have le: "(of_nat m :: u64) \<le> rg_start r" "unat (of_nat m :: u64) = m"
    using assms(5) m_def unsigned_less [where ?'a = nat and w = "rg_start r"]
    by (simp_all add: word_le_nat_alt unat_of_nat le_less_trans)
  ultimately have e: "unat (rg_start r + scast sz) = unat (rg_start r) - m" by (simp add: unat_sub)
  have "unat (- 1 :: u64) = 2 ^ 64 - 1" by (simp add: unsigned_minus_1_eq_mask mask_eq_exp_minus_1)
  moreover have "unat (rg_start r) \<le> unat (rg_end r)" using assms(6) by (simp only: word_le_nat_alt)
  ultimately have ne: "rg_start r \<noteq> - 1" using assms(7) by (auto simp: not_less)
  have "unat (rg_start r) - m < unat (rg_end r)"
    using m(2) assms(5) \<open>unat (rg_start r) \<le> unat (rg_end r)\<close> unfolding m_def by linarith
  then have lt: "rg_start r + scast sz < rg_end r" by (simp only: word_less_nat_alt e)
  have "get_free_vmrg_area c 0 sz = (Some \<lparr>rg_start = rg_start r, rg_end = rg_start r + scast sz\<rparr>,
      c\<lparr>own_mm := Some (set_free mm (r\<lparr>rg_start := rg_start r + scast sz\<rparr> # rs))\<rparr>)"
    using assms(1-3) ne lt less_imp_le [OF lt]
    by (simp add: get_free_vmrg_area_def find_heap mmap_heap set_free_def)
  then show ?thesis
    by (intro exI conjI) (assumption | simp add: e m_def)+
qed

theorem get_free_vmrg_area_negative_witness:
  "\<exists>g c' mm' r'. get_free_vmrg_area ((fresh_caller 1024)\<lparr>own_mm := Some two_regions\<rparr>) 0 (- 256) = (Some g, c')
     \<and> unat (rg_end g) = 0 \<and> own_mm c' = Some mm' \<and> vm_freerg_list (heap mm') = [r'] \<and> unat (rg_start r') = 0
     \<and> covers 7 (symrgtbl two_regions ! 3)"
  using get_free_vmrg_area_negative [of "(fresh_caller 1024)\<lparr>own_mm := Some two_regions\<rparr>" two_regions
      "\<lparr>rg_start = 256, rg_end = 512\<rparr>" "[]" "- 256"]
  by (auto simp: two_regions covers_def)

text \<open>The pages evicted by \<open>n\<close> searches.\<close>

fun victims :: "nat \<Rightarrow> mm \<Rightarrow> u64 option list" where
  "victims 0 mm = []"
| "victims (Suc n) mm = (let (v, mm) = find_victim_page mm in v # victims n mm)"

lemma victims_eq: "n \<le> length (fifo_pgn mm) \<Longrightarrow> victims n mm = map Some (take n (rev (fifo_pgn mm)))"
proof (induction n arbitrary: mm)
  case (Suc n)
  then obtain p ps where p: "rev (fifo_pgn mm) = p # ps" by (cases "rev (fifo_pgn mm)") auto
  then have f: "fifo_pgn mm = rev ps @ [p]" by (metis rev_rev_ident rev.simps(2))
  show ?case using Suc by (simp add: find_victim_page_def f)
qed simp

text \<open>\<open>find_victim_page\<close> evicts in FIFO order: from any state, pages enlisted one after the
  other leave in the same order once the older ones are gone.\<close>

theorem victims_fifo:
  "victims (length (fifo_pgn mm) + length ps) (mm\<lparr>fifo_pgn := foldl enlist_pgn_node (fifo_pgn mm) ps\<rparr>)
     = map Some (rev (fifo_pgn mm) @ ps)
   \<and> find_victim_page (mm\<lparr>fifo_pgn := []\<rparr>) = (None, mm\<lparr>fifo_pgn := []\<rparr>)"
proof -
  have "foldl enlist_pgn_node q ps = rev ps @ q" for q
    by (induction ps arbitrary: q) (simp_all add: enlist_pgn_node_def)
  then show ?thesis by (simp add: victims_eq find_victim_page_def)
qed

lemma free_pgd_loop_faults:
  "own_mm c = Some mm \<Longrightarrow> length (pgd_tbl (pgd mm)) = 512 \<Longrightarrow> i \<le> 512 \<Longrightarrow> 512 < i + k \<Longrightarrow>
   free_pgd_loop addr_of k i c = Inl Out_of_bounds"
proof (induction k arbitrary: i c)
  case (Suc k)
  then show ?case by (cases "i = 512") (simp_all add: get_at_def Let_def)
qed simp

text \<open>C37: \<open>free_pcb_memph\<close> cannot work: it reads \<open>PAGING_MAX_PGN\<close> = 16384 entries of the top
  directory, which has 512, so for every process with page tables it leaves the table.\<close>

theorem free_pcb_memph_out_of_bounds:
  assumes "own_mm c = Some mm" and "mm_ok mm"
  shows "free_pcb_memph addr_of c = Inl Out_of_bounds"
proof -
  have "length (pgd_tbl (pgd mm)) = 512" using assms(2) by (simp add: mm_ok_def pt_wf_def tables_ok_def)
  then show ?thesis using assms(1) unfolding free_pcb_memph_def
    by (intro free_pgd_loop_faults) (simp_all add: PAGING_MAX_PGN_def PAGING_CPU_BUS_WIDTH_def PAGING_PAGESZ_def)
qed

theorem free_pcb_memph_out_of_bounds_witness:
  "free_pcb_memph (\<lambda>_. 4096) (fresh_caller 1024) = Inl Out_of_bounds"
  using free_pcb_memph_out_of_bounds [of "fresh_caller 1024" fresh_mm] by (simp add: fresh_caller_def)

end
