(* ===== verification/OS_Queue.thy ===== *)
theory OS_Queue
  imports OS_Prelude
begin

text \<open>
  The process queue of \<open>queue.c\<close>: a fixed array of \<open>MAX_QUEUE_SIZE\<close> pointers with a fill
  count.  The operations are the array code with its shift loops; the abstraction
  \<open>queue_items\<close> reads the queue as the list of its first \<open>size\<close> entries.  The locale
  \<open>bounded_fifo\<close> states the contract the scheduler relies on, and is interpreted on the
  array code at the end of the theory.  The queue argument \<open>q\<close> of the C functions is always
  the address of a static object, so the \<open>q == NULL\<close> guards are modelled in
  \<open>empty_queue\<close> only; a process argument may be \<open>NULL\<close> and is an option.
\<close>

section \<open>State and operations\<close>

definition MAX_QUEUE_SIZE :: nat where
  "MAX_QUEUE_SIZE = 50"

record queue_t =
  q_proc :: "pcb_ref option list"
  q_size :: nat

text \<open>A queue with static storage duration: all pointers \<open>NULL\<close>, size 0.\<close>

definition zero_queue :: queue_t where
  "zero_queue = \<lparr>q_proc = replicate MAX_QUEUE_SIZE None, q_size = 0\<rparr>"

fun empty_queue :: "queue_t option \<Rightarrow> bool" where
  "empty_queue None = True"
| "empty_queue (Some q) = (q_size q = 0)"

definition enqueue :: "queue_t \<Rightarrow> pcb_ref option \<Rightarrow> queue_t" where
  "enqueue q proc =
     (if proc = None \<or> MAX_QUEUE_SIZE \<le> q_size q then q
      else q\<lparr>q_proc := (q_proc q)[q_size q := proc], q_size := q_size q + 1\<rparr>)"

definition dequeue :: "queue_t \<Rightarrow> pcb_ref option \<times> queue_t" where
  "dequeue q =
     (if q_size q = 0 then (None, q)
      else (q_proc q ! 0,
            q\<lparr>q_proc := shift_loop 0 (q_size q - 1) (q_proc q), q_size := q_size q - 1\<rparr>))"

definition purgequeue :: "queue_t \<Rightarrow> pcb_ref option \<Rightarrow> pcb_ref option \<times> queue_t" where
  "purgequeue q proc =
     (if proc = None then (None, q)
      else case find (\<lambda>i. q_proc q ! i = proc) [0..<q_size q] of
             None \<Rightarrow> (None, q)
           | Some i \<Rightarrow>
               (proc, q\<lparr>q_proc := shift_loop i (q_size q - 1 - i) (q_proc q),
                        q_size := q_size q - 1\<rparr>))"

section \<open>Abstraction and invariant\<close>

definition queue_items :: "queue_t \<Rightarrow> pcb_ref option list" where
  "queue_items q = take (q_size q) (q_proc q)"

definition queue_inv :: "queue_t \<Rightarrow> bool" where
  "queue_inv q \<longleftrightarrow> length (q_proc q) = MAX_QUEUE_SIZE \<and> q_size q \<le> MAX_QUEUE_SIZE
     \<and> None \<notin> set (queue_items q)"

definition queue_list :: "queue_t \<Rightarrow> pcb_ref list" where
  "queue_list q = map the (queue_items q)"

lemma queue_inv_size: "queue_inv q \<Longrightarrow> length (queue_items q) = q_size q"
  by (simp add: queue_inv_def queue_items_def)

lemma length_queue_list: "queue_inv q \<Longrightarrow> length (queue_list q) = q_size q"
  by (simp add: queue_list_def queue_inv_size)

lemma queue_items_list: "queue_inv q \<Longrightarrow> queue_items q = map Some (queue_list q)"
proof -
  assume "queue_inv q"
  then have "map (Some \<circ> the) (queue_items q) = queue_items q"
    by (intro map_idI) (metis comp_apply option.collapse queue_inv_def)
  then show ?thesis by (simp add: queue_list_def)
qed

lemma queue_size_bound: "queue_inv q \<Longrightarrow> length (queue_list q) \<le> MAX_QUEUE_SIZE"
  by (simp add: length_queue_list) (simp add: queue_inv_def)

lemma zero_queue_inv [simp]: "queue_inv zero_queue"
  by (simp add: queue_inv_def zero_queue_def queue_items_def)

lemma zero_queue_list [simp]: "queue_list zero_queue = []"
  by (simp add: zero_queue_def queue_list_def queue_items_def)

lemma empty_queue_iff: "queue_inv q \<Longrightarrow> empty_queue (Some q) \<longleftrightarrow> queue_list q = []"
  by (simp add: length_queue_list[symmetric])

section \<open>Each operation on the abstract list\<close>

lemma enqueue_items:
  assumes "queue_inv q"
  shows "queue_items (enqueue q (Some p)) =
    (if q_size q < MAX_QUEUE_SIZE then queue_items q @ [Some p] else queue_items q)"
  using assms
  by (auto simp: enqueue_def queue_items_def queue_inv_def take_Suc_conv_app_nth)

lemma enqueue_inv: "queue_inv q \<Longrightarrow> queue_inv (enqueue q p)"
  using enqueue_items [of q "the p"]
  by (cases p) (auto simp: queue_inv_def enqueue_def split: if_splits)

lemma enqueue_list:
  "queue_inv q \<Longrightarrow> queue_list (enqueue q (Some p)) =
    (if length (queue_list q) < MAX_QUEUE_SIZE then queue_list q @ [p] else queue_list q)"
  by (simp add: enqueue_items length_queue_list) (simp add: queue_list_def enqueue_items)

lemma dequeue_items:
  assumes "queue_inv q" and "q_size q \<noteq> 0"
  shows "queue_items (snd (dequeue q)) = tl (queue_items q)"
    and "fst (dequeue q) = hd (queue_items q)"
proof -
  have "queue_items (snd (dequeue q)) = take 0 (q_proc q) @ drop (Suc 0) (take (q_size q) (q_proc q))"
    using assms take_shift_loop [of 0 "q_size q" "q_proc q"]
    by (simp add: dequeue_def queue_items_def queue_inv_def)
  then show "queue_items (snd (dequeue q)) = tl (queue_items q)"
    by (simp add: queue_items_def drop_Suc)
  show "fst (dequeue q) = hd (queue_items q)"
    using assms
    by (cases "q_proc q") (auto simp: dequeue_def queue_items_def queue_inv_def MAX_QUEUE_SIZE_def hd_conv_nth)
qed

lemma dequeue_inv: "queue_inv q \<Longrightarrow> queue_inv (snd (dequeue q))"
proof (cases "q_size q = 0")
  case False
  assume inv: "queue_inv q"
  from inv False have "None \<notin> set (queue_items (snd (dequeue q)))"
    by (metis dequeue_items(1) list.sel(2) list.set_sel(2) queue_inv_def)
  with inv False show ?thesis by (auto simp: queue_inv_def dequeue_def)
qed (simp add: dequeue_def)

lemma queue_list_eqI: "queue_inv q \<Longrightarrow> queue_items q = map Some xs \<Longrightarrow> queue_list q = xs"
  by (simp add: queue_items_list inj_map_eq_map)

lemma dequeue_list:
  assumes "queue_inv q"
  shows "queue_list (snd (dequeue q)) = tl (queue_list q)"
    and "fst (dequeue q) = (case queue_list q of [] \<Rightarrow> None | p # ps \<Rightarrow> Some p)"
proof -
  have "queue_list (snd (dequeue q)) = tl (queue_list q) \<and>
    fst (dequeue q) = (case queue_list q of [] \<Rightarrow> None | p # ps \<Rightarrow> Some p)"
  proof (cases "queue_list q")
    case Nil
    then have "q_size q = 0" using length_queue_list [OF assms] by simp
    with Nil show ?thesis by (simp add: dequeue_def)
  next
    case (Cons p ps)
    then have "q_size q \<noteq> 0" using length_queue_list [OF assms] by auto
    then have "queue_items (snd (dequeue q)) = map Some ps" and "fst (dequeue q) = Some p"
      using assms Cons queue_items_list [OF assms] by (simp_all add: dequeue_items)
    with Cons show ?thesis using queue_list_eqI [OF dequeue_inv [OF assms]] by simp
  qed
  then show "queue_list (snd (dequeue q)) = tl (queue_list q)"
    and "fst (dequeue q) = (case queue_list q of [] \<Rightarrow> None | p # ps \<Rightarrow> Some p)"
    by simp_all
qed

lemma purge_items:
  assumes inv: "queue_inv q"
  shows "queue_items (snd (purgequeue q (Some p))) = remove1 (Some p) (queue_items q)"
    and "fst (purgequeue q (Some p)) = (if Some p \<in> set (queue_items q) then Some p else None)"
proof -
  let ?F = "find (\<lambda>i. q_proc q ! i = Some p) [0..<q_size q]"
  have len: "q_size q \<le> length (q_proc q)" using inv by (simp add: queue_inv_def)
  have "queue_items (snd (purgequeue q (Some p))) = remove1 (Some p) (queue_items q) \<and>
    fst (purgequeue q (Some p)) = (if Some p \<in> set (queue_items q) then Some p else None)"
  proof (cases ?F)
    case None
    then have "Some p \<notin> set (queue_items q)"
      using len by (auto simp: find_upt_None queue_items_def in_set_conv_nth)
    then show ?thesis using None by (simp add: purgequeue_def remove1_idem)
  next
    case (Some i)
    then have i: "i < q_size q" "q_proc q ! i = Some p" "\<forall>j<i. q_proc q ! j \<noteq> Some p"
      by (auto simp: find_upt_Some)
    have "Some p \<notin> set (take i (queue_items q))"
      using i len by (auto simp: queue_items_def in_set_conv_nth)
    then have "remove1 (Some p) (queue_items q) = take i (queue_items q) @ drop (Suc i) (queue_items q)"
      using i len by (intro remove1_take_drop) (auto simp: queue_items_def)
    moreover have "queue_items (snd (purgequeue q (Some p))) =
        take i (q_proc q) @ drop (Suc i) (take (q_size q) (q_proc q))"
      using Some i len take_shift_loop [of i "q_size q" "q_proc q"]
      by (simp add: purgequeue_def queue_items_def)
    moreover have "Some p \<in> set (queue_items q)"
      using i len by (auto simp: queue_items_def in_set_conv_nth)
    ultimately show ?thesis using Some i by (simp add: purgequeue_def queue_items_def min_def)
  qed
  then show "queue_items (snd (purgequeue q (Some p))) = remove1 (Some p) (queue_items q)"
    and "fst (purgequeue q (Some p)) = (if Some p \<in> set (queue_items q) then Some p else None)"
    by simp_all
qed

lemma purge_inv: "queue_inv q \<Longrightarrow> queue_inv (snd (purgequeue q p))"
proof (cases p)
  case (Some r)
  assume inv: "queue_inv q"
  have "None \<notin> set (queue_items (snd (purgequeue q (Some r))))"
    using inv notin_set_remove1 [of None] by (simp add: purge_items) (simp add: queue_inv_def)
  with inv Some show ?thesis
    by (auto simp: queue_inv_def purgequeue_def split: option.splits)
qed (simp add: purgequeue_def)

lemma remove1_map_Some: "remove1 (Some x) (map Some xs) = map Some (remove1 x xs)"
  by (induction xs) auto

lemma purge_list:
  "queue_inv q \<Longrightarrow> queue_list (snd (purgequeue q (Some p))) = remove1 p (queue_list q)"
  using queue_list_eqI [OF purge_inv] purge_items(1) queue_items_list remove1_map_Some by metis

section \<open>The contract of a bounded FIFO queue\<close>

text \<open>Any number of dequeues, with the results in order.\<close>

fun drain :: "('q \<Rightarrow> 'p option \<times> 'q) \<Rightarrow> nat \<Rightarrow> 'q \<Rightarrow> 'p option list \<times> 'q" where
  "drain deq 0 q = ([], q)"
| "drain deq (Suc n) q =
     (let (p, q1) = deq q; (ps, q2) = drain deq n q1 in (p # ps, q2))"

locale bounded_fifo =
  fixes inv :: "'q \<Rightarrow> bool"
    and items :: "'q \<Rightarrow> 'p list"
    and cap :: nat
    and enq :: "'q \<Rightarrow> 'p \<Rightarrow> 'q"
    and deq :: "'q \<Rightarrow> 'p option \<times> 'q"
    and purge :: "'q \<Rightarrow> 'p \<Rightarrow> 'q"
  assumes inv_enq: "inv q \<Longrightarrow> inv (enq q p)"
    and inv_deq: "inv q \<Longrightarrow> inv (snd (deq q))"
    and inv_purge: "inv q \<Longrightarrow> inv (purge q p)"
    and items_cap: "inv q \<Longrightarrow> length (items q) \<le> cap"
    and items_enq: "inv q \<Longrightarrow>
      items (enq q p) = (if length (items q) < cap then items q @ [p] else items q)"
    and items_deq: "inv q \<Longrightarrow> items (snd (deq q)) = tl (items q)"
    and deq_result: "inv q \<Longrightarrow>
      fst (deq q) = (case items q of [] \<Rightarrow> None | p # ps \<Rightarrow> Some p)"
    and items_purge: "inv q \<Longrightarrow> items (purge q p) = remove1 p (items q)"
begin

lemma inv_enq_all: "inv q \<Longrightarrow> inv (foldl enq q ps)"
  by (induction ps arbitrary: q) (auto intro: inv_enq)

text \<open>Enqueueing keeps the queue's content in front and drops what does not fit.\<close>

lemma items_enq_all:
  "inv q \<Longrightarrow> items (foldl enq q ps) = items q @ take (cap - length (items q)) ps"
proof (induction ps arbitrary: q)
  case Nil
  then show ?case by simp
next
  case (Cons p ps)
  have "length (items q) \<le> cap" using Cons.prems by (rule items_cap)
  then show ?case
    using Cons.IH [OF inv_enq [OF Cons.prems, of p]] Cons.prems
    by (cases "length (items q) < cap") (auto simp: items_enq take_Cons')
qed

lemma drain_items:
  "inv q \<Longrightarrow> n \<le> length (items q) \<Longrightarrow>
   fst (drain deq n q) = map Some (take n (items q)) \<and> items (snd (drain deq n q)) = drop n (items q)"
proof (induction n arbitrary: q)
  case 0
  then show ?case by simp
next
  case (Suc n)
  then obtain p ps where it: "items q = p # ps" by (cases "items q") auto
  then have "items (snd (deq q)) = ps" and "fst (deq q) = Some p"
    using Suc.prems by (simp_all add: items_deq deq_result)
  with Suc.IH [OF inv_deq [OF Suc.prems(1)]] Suc.prems it show ?case
    by (simp add: case_prod_unfold Let_def)
qed

text \<open>First in, first out: what fits comes out in the order it went in.\<close>

lemma fifo:
  assumes "inv q" and "items q = []"
  shows "fst (drain deq (min cap (length ps)) (foldl enq q ps)) = map Some (take cap ps)"
proof -
  have "items (foldl enq q ps) = take cap ps" using assms by (simp add: items_enq_all)
  then show ?thesis
    using drain_items [OF inv_enq_all [OF assms(1)], of "min cap (length ps)" ps]
    by (simp add: min_def)
qed

lemma deq_conserves:
  assumes "inv q" and "fst (deq q) = Some p"
  shows "mset (items q) = add_mset p (mset (items (snd (deq q))))"
  using assms by (cases "items q") (auto simp: deq_result items_deq)

lemma enq_conserves:
  "inv q \<Longrightarrow> length (items q) < cap \<Longrightarrow> mset (items (enq q p)) = add_mset p (mset (items q))"
  by (simp add: items_enq)

lemma deq_None: "inv q \<Longrightarrow> fst (deq q) = None \<longleftrightarrow> items q = []"
  by (cases "items q") (auto simp: deq_result)

end

interpretation pq: bounded_fifo queue_inv queue_list MAX_QUEUE_SIZE
  "\<lambda>q p. enqueue q (Some p)" dequeue "\<lambda>q p. snd (purgequeue q (Some p))"
  by unfold_locales
     (auto simp: enqueue_inv dequeue_inv purge_inv queue_size_bound enqueue_list dequeue_list
        purge_list)

section \<open>Properties\<close>

text \<open>C30: the array operations of the process queue implement a list: \<open>enqueue\<close> appends
  (and drops the process when the 50 slots are full), \<open>dequeue\<close> returns and removes the
  head, \<open>purgequeue\<close> removes the first occurrence, and all keep the queue invariant.\<close>

theorem queue_refines_list:
  assumes "queue_inv q"
  shows "queue_list (enqueue q (Some p)) =
      (if length (queue_list q) < MAX_QUEUE_SIZE then queue_list q @ [p] else queue_list q)
    \<and> queue_list (snd (dequeue q)) = tl (queue_list q)
    \<and> fst (dequeue q) = (case queue_list q of [] \<Rightarrow> None | r # rs \<Rightarrow> Some r)
    \<and> queue_list (snd (purgequeue q (Some p))) = remove1 p (queue_list q)
    \<and> queue_inv (enqueue q (Some p)) \<and> queue_inv (snd (dequeue q))
    \<and> queue_inv (snd (purgequeue q (Some p)))"
  using assms
  by (simp add: enqueue_list dequeue_list purge_list enqueue_inv dequeue_inv purge_inv)

theorem queue_refines_list_witness:
  "queue_list (snd (dequeue (enqueue (enqueue zero_queue (Some 7)) (Some 9)))) = [9]"
  using queue_refines_list [OF zero_queue_inv, of 7]
    queue_refines_list [of "enqueue zero_queue (Some 7)" 9]
    queue_refines_list [of "enqueue (enqueue zero_queue (Some 7)) (Some 9)" 0]
  by (simp add: MAX_QUEUE_SIZE_def)

text \<open>First in, first out: enqueueing any processes on an empty queue and dequeueing
  returns the first 50 of them in the order they were added; the rest are lost.\<close>

theorem queue_fifo_order:
  "fst (drain dequeue (min MAX_QUEUE_SIZE (length ps))
      (foldl (\<lambda>q p. enqueue q (Some p)) zero_queue ps))
   = map Some (take MAX_QUEUE_SIZE ps)"
  by (rule pq.fifo) simp_all

end
