(* ===== verification/OS_Sched.thy ===== *)
theory OS_Sched
  imports OS_Queue
begin

text \<open>
  The multi-level queue scheduler of \<open>sched.c\<close> (with \<open>MLQ_SCHED\<close> defined, as in
  \<open>os-cfg.h\<close>): 140 ready queues with a slot budget each, and the list of dispatched
  processes.  Every function body runs under \<open>queue_lock\<close>, so a call is one atomic step on
  the record \<open>sched_t\<close>.
\<close>

section \<open>State\<close>

definition MAX_PRIO :: nat where
  "MAX_PRIO = 140"

record sched_t =
  ready_queue :: queue_t
  run_queue :: queue_t
  running_list :: queue_t
  mlq_ready_queue :: "queue_t list"
  slot :: "int list"

text \<open>The statics before \<open>init_scheduler\<close>, and \<open>init_scheduler\<close> itself, which resets only
  the sizes and the budgets.\<close>

definition zero_sched :: sched_t where
  "zero_sched =
     \<lparr>ready_queue = zero_queue, run_queue = zero_queue, running_list = zero_queue,
      mlq_ready_queue = replicate MAX_PRIO zero_queue, slot = replicate MAX_PRIO 0\<rparr>"

definition full_slots :: "int list" where
  "full_slots = map (\<lambda>i. int MAX_PRIO - int i) [0..<MAX_PRIO]"

definition init_scheduler :: "sched_t \<Rightarrow> sched_t" where
  "init_scheduler s =
     s\<lparr>mlq_ready_queue := map (\<lambda>q. q\<lparr>q_size := 0\<rparr>) (mlq_ready_queue s),
       slot := full_slots,
       ready_queue := (ready_queue s)\<lparr>q_size := 0\<rparr>,
       run_queue := (run_queue s)\<lparr>q_size := 0\<rparr>,
       running_list := (running_list s)\<lparr>q_size := 0\<rparr>\<rparr>"

section \<open>Operations\<close>

definition level_empty :: "sched_t \<Rightarrow> nat \<Rightarrow> bool" where
  "level_empty s p = empty_queue (Some (mlq_ready_queue s ! p))"

text \<open>\<open>queue_empty\<close> returns \<open>-1\<close> as soon as one ready queue holds a process.\<close>

definition queue_empty :: "sched_t \<Rightarrow> int" where
  "queue_empty s =
     (if find (\<lambda>p. \<not> level_empty s p) [0..<MAX_PRIO] \<noteq> None then -1
      else if empty_queue (Some (ready_queue s)) \<and> empty_queue (Some (run_queue s)) then 1
      else 0)"

text \<open>\<open>proc = dequeue(&mlq_ready_queue[prio]); slot[prio]--;\<close>\<close>

definition take_from :: "sched_t \<Rightarrow> nat \<Rightarrow> pcb_ref option \<times> sched_t" where
  "take_from s p =
     (let (proc, q) = dequeue (mlq_ready_queue s ! p)
      in (proc, s\<lparr>mlq_ready_queue := (mlq_ready_queue s)[p := q],
                  slot := (slot s)[p := slot s ! p - 1]\<rparr>))"

text \<open>The first traversal: the first level that has budget left and a process.\<close>

definition mlq_pick :: "sched_t \<Rightarrow> nat option" where
  "mlq_pick s = find (\<lambda>p. 0 < slot s ! p \<and> \<not> level_empty s p) [0..<MAX_PRIO]"

text \<open>The retry: the first level that has a process, after all budgets were reset.\<close>

definition mlq_any :: "sched_t \<Rightarrow> nat option" where
  "mlq_any s = find (\<lambda>p. \<not> level_empty s p) [0..<MAX_PRIO]"

definition get_mlq_proc :: "sched_t \<Rightarrow> pcb_ref option \<times> sched_t" where
  "get_mlq_proc s =
     (let (proc, s1) =
        (case mlq_pick s of Some p \<Rightarrow> take_from s p | None \<Rightarrow> (None, s));
        (proc, s2) =
        (if proc \<noteq> None then (proc, s1)
         else case mlq_any s1 of
                None \<Rightarrow> (proc, s1)
              | Some _ \<Rightarrow>
                  let s1 = s1\<lparr>slot := full_slots\<rparr>
                  in (case mlq_any s1 of
                        Some p \<Rightarrow> take_from s1 p
                      | None \<Rightarrow> (proc, s1)))
      in if proc \<noteq> None then (proc, s2\<lparr>running_list := enqueue (running_list s2) proc\<rparr>)
         else (proc, s2))"

text \<open>\<open>put_mlq_proc\<close> and \<open>add_mlq_proc\<close> have the same effect on the queues: the process
  goes to the tail of the ready queue of its priority.  Neither touches \<open>running_list\<close>.
  A priority outside the array is an out-of-bounds access.\<close>

definition put_mlq_proc :: "sched_t \<Rightarrow> u32 \<Rightarrow> pcb_ref \<Rightarrow> fault + sched_t" where
  "put_mlq_proc s prio proc =
     bindR (get_at (mlq_ready_queue s) (unat prio)) (\<lambda>q.
     Inr (s\<lparr>mlq_ready_queue := (mlq_ready_queue s)[unat prio := enqueue q (Some proc)]\<rparr>))"

definition add_mlq_proc :: "sched_t \<Rightarrow> u32 \<Rightarrow> pcb_ref \<Rightarrow> fault + sched_t" where
  "add_mlq_proc s prio proc =
     bindR (get_at (mlq_ready_queue s) (unat prio)) (\<lambda>q.
     Inr (s\<lparr>mlq_ready_queue := (mlq_ready_queue s)[unat prio := enqueue q (Some proc)]\<rparr>))"

definition get_proc :: "sched_t \<Rightarrow> pcb_ref option \<times> sched_t" where
  "get_proc s = get_mlq_proc s"

definition put_proc :: "sched_t \<Rightarrow> u32 \<Rightarrow> pcb_ref \<Rightarrow> fault + sched_t" where
  "put_proc s prio proc = put_mlq_proc s prio proc"

definition add_proc :: "sched_t \<Rightarrow> u32 \<Rightarrow> pcb_ref \<Rightarrow> fault + sched_t" where
  "add_proc s prio proc = add_mlq_proc s prio proc"

definition remove_proc :: "sched_t \<Rightarrow> pcb_ref \<Rightarrow> sched_t" where
  "remove_proc s proc =
     s\<lparr>running_list := snd (purgequeue (running_list s) (Some proc))\<rparr>"
section \<open>Abstraction and invariant\<close>

definition level :: "sched_t \<Rightarrow> nat \<Rightarrow> pcb_ref list" where
  "level s p = queue_list (mlq_ready_queue s ! p)"

definition running :: "sched_t \<Rightarrow> pcb_ref list" where
  "running s = queue_list (running_list s)"

definition slots_ok :: "int list \<Rightarrow> bool" where
  "slots_ok sl \<longleftrightarrow> length sl = MAX_PRIO \<and> (\<forall>p<MAX_PRIO. 0 \<le> sl ! p \<and> sl ! p \<le> int MAX_PRIO - int p)"

definition sched_inv :: "sched_t \<Rightarrow> bool" where
  "sched_inv s \<longleftrightarrow> length (mlq_ready_queue s) = MAX_PRIO
     \<and> (\<forall>p<MAX_PRIO. queue_inv (mlq_ready_queue s ! p))
     \<and> queue_inv (running_list s) \<and> queue_inv (ready_queue s) \<and> queue_inv (run_queue s)
     \<and> slots_ok (slot s)"

text \<open>The policy: which level is served, and the budgets the service is charged to.\<close>

definition sched_choice :: "sched_t \<Rightarrow> (nat \<times> int list) option" where
  "sched_choice s =
     (case mlq_pick s of
        Some p \<Rightarrow> Some (p, slot s)
      | None \<Rightarrow> map_option (\<lambda>p. (p, full_slots)) (mlq_any s))"

lemma MAX_PRIO_pos: "0 < MAX_PRIO"
  by (simp add: MAX_PRIO_def)

lemma full_slots_nth: "p < MAX_PRIO \<Longrightarrow> full_slots ! p = int MAX_PRIO - int p"
  by (simp add: full_slots_def)

lemma length_full_slots [simp]: "length full_slots = MAX_PRIO"
  by (simp add: full_slots_def)

lemma slots_ok_full: "slots_ok full_slots"
  by (auto simp: slots_ok_def full_slots_nth)

lemma slots_ok_dec:
  "slots_ok sl \<Longrightarrow> p < MAX_PRIO \<Longrightarrow> 0 < sl ! p \<Longrightarrow> slots_ok (sl[p := sl ! p - 1])"
  by (auto simp: slots_ok_def nth_list_update)

lemma level_empty_iff:
  "sched_inv s \<Longrightarrow> p < MAX_PRIO \<Longrightarrow> level_empty s p \<longleftrightarrow> level s p = []"
  by (simp add: level_empty_def level_def empty_queue_iff sched_inv_def del: empty_queue.simps)

lemma queue_list_size0: "queue_list (q\<lparr>q_size := 0\<rparr>) = []"
  by (simp add: queue_list_def queue_items_def)

lemma queue_inv_size0: "queue_inv q \<Longrightarrow> queue_inv (q\<lparr>q_size := 0\<rparr>)"
  by (simp add: queue_inv_def queue_items_def)

lemma sched_inv_init: "sched_inv (init_scheduler zero_sched)"
  by (auto simp: sched_inv_def init_scheduler_def zero_sched_def slots_ok_full queue_inv_size0)

lemma mlq_pick_Some:
  assumes "sched_inv s" and "mlq_pick s = Some p"
  shows "p < MAX_PRIO" and "0 < slot s ! p" and "level s p \<noteq> []"
    and "\<And>q. q < p \<Longrightarrow> slot s ! q \<le> 0 \<or> level s q = []"
proof -
  from assms(2) have p: "p < MAX_PRIO" "0 < slot s ! p" "\<not> level_empty s p"
    and lt: "\<forall>q<p. \<not> (0 < slot s ! q \<and> \<not> level_empty s q)"
    by (auto simp: mlq_pick_def find_upt_Some)
  show "p < MAX_PRIO" "0 < slot s ! p" by fact+
  show "level s p \<noteq> []" using p assms(1) by (simp add: level_empty_iff)
  show "\<And>q. q < p \<Longrightarrow> slot s ! q \<le> 0 \<or> level s q = []"
    using lt p(1) assms(1) by (metis level_empty_iff less_trans not_less)
qed

lemma mlq_pick_None:
  assumes "sched_inv s" and "mlq_pick s = None" and "p < MAX_PRIO"
  shows "slot s ! p \<le> 0 \<or> level s p = []"
  using assms by (auto simp: mlq_pick_def find_upt_None level_empty_iff not_less)

lemma mlq_any_Some:
  assumes "sched_inv s" and "mlq_any s = Some p"
  shows "p < MAX_PRIO" and "level s p \<noteq> []" and "\<And>q. q < p \<Longrightarrow> level s q = []"
proof -
  from assms(2) have p: "p < MAX_PRIO" "\<not> level_empty s p" and lt: "\<forall>q<p. level_empty s q"
    by (auto simp: mlq_any_def find_upt_Some)
  show "p < MAX_PRIO" by fact
  show "level s p \<noteq> []" using p assms(1) by (simp add: level_empty_iff)
  show "\<And>q. q < p \<Longrightarrow> level s q = []"
    using lt p(1) assms(1) by (meson level_empty_iff less_trans)
qed

lemma mlq_any_None:
  "sched_inv s \<Longrightarrow> mlq_any s = None \<longleftrightarrow> (\<forall>p<MAX_PRIO. level s p = [])"
  by (auto simp: mlq_any_def find_upt_None level_empty_iff)

text \<open>What the choice guarantees: a non-empty level with budget, and why nothing above it
  could be served.\<close>

lemma sched_choice_Some:
  assumes "sched_inv s" and "sched_choice s = Some (p, sl)"
  shows "p < MAX_PRIO" and "level s p \<noteq> []" and "0 < sl ! p" and "slots_ok sl"
    and "\<And>q. q < p \<Longrightarrow> sl ! q \<le> 0 \<or> level s q = []"
  using assms mlq_pick_Some [OF assms(1)] mlq_any_Some [OF assms(1)] MAX_PRIO_pos
  by (auto simp: sched_choice_def slots_ok_full full_slots_nth sched_inv_def
      split: option.splits)

lemma sched_choice_None:
  assumes "sched_inv s"
  shows "sched_choice s = None \<longleftrightarrow> (\<forall>p<MAX_PRIO. level s p = [])"
  using assms mlq_pick_Some(1,3) [OF assms]
  by (auto simp: sched_choice_def mlq_any_None split: option.splits)

lemma mlq_any_slot [simp]: "mlq_any (s\<lparr>slot := sl\<rparr>) = mlq_any s"
  by (simp add: mlq_any_def level_empty_def)

section \<open>The dispatch function\<close>

lemma take_from_spec:
  assumes "sched_inv s" and "p < MAX_PRIO" and "level s p = r # rs"
  shows "take_from s p =
    (Some r, s\<lparr>mlq_ready_queue := (mlq_ready_queue s)[p := snd (dequeue (mlq_ready_queue s ! p))],
       slot := (slot s)[p := slot s ! p - 1]\<rparr>)"
  using assms dequeue_list(2) [of "mlq_ready_queue s ! p"]
  by (simp add: take_from_def level_def sched_inv_def case_prod_unfold Let_def)

lemma get_mlq_proc_eq:
  assumes inv: "sched_inv s"
  shows "get_mlq_proc s =
    (case sched_choice s of
       None \<Rightarrow> (None, s)
     | Some (p, sl) \<Rightarrow>
         (Some (hd (level s p)),
          s\<lparr>mlq_ready_queue := (mlq_ready_queue s)[p := snd (dequeue (mlq_ready_queue s ! p))],
            slot := sl[p := sl ! p - 1],
            running_list := enqueue (running_list s) (Some (hd (level s p)))\<rparr>))"
proof (cases "mlq_pick s")
  case (Some p)
  then obtain r rs where "p < MAX_PRIO" "level s p = r # rs"
    using mlq_pick_Some [OF inv Some] by (cases "level s p") auto
  with Some inv show ?thesis
    by (simp add: get_mlq_proc_def sched_choice_def take_from_spec Let_def)
next
  case None
  show ?thesis
  proof (cases "mlq_any s")
    case (Some p)
    then obtain r rs where p: "p < MAX_PRIO" "level s p = r # rs"
      using mlq_any_Some [OF inv Some] by (cases "level s p") auto
    have "sched_inv (s\<lparr>slot := full_slots\<rparr>)"
      using inv by (simp add: sched_inv_def slots_ok_full)
    moreover have "level (s\<lparr>slot := full_slots\<rparr>) p = r # rs" using p by (simp add: level_def)
    ultimately show ?thesis using None Some p
      by (simp add: get_mlq_proc_def sched_choice_def take_from_spec Let_def)
  next
    assume "mlq_any s = None"
    with None show ?thesis by (simp add: get_mlq_proc_def sched_choice_def Let_def)
  qed
qed

lemma get_mlq_proc_inv: "sched_inv s \<Longrightarrow> sched_inv (snd (get_mlq_proc s))"
proof (cases "sched_choice s")
  case None
  assume "sched_inv s"
  with None show ?thesis by (simp add: get_mlq_proc_eq)
next
  case (Some c)
  assume inv: "sched_inv s"
  obtain p sl where c: "c = (p, sl)" by (cases c)
  note ch = sched_choice_Some [OF inv Some [unfolded c]]
  show ?thesis using inv Some c ch slots_ok_dec [OF ch(4) ch(1) ch(3)]
    by (auto simp: get_mlq_proc_eq sched_inv_def nth_list_update enqueue_inv dequeue_inv)
qed

lemma get_mlq_proc_Some:
  assumes inv: "sched_inv s" and ch: "sched_choice s = Some (p, sl)"
  shows "fst (get_mlq_proc s) = Some (hd (level s p))"
    and "level (snd (get_mlq_proc s)) q = (if q = p then tl (level s p) else level s q)"
    and "slot (snd (get_mlq_proc s)) = sl[p := sl ! p - 1]"
    and "running (snd (get_mlq_proc s)) =
      (if length (running s) < MAX_QUEUE_SIZE then running s @ [hd (level s p)] else running s)"
  using assms sched_choice_Some(1) [OF assms]
  by (auto simp: get_mlq_proc_eq level_def running_def sched_inv_def nth_list_update
      dequeue_list enqueue_list)

lemma put_mlq_proc_eq:
  "sched_inv s \<Longrightarrow> unat prio < MAX_PRIO \<Longrightarrow> put_mlq_proc s prio r =
    Inr (s\<lparr>mlq_ready_queue := (mlq_ready_queue s)
       [unat prio := enqueue (mlq_ready_queue s ! unat prio) (Some r)]\<rparr>)"
  by (simp add: put_mlq_proc_def sched_inv_def)

lemma put_mlq_proc_Inr:
  assumes inv: "sched_inv s" and put: "put_mlq_proc s prio r = Inr t"
  shows "unat prio < MAX_PRIO" and "sched_inv t" and "slot t = slot s" and "running t = running s"
    and "level t q = (if q = unat prio \<and> length (level s q) < MAX_QUEUE_SIZE
                      then level s q @ [r] else level s q)"
proof -
  show p: "unat prio < MAX_PRIO"
    using inv put by (auto simp: put_mlq_proc_def res_simps sched_inv_def)
  note t = put [unfolded put_mlq_proc_eq [OF inv p]]
  show "sched_inv t" "slot t = slot s" "running t = running s"
    "level t q = (if q = unat prio \<and> length (level s q) < MAX_QUEUE_SIZE
                  then level s q @ [r] else level s q)"
    using t inv p
    by (auto simp: sched_inv_def nth_list_update enqueue_inv enqueue_list level_def running_def)
qed

lemma remove_proc_facts:
  assumes "sched_inv s"
  shows "sched_inv (remove_proc s r)" and "level (remove_proc s r) q = level s q"
    and "slot (remove_proc s r) = slot s" and "running (remove_proc s r) = remove1 r (running s)"
  using assms by (auto simp: remove_proc_def sched_inv_def level_def running_def purge_inv purge_list)

section \<open>Runs of the scheduler\<close>

text \<open>The calls that CPUs and the loader make, in the order in which \<open>queue_lock\<close> admits
  them; a run returns the dispatched processes.\<close>

datatype sched_op = Get | Put u32 pcb_ref | Add u32 pcb_ref | Remove pcb_ref

fun sched_step :: "sched_t \<Rightarrow> sched_op \<Rightarrow> fault + pcb_ref option \<times> sched_t" where
  "sched_step s Get = Inr (get_proc s)"
| "sched_step s (Put prio r) = bindR (put_proc s prio r) (\<lambda>t. Inr (None, t))"
| "sched_step s (Add prio r) = bindR (add_proc s prio r) (\<lambda>t. Inr (None, t))"
| "sched_step s (Remove r) = Inr (None, remove_proc s r)"

fun sched_run :: "sched_t \<Rightarrow> sched_op list \<Rightarrow> fault + pcb_ref list \<times> sched_t" where
  "sched_run s [] = Inr ([], s)"
| "sched_run s (a # as) =
     bindR (sched_step s a) (\<lambda>(r, s1).
     bindR (sched_run s1 as) (\<lambda>(rs, s2).
     Inr ((case r of None \<Rightarrow> rs | Some p \<Rightarrow> p # rs), s2)))"

fun gets :: "sched_op list \<Rightarrow> nat" where
  "gets [] = 0"
| "gets (Get # as) = Suc (gets as)"
| "gets (_ # as) = gets as"

lemma add_mlq_proc_eq_put: "add_mlq_proc s prio r = put_mlq_proc s prio r"
  by (simp add: add_mlq_proc_def put_mlq_proc_def)

lemmas sched_ops = get_proc_def put_proc_def add_proc_def add_mlq_proc_eq_put

lemma sched_step_inv:
  "sched_inv s \<Longrightarrow> sched_step s a = Inr (r, t) \<Longrightarrow> sched_inv t"
  using get_mlq_proc_inv [of s]
  by (cases a) (auto simp: sched_ops res_simps remove_proc_facts dest: put_mlq_proc_Inr(2))

lemma sched_run_inv:
  "sched_inv s \<Longrightarrow> sched_run s as = Inr (rs, t) \<Longrightarrow> sched_inv t"
proof (induction as arbitrary: s rs)
  case Nil
  then show ?case by simp
next
  case (Cons a as)
  from Cons.prems obtain r s1 rs' where "sched_step s a = Inr (r, s1)" "sched_run s1 as = Inr (rs', t)"
    by (auto simp: res_simps)
  with Cons.IH sched_step_inv [OF Cons.prems(1)] show ?case by blast
qed

section \<open>Bounded waiting\<close>

text \<open>The number of dispatches that can happen before the head of level \<open>p\<close> is served.\<close>

definition wait_bound :: "sched_t \<Rightarrow> nat \<Rightarrow> int" where
  "wait_bound s p =
     (if 0 < slot s ! p then (\<Sum>q<p. slot s ! q)
      else (\<Sum>q<MAX_PRIO. slot s ! q) + (\<Sum>q<p. int MAX_PRIO - int q))"

lemma slots_sum_nonneg: "slots_ok sl \<Longrightarrow> n \<le> MAX_PRIO \<Longrightarrow> 0 \<le> (\<Sum>q<n. sl ! q)"
  by (intro sum_nonneg) (auto simp: slots_ok_def)

lemma slots_sum_dec:
  assumes "k < n" and "n \<le> length sl"
  shows "(\<Sum>q<n. sl[k := sl ! k - 1] ! q) = (\<Sum>q<n. sl ! q) - (1::int)"
proof -
  have "(\<Sum>q<n. sl[k := sl ! k - 1] ! q) = (\<Sum>q<n. sl ! q - (if q = k then 1 else 0))"
    using assms by (intro sum.cong) (auto simp: nth_list_update)
  also have "\<dots> = (\<Sum>q<n. sl ! q) - 1" using assms by (simp add: sum_subtractf)
  finally show ?thesis .
qed

lemma full_slots_sum: "p \<le> MAX_PRIO \<Longrightarrow> (\<Sum>q<p. full_slots ! q) = (\<Sum>q<p. int MAX_PRIO - int q)"
  by (intro sum.cong) (auto simp: full_slots_nth)

lemma wait_bound_nonneg:
  assumes "sched_inv s" and "p < MAX_PRIO"
  shows "0 \<le> wait_bound s p"
proof -
  have "0 \<le> (\<Sum>q<p. int MAX_PRIO - int q)" using assms(2) by (intro sum_nonneg) auto
  then show ?thesis using assms slots_sum_nonneg [of "slot s"]
    by (auto simp: wait_bound_def sched_inv_def)
qed

lemma get_progress:
  assumes inv: "sched_inv s" and p: "p < MAX_PRIO" and lv: "level s p = r # rs"
    and other: "fst (get_mlq_proc s) \<noteq> Some r"
  shows "level (snd (get_mlq_proc s)) p = r # rs"
    and "wait_bound (snd (get_mlq_proc s)) p < wait_bound s p"
proof -
  obtain k sl where ch: "sched_choice s = Some (k, sl)"
    using sched_choice_None [OF inv] p lv by (cases "sched_choice s") auto
  note k = sched_choice_Some [OF inv ch] and gs = get_mlq_proc_Some [OF inv ch]
  have kp: "k \<noteq> p" using other gs(1) lv by auto
  then show "level (snd (get_mlq_proc s)) p = r # rs" using gs(2) [of p] lv by simp
  have len: "length sl = MAX_PRIO" using k(4) by (simp add: slots_ok_def)
  have sums: "\<And>n. k < n \<Longrightarrow> n \<le> MAX_PRIO \<Longrightarrow>
      (\<Sum>q<n. sl[k := sl ! k - 1] ! q) = (\<Sum>q<n. sl ! q) - 1"
    using len by (simp add: slots_sum_dec)
  have below: "0 < sl ! p \<Longrightarrow> k < p" using k(5) [of p] kp lv by (cases "p < k") auto
  show "wait_bound (snd (get_mlq_proc s)) p < wait_bound s p"
  proof (cases "mlq_pick s")
    case (Some k')
    then have sl: "sl = slot s" using ch by (simp add: sched_choice_def)
    show ?thesis using sums [of p] sums [of MAX_PRIO] below k(1) p kp
      by (auto simp: wait_bound_def gs(3) sl)
  next
    case None
    then have sl: "sl = full_slots" using ch by (auto simp: sched_choice_def)
    have "slot s ! p \<le> 0" using mlq_pick_None [OF inv None p] lv by simp
    moreover have "0 < sl ! p" using p by (simp add: sl full_slots_nth)
    moreover have "0 \<le> (\<Sum>q<MAX_PRIO. slot s ! q)"
      using inv slots_sum_nonneg [of "slot s" MAX_PRIO] by (simp add: sched_inv_def)
    ultimately show ?thesis using sums [of p] below p kp full_slots_sum [of p]
      by (simp add: wait_bound_def gs(3) sl)
  qed
qed

lemma put_keeps_waiting:
  assumes "sched_inv s" and "put_mlq_proc s prio x = Inr t" and "level s p = r # rs"
  shows "\<exists>rs'. level t p = r # rs'" and "wait_bound t p = wait_bound s p"
  using put_mlq_proc_Inr [OF assms(1,2)] assms(3) by (auto simp: wait_bound_def)

lemma bounded_wait:
  assumes "sched_inv s" and "p < MAX_PRIO" and "level s p = r # rs"
    and "sched_run s as = Inr (out, t)" and "wait_bound s p < int (gets as)"
  shows "r \<in> set out"
  using assms
proof (induction as arbitrary: s rs out)
  case Nil
  then show ?case using wait_bound_nonneg [of s p] by simp
next
  case (Cons a as)
  from Cons.prems(4) obtain x s1 out1 where st: "sched_step s a = Inr (x, s1)"
    and run: "sched_run s1 as = Inr (out1, t)"
    and out: "out = (case x of None \<Rightarrow> out1 | Some p \<Rightarrow> p # out1)"
    by (auto simp: res_simps)
  have inv1: "sched_inv s1" using sched_step_inv [OF Cons.prems(1) st] .
  have "r \<in> set out1 \<or> x = Some r"
  proof (cases "a = Get \<and> x = Some r")
    case False
    note put = put_keeps_waiting [OF Cons.prems(1) _ Cons.prems(3)]
    have "(\<exists>rs'. level s1 p = r # rs') \<and> wait_bound s1 p < int (gets as)"
    proof (cases a)
      case Get
      then have "s1 = snd (get_mlq_proc s)" "fst (get_mlq_proc s) \<noteq> Some r"
        using st False by (auto simp: get_proc_def)
      then show ?thesis using get_progress [OF Cons.prems(1,2,3)] Cons.prems(5) Get by simp
    next
      case (Put prio y)
      then have "put_mlq_proc s prio y = Inr s1" using st by (auto simp: sched_ops res_simps)
      then show ?thesis using put Put Cons.prems(5) by simp
    next
      case (Add prio y)
      then have "put_mlq_proc s prio y = Inr s1" using st by (auto simp: sched_ops res_simps)
      then show ?thesis using put Add Cons.prems(5) by simp
    next
      case (Remove y)
      then show ?thesis
        using st Cons.prems remove_proc_facts [OF Cons.prems(1)] by (auto simp: wait_bound_def)
    qed
    then show ?thesis using Cons.IH [OF inv1 Cons.prems(2) _ run] by blast
  qed auto
  then show ?case using out by (auto split: option.splits)
qed

section \<open>Conservation of processes\<close>

definition ready_mset :: "sched_t \<Rightarrow> pcb_ref multiset" where
  "ready_mset s = (\<Sum>p<MAX_PRIO. mset (level s p))"

fun added :: "sched_op list \<Rightarrow> pcb_ref list" where
  "added [] = []"
| "added (Put prio r # as) = r # added as"
| "added (Add prio r # as) = r # added as"
| "added (_ # as) = added as"

lemma sum_level_update:
  assumes "p < MAX_PRIO" and "\<And>q. q \<noteq> p \<Longrightarrow> level t q = level s q"
  shows "ready_mset t + mset (level s p) = ready_mset s + mset (level t p)"
proof -
  have "ready_mset u = mset (level u p) + (\<Sum>q\<in>{..<MAX_PRIO} - {p}. mset (level u q))" for u
    using assms(1) by (simp add: ready_mset_def sum.remove)
  moreover have "(\<Sum>q\<in>{..<MAX_PRIO} - {p}. mset (level t q)) =
      (\<Sum>q\<in>{..<MAX_PRIO} - {p}. mset (level s q))"
    using assms(2) by (intro sum.cong) auto
  ultimately show ?thesis by (simp add: ac_simps)
qed

lemma get_mlq_proc_conserves:
  assumes inv: "sched_inv s"
  shows "ready_mset s = mset (case fst (get_mlq_proc s) of None \<Rightarrow> [] | Some r \<Rightarrow> [r])
           + ready_mset (snd (get_mlq_proc s))"
proof (cases "sched_choice s")
  case None
  then show ?thesis by (simp add: get_mlq_proc_eq inv)
next
  case (Some c)
  obtain p sl where c: "c = (p, sl)" by (cases c)
  note k = sched_choice_Some [OF inv Some [unfolded c]]
    and gs = get_mlq_proc_Some [OF inv Some [unfolded c]]
  obtain r rs where lv: "level s p = r # rs" using k(2) by (cases "level s p") auto
  have "ready_mset (snd (get_mlq_proc s)) + mset (r # rs) = ready_mset s + mset rs"
    using sum_level_update [OF k(1), of "snd (get_mlq_proc s)" s] gs(2) lv by simp
  then have "add_mset r (ready_mset (snd (get_mlq_proc s))) + mset rs = ready_mset s + mset rs"
    by simp
  then have "add_mset r (ready_mset (snd (get_mlq_proc s))) = ready_mset s"
    by (rule add_right_imp_eq)
  then show ?thesis using gs(1) lv by simp
qed

lemma put_mlq_proc_conserves:
  assumes inv: "sched_inv s" and put: "put_mlq_proc s prio r = Inr t"
    and room: "length (level s (unat prio)) < MAX_QUEUE_SIZE"
  shows "ready_mset t = add_mset r (ready_mset s)"
proof -
  note pt = put_mlq_proc_Inr [OF inv put]
  have "ready_mset t + mset (level s (unat prio))
      = add_mset r (ready_mset s) + mset (level s (unat prio))"
    using sum_level_update [OF pt(1), of t s] pt(5) room by simp
  then show ?thesis by (rule add_right_imp_eq)
qed

lemma level_size_ready: "p < MAX_PRIO \<Longrightarrow> length (level s p) \<le> size (ready_mset s)"
  by (simp add: ready_mset_def sum.remove size_mset [symmetric] del: size_mset)

lemma run_conserves:
  assumes "sched_inv s" and "sched_run s ops = Inr (out, t)"
    and "size (ready_mset s) + length (added ops) \<le> MAX_QUEUE_SIZE"
  shows "ready_mset s + mset (added ops) = mset out + ready_mset t"
  using assms
proof (induction ops arbitrary: s out)
  case Nil
  then show ?case by simp
next
  case (Cons a as)
  from Cons.prems(2) obtain x s1 out1 where st: "sched_step s a = Inr (x, s1)"
    and run: "sched_run s1 as = Inr (out1, t)"
    and out: "out = (case x of None \<Rightarrow> out1 | Some p \<Rightarrow> p # out1)"
    by (auto simp: res_simps)
  have inv1: "sched_inv s1" using sched_step_inv [OF Cons.prems(1) st] .
  note IH = Cons.IH [OF inv1 run]
  have put: "ready_mset s1 = add_mset y (ready_mset s)"
    if "put_mlq_proc s prio y = Inr s1" and "Suc (size (ready_mset s)) \<le> MAX_QUEUE_SIZE" for prio y
    using that put_mlq_proc_conserves [OF Cons.prems(1) that(1)]
      put_mlq_proc_Inr(1) [OF Cons.prems(1) that(1)] level_size_ready [of "unat prio" s] by simp
  show ?case
  proof (cases a)
    case Get
    then have "s1 = snd (get_mlq_proc s)" "x = fst (get_mlq_proc s)"
      using st by (auto simp: get_proc_def)
    then have "ready_mset s = mset (case x of None \<Rightarrow> [] | Some r \<Rightarrow> [r]) + ready_mset s1"
      using get_mlq_proc_conserves [OF Cons.prems(1)] by simp
    then show ?thesis using IH Get out Cons.prems(3) by (auto split: option.splits)
  next
    case (Put prio y)
    then have "put_mlq_proc s prio y = Inr s1" "x = None" using st by (auto simp: sched_ops res_simps)
    then show ?thesis using put [of prio y] IH Put out Cons.prems(3) by simp
  next
    case (Add prio y)
    then have "put_mlq_proc s prio y = Inr s1" "x = None" using st by (auto simp: sched_ops res_simps)
    then show ?thesis using put [of prio y] IH Add out Cons.prems(3) by simp
  next
    case (Remove y)
    then have "ready_mset s1 = ready_mset s" "x = None"
      using st remove_proc_facts [OF Cons.prems(1)] by (auto simp: ready_mset_def)
    then show ?thesis using IH Remove out Cons.prems(3) by simp
  qed
qed

section \<open>Preemption cycles and the running list\<close>

text \<open>A process that is preempted at the end of its time slot and dispatched again.\<close>

fun preempt_cycles :: "nat \<Rightarrow> u32 \<Rightarrow> pcb_ref \<Rightarrow> sched_op list" where
  "preempt_cycles 0 prio r = []"
| "preempt_cycles (Suc n) prio r = Get # Put prio r # preempt_cycles n prio r"

definition only_ready :: "sched_t \<Rightarrow> nat \<Rightarrow> pcb_ref \<Rightarrow> bool" where
  "only_ready s p r \<longleftrightarrow> (\<forall>q<MAX_PRIO. level s q = (if q = p then [r] else []))"

lemma only_ready_get:
  assumes inv: "sched_inv s" and p: "p < MAX_PRIO" and only: "only_ready s p r"
  shows "fst (get_mlq_proc s) = Some r"
    and "\<And>q. q < MAX_PRIO \<Longrightarrow> level (snd (get_mlq_proc s)) q = []"
    and "running (snd (get_mlq_proc s)) =
      (if length (running s) < MAX_QUEUE_SIZE then running s @ [r] else running s)"
proof -
  obtain k sl where ch: "sched_choice s = Some (k, sl)"
    using sched_choice_None [OF inv] p only by (cases "sched_choice s") (auto simp: only_ready_def)
  have kp: "k = p" using sched_choice_Some(1,2) [OF inv ch] only by (auto simp: only_ready_def split: if_splits)
  show "fst (get_mlq_proc s) = Some r"
    and "\<And>q. q < MAX_PRIO \<Longrightarrow> level (snd (get_mlq_proc s)) q = []"
    and "running (snd (get_mlq_proc s)) =
      (if length (running s) < MAX_QUEUE_SIZE then running s @ [r] else running s)"
    using get_mlq_proc_Some [OF inv ch] only p by (auto simp: kp only_ready_def)
qed

lemma put_sets_only_ready:
  assumes "sched_inv s" and "unat prio < MAX_PRIO" and "\<And>q. q < MAX_PRIO \<Longrightarrow> level s q = []"
  obtains t where "put_mlq_proc s prio r = Inr t" and "sched_inv t"
    and "only_ready t (unat prio) r" and "running t = running s"
proof -
  obtain t where t: "put_mlq_proc s prio r = Inr t" using put_mlq_proc_eq [OF assms(1,2)] by auto
  show ?thesis using that [OF t] put_mlq_proc_Inr [OF assms(1) t] assms(3)
    by (simp add: only_ready_def MAX_QUEUE_SIZE_def)
qed

lemma preempt_cycles_run:
  assumes "sched_inv s" and "unat prio < MAX_PRIO" and "only_ready s (unat prio) r"
    and "length (running s) + n \<le> MAX_QUEUE_SIZE"
  shows "\<exists>t. sched_run s (preempt_cycles n prio r) = Inr (replicate n r, t)
    \<and> sched_inv t \<and> only_ready t (unat prio) r \<and> running t = running s @ replicate n r"
  using assms
proof (induction n arbitrary: s)
  case 0
  then show ?case by simp
next
  case (Suc n)
  note g = only_ready_get [OF Suc.prems(1-3)]
  obtain t where t: "put_mlq_proc (snd (get_mlq_proc s)) prio r = Inr t" "sched_inv t"
    "only_ready t (unat prio) r" "running t = running (snd (get_mlq_proc s))"
    using put_sets_only_ready [OF get_mlq_proc_inv [OF Suc.prems(1)] Suc.prems(2) g(2)] .
  have run: "running t = running s @ [r]" using t(4) g(3) Suc.prems(4) by simp
  obtain u where "sched_run t (preempt_cycles n prio r) = Inr (replicate n r, u)"
    "sched_inv u" "only_ready u (unat prio) r" "running u = running t @ replicate n r"
    using Suc.IH [OF t(2) Suc.prems(2) t(3)] run Suc.prems(4) by auto
  moreover have "sched_step s Get = Inr (Some r, snd (get_mlq_proc s))"
    using g(1) by (simp add: get_proc_def prod_eq_iff)
  ultimately show ?case using t(1) run by (simp add: put_proc_def)
qed

lemma sched_run_append:
  "sched_run s (xs @ ys) = bindR (sched_run s xs) (\<lambda>(out1, s1).
     bindR (sched_run s1 ys) (\<lambda>(out2, s2). Inr (out1 @ out2, s2)))"
proof (induction xs arbitrary: s)
  case Nil
  show ?case by (cases "sched_run s ys") auto
next
  case (Cons a xs)
  show ?case
    by (cases "sched_step s a")
       (auto simp: Cons.IH bindR_def split: sum.splits option.splits)
qed

lemma init_scheduler_facts:
  "p < MAX_PRIO \<Longrightarrow> level (init_scheduler zero_sched) p = []"
  "running (init_scheduler zero_sched) = []"
  by (simp_all add: level_def running_def init_scheduler_def zero_sched_def queue_list_size0)

section \<open>Properties\<close>

text \<open>C13: the dispatch function on every branch.  Nothing is returned exactly when all 140
  ready queues are empty, and then the state is unchanged.  Otherwise the head of a
  non-empty level \<open>p\<close> with budget is dispatched, every level above \<open>p\<close> is empty or has no
  budget left, the level loses its head and one unit of budget, all budgets were reset
  first exactly when no non-empty level had budget, and the process is appended to the
  running list (if that has room).\<close>

theorem get_proc_dispatch:
  assumes "sched_inv s"
  shows "case sched_choice s of
      None \<Rightarrow> get_proc s = (None, s) \<and> (\<forall>p<MAX_PRIO. level s p = [])
    | Some (p, sl) \<Rightarrow>
        (\<exists>r rs. level s p = r # rs \<and> fst (get_proc s) = Some r
          \<and> level (snd (get_proc s)) = (level s)(p := rs)
          \<and> slot (snd (get_proc s)) = sl[p := sl ! p - 1]
          \<and> running (snd (get_proc s)) =
              (if length (running s) < MAX_QUEUE_SIZE then running s @ [r] else running s))
        \<and> p < MAX_PRIO \<and> 0 < sl ! p
        \<and> (\<forall>q<p. level s q = [] \<or> sl ! q = 0)
        \<and> sl = (if \<exists>q<MAX_PRIO. level s q \<noteq> [] \<and> 0 < slot s ! q then slot s else full_slots)"
proof (cases "sched_choice s")
  case None
  then show ?thesis using sched_choice_None [OF assms]
    by (simp add: get_proc_def get_mlq_proc_eq assms)
next
  case (Some c)
  obtain p sl where c: "c = (p, sl)" by (cases c)
  note ch = Some [unfolded c]
  note k = sched_choice_Some [OF assms ch] and gs = get_mlq_proc_Some [OF assms ch]
  have "sl = (if \<exists>q<MAX_PRIO. level s q \<noteq> [] \<and> 0 < slot s ! q then slot s else full_slots)"
    using ch mlq_pick_Some [OF assms] mlq_pick_None [OF assms]
    by (cases "mlq_pick s") (fastforce simp: sched_choice_def)+
  moreover have "\<forall>q<p. level s q = [] \<or> sl ! q = 0"
  proof (intro allI impI)
    fix q
    assume "q < p"
    with k(1,4) have "0 \<le> sl ! q" by (simp add: slots_ok_def)
    with k(5) [OF \<open>q < p\<close>] show "level s q = [] \<or> sl ! q = 0" by auto
  qed
  moreover obtain r rs where "level s p = r # rs" using k(2) by (cases "level s p") auto
  ultimately show ?thesis using ch k gs by (auto simp: get_proc_def)
qed

text \<open>C29: the scheduler invariant (140 well-formed queues, budgets between 0 and
  \<open>140 - prio\<close>) holds after \<open>init_scheduler\<close> and along every sequence of scheduler calls.\<close>

theorem sched_run_invariant:
  assumes "sched_run (init_scheduler zero_sched) ops = Inr (out, t)"
  shows "sched_inv t"
  using sched_run_inv [OF sched_inv_init assms] .

text \<open>C16: bounded waiting.  The process at the head of level \<open>p\<close> is dispatched within
  \<open>wait_bound s p + 1\<close> dispatches, whatever else is put, added or removed meanwhile: the
  budget of the levels above \<open>p\<close> if \<open>p\<close> has budget, else all remaining budget plus a fresh
  budget of the levels above.\<close>

theorem get_proc_bounded_waiting:
  assumes "sched_inv s" and "p < MAX_PRIO" and "level s p = r # rs"
    and "sched_run s ops = Inr (out, t)" and "wait_bound s p < int (gets ops)"
  shows "r \<in> set out"
  using bounded_wait [OF assms] .

text \<open>C27: no process is lost or duplicated by dispatching and requeueing, as long as at most
  50 processes are involved: what was ready plus what was put or added is what was
  dispatched plus what is still ready.\<close>

theorem scheduler_conserves_processes:
  assumes "sched_inv s" and "sched_run s ops = Inr (out, t)"
    and "size (ready_mset s) + length (added ops) \<le> MAX_QUEUE_SIZE"
  shows "ready_mset s + mset (added ops) = mset out + ready_mset t"
  using run_conserves [OF assms] .

text \<open>A process put on a level that already holds 50 processes is lost: the call returns
  normally and leaves the scheduler as it was.\<close>

theorem put_proc_full_level_drops:
  assumes "sched_inv s" and "unat prio < MAX_PRIO"
    and "length (level s (unat prio)) = MAX_QUEUE_SIZE"
  shows "put_proc s prio r = Inr s"
proof -
  have "q_size (mlq_ready_queue s ! unat prio) = MAX_QUEUE_SIZE"
    using assms by (simp add: level_def length_queue_list sched_inv_def)
  then show ?thesis using assms(1,2)
    by (simp add: put_proc_def put_mlq_proc_eq enqueue_def)
qed

text \<open>The running list is not the list of running processes.  A process of priority
  \<open>prio\<close> that is preempted \<open>n\<close> times, dispatched once more and then finishes (so that
  \<open>remove_proc\<close> is called for it) stays in the running list \<open>n\<close> times, although no process
  is left in the system.\<close>

theorem running_list_keeps_finished:
  assumes "unat prio < MAX_PRIO" and "n < MAX_QUEUE_SIZE"
  shows "\<exists>t. sched_run (init_scheduler zero_sched)
      (Add prio r # preempt_cycles n prio r @ [Get, Remove r]) = Inr (replicate (Suc n) r, t)
    \<and> running t = replicate n r \<and> (\<forall>q<MAX_PRIO. level t q = [])"
proof -
  obtain s1 where s1: "put_mlq_proc (init_scheduler zero_sched) prio r = Inr s1" "sched_inv s1"
    "only_ready s1 (unat prio) r" "running s1 = []"
    using put_sets_only_ready [OF sched_inv_init assms(1)] init_scheduler_facts by metis
  obtain s2 where s2: "sched_run s1 (preempt_cycles n prio r) = Inr (replicate n r, s2)"
    "sched_inv s2" "only_ready s2 (unat prio) r" "running s2 = replicate n r"
    using preempt_cycles_run [OF s1(2) assms(1) s1(3), of n] s1(4) assms(2) by auto
  note g = only_ready_get [OF s2(2) assms(1) s2(3)]
  obtain s3 where s3: "get_mlq_proc s2 = (Some r, s3)" using g(1) by (cases "get_mlq_proc s2") auto
  have "running s3 = replicate (Suc n) r"
    using g(3) s2(4) assms(2) s3 by (simp add: replicate_append_same)
  moreover have inv3: "sched_inv s3" using get_mlq_proc_inv [OF s2(2)] s3 by simp
  ultimately have "running (remove_proc s3 r) = replicate n r"
    using remove_proc_facts(4) [OF inv3, of r] by simp
  then show ?thesis
    using s1(1) s2(1) g(2) s3 remove_proc_facts(2) [OF inv3, of r]
    by (simp add: sched_run_append sched_ops replicate_append_same)
qed

text \<open>A scheduler with one process of priority 0 ready, and one whose level 0 is full, for
  the witnesses.\<close>

definition demo_sched :: sched_t where
  "demo_sched = (case add_proc (init_scheduler zero_sched) 0 3 of Inr t \<Rightarrow> t | Inl _ \<Rightarrow> zero_sched)"

definition demo_full :: sched_t where
  "demo_full = (init_scheduler zero_sched)
     \<lparr>mlq_ready_queue := (mlq_ready_queue (init_scheduler zero_sched))
        [0 := \<lparr>q_proc = replicate MAX_QUEUE_SIZE (Some 4), q_size = MAX_QUEUE_SIZE\<rparr>]\<rparr>"

lemma demo_sched_inv: "sched_inv demo_sched" and demo_sched_level: "level demo_sched 0 = [3]"
proof -
  obtain t where t: "put_mlq_proc (init_scheduler zero_sched) 0 3 = Inr t"
    using put_mlq_proc_eq [OF sched_inv_init, of 0 3] by (auto simp: MAX_PRIO_def)
  then show "sched_inv demo_sched" "level demo_sched 0 = [3]"
    using put_mlq_proc_Inr [OF sched_inv_init t] init_scheduler_facts
    by (simp_all add: demo_sched_def sched_ops MAX_PRIO_def MAX_QUEUE_SIZE_def)
qed

lemma demo_full_inv: "sched_inv demo_full" and demo_full_level: "length (level demo_full 0) = MAX_QUEUE_SIZE"
  using sched_inv_init
  by (auto simp: sched_inv_def demo_full_def nth_list_update level_def queue_inv_def
      queue_items_def queue_list_def MAX_PRIO_def)

lemma demo_sched_choice: "sched_choice demo_sched = Some (0, slot demo_sched)"
proof -
  have "mlq_pick demo_sched = Some 0" by code_simp
  then show ?thesis by (simp add: sched_choice_def)
qed

lemma demo_sched_run: "\<exists>t. sched_run demo_sched [Get] = Inr ([3], t)"
  using get_mlq_proc_Some(1) [OF demo_sched_inv demo_sched_choice] demo_sched_level
  by (cases "get_mlq_proc demo_sched") (simp add: get_proc_def)

theorem get_proc_dispatch_witness:
  "fst (get_proc demo_sched) = Some 3 \<and> level (snd (get_proc demo_sched)) 0 = []"
  using get_proc_dispatch [OF demo_sched_inv] demo_sched_level
  by (simp add: demo_sched_choice)

theorem sched_run_invariant_witness:
  "\<exists>t. sched_run (init_scheduler zero_sched) [Add 0 3] = Inr ([], t) \<and> sched_inv t"
proof -
  have "sched_run (init_scheduler zero_sched) [Add 0 3] = Inr ([], demo_sched)"
    by code_simp
  then show ?thesis using sched_run_invariant by blast
qed

theorem get_proc_bounded_waiting_witness:
  "\<exists>out t. sched_run demo_sched [Get] = Inr (out, t) \<and> 3 \<in> set out"
proof -
  have "wait_bound demo_sched 0 = 0" by code_simp
  then show ?thesis
    using demo_sched_run get_proc_bounded_waiting [OF demo_sched_inv MAX_PRIO_pos demo_sched_level]
    by fastforce
qed

theorem scheduler_conserves_processes_witness:
  "\<exists>t. sched_run demo_sched [Get] = Inr ([3], t) \<and> ready_mset demo_sched = {#3#} + ready_mset t"
proof -
  have "size (ready_mset demo_sched) \<le> MAX_QUEUE_SIZE" by code_simp
  then show ?thesis
    using demo_sched_run scheduler_conserves_processes [OF demo_sched_inv, of "[Get]"]
    by fastforce
qed

theorem put_proc_full_level_drops_witness: "put_proc demo_full 0 9 = Inr demo_full"
  using put_proc_full_level_drops [OF demo_full_inv, of 0] demo_full_level
  by (simp add: MAX_PRIO_def)

theorem running_list_keeps_finished_witness:
  "\<exists>t. sched_run (init_scheduler zero_sched)
      (Add 1 7 # preempt_cycles 2 1 7 @ [Get, Remove 7]) = Inr ([7, 7, 7], t)
    \<and> running t = [7, 7]"
  using running_list_keeps_finished [of 1 2 7]
  by (auto simp: MAX_PRIO_def MAX_QUEUE_SIZE_def numeral_2_eq_2)

end
