(* ===== verification/OS_State.thy ===== *)
theory OS_State
  imports OS_Region OS_Sched
begin

text \<open>
  The whole state: process control blocks, their \<open>mm_struct\<close> objects and the memory devices
  live in stores and are named by their position; \<open>krnl_t\<close> (there is one, the static \<open>os\<close> of
  \<open>os.c\<close>, that every \<open>pcb->krnl\<close> points to) holds the pointers.  \<open>load_caller\<close> collects what
  a memory function reaches through its \<open>caller\<close> argument and \<open>store_caller\<close> writes it back,
  so that the functions of \<open>OS_Mm\<close> and \<open>OS_Region\<close> run on one process of this state.  Fields
  that no compiled function reads (\<open>regs\<close>, \<open>page_table\<close>, \<open>bp\<close>, \<open>path\<close>, the kernel page
  directories, \<open>mswp\<close>) are left out.
\<close>

section \<open>State\<close>

datatype ins_opcode_t = CALC | ALLOC | FREE | READ | WRITE | KMALLOC | KMEM_CACHE_CREATE
  | KMEM_CACHE_ALLOC | COPY_FROM_USER | COPY_TO_USER | SYSCALL

record inst_t =
  opcode :: ins_opcode_t
  arg_0 :: u64
  arg_1 :: u64
  arg_2 :: u64
  arg_3 :: u64

record code_seg_t =
  code_text :: "inst_t list"
  code_size :: u32

record pcb_t =
  pid :: u32
  priority :: u32
  code :: code_seg_t
  pc :: u32
  prio :: u32
  pcb_mm :: "mm_ref option"

text \<open>\<open>k_running\<close>: whether \<open>krnl->running_list\<close> has been set to the scheduler's list.\<close>

record os_t =
  pcbs :: "pcb_t list"
  mms :: "mm list"
  devs :: "memphy list"
  k_mm :: "mm_ref option"
  k_mram :: "dev_ref option"
  k_active_mswp :: "dev_ref option"
  k_running :: bool
  sched :: sched_t

section \<open>The view of one process\<close>

text \<open>A \<open>NULL\<close> device: reads and writes return \<open>-1\<close>, and taking a frame faults.\<close>

definition null_device :: memphy where
  "null_device = \<lparr>storage = [], maxsz = 0, rdmflg = 0, cursor = 0, free_fp_list = Fp_wild, used_fp_list = []\<rparr>"

definition device :: "os_t \<Rightarrow> dev_ref option \<Rightarrow> memphy" where
  "device s d = (case d of None \<Rightarrow> null_device | Some i \<Rightarrow> devs s ! i)"

definition set_device :: "dev_ref option \<Rightarrow> memphy \<Rightarrow> memphy list \<Rightarrow> memphy list" where
  "set_device d mp ds = (case d of None \<Rightarrow> ds | Some i \<Rightarrow> ds[i := mp])"

definition proc_mm :: "os_t \<Rightarrow> pcb_ref \<Rightarrow> mm option" where
  "proc_mm s p = map_option (\<lambda>m. mms s ! m) (pcb_mm (pcbs s ! p))"

definition load_caller :: "os_t \<Rightarrow> pcb_ref \<Rightarrow> caller" where
  "load_caller s p =
     \<lparr>own_mm = proc_mm s p, mram = device s (k_mram s), active_mswp = device s (k_active_mswp s)\<rparr>"

definition set_proc_mm :: "os_t \<Rightarrow> pcb_ref \<Rightarrow> mm \<Rightarrow> os_t" where
  "set_proc_mm s p mm =
     (case pcb_mm (pcbs s ! p) of None \<Rightarrow> s | Some m \<Rightarrow> s\<lparr>mms := (mms s)[m := mm]\<rparr>)"

definition store_caller :: "os_t \<Rightarrow> pcb_ref \<Rightarrow> caller \<Rightarrow> os_t" where
  "store_caller s p c =
     (let s = (case own_mm c of None \<Rightarrow> s | Some mm \<Rightarrow> set_proc_mm s p mm)
      in s\<lparr>devs := set_device (k_active_mswp s) (active_mswp c) (set_device (k_mram s) (mram c) (devs s))\<rparr>)"

text \<open>Running a function of the memory manager on process \<open>p\<close>.\<close>

definition on_proc :: "os_t \<Rightarrow> pcb_ref \<Rightarrow> (caller \<Rightarrow> fault + 'a \<times> caller) \<Rightarrow> fault + 'a \<times> os_t" where
  "on_proc s p f = bindR (f (load_caller s p)) (\<lambda>(r, c). Inr (r, store_caller s p c))"

section \<open>Scheduling calls on the whole state\<close>

text \<open>\<open>put_proc\<close> and \<open>add_proc\<close> first point the kernel to the scheduler's queues.\<close>

definition k_get_proc :: "os_t \<Rightarrow> pcb_ref option \<times> os_t" where
  "k_get_proc s = (let (p, sc) = get_proc (sched s) in (p, s\<lparr>sched := sc\<rparr>))"

definition k_put_proc :: "os_t \<Rightarrow> pcb_ref \<Rightarrow> fault + os_t" where
  "k_put_proc s p =
     bindR (put_proc (sched s) (prio (pcbs s ! p)) p) (\<lambda>sc. Inr (s\<lparr>k_running := True, sched := sc\<rparr>))"

definition k_add_proc :: "os_t \<Rightarrow> pcb_ref \<Rightarrow> fault + os_t" where
  "k_add_proc s p =
     bindR (add_proc (sched s) (prio (pcbs s ! p)) p) (\<lambda>sc. Inr (s\<lparr>k_running := True, sched := sc\<rparr>))"

definition k_remove_proc :: "os_t \<Rightarrow> pcb_ref \<Rightarrow> os_t" where
  "k_remove_proc s p = s\<lparr>sched := remove_proc (sched s) p\<rparr>"

section \<open>Well-formed states\<close>

text \<open>Every process has its own \<open>mm_struct\<close>, RAM and active swap are two different devices, and
  the scheduler names existing processes only.\<close>

definition os_wf :: "os_t \<Rightarrow> bool" where
  "os_wf s \<longleftrightarrow>
     (\<forall>p < length (pcbs s). \<forall>m. pcb_mm (pcbs s ! p) = Some m \<longrightarrow> m < length (mms s))
   \<and> (\<forall>p q m. p < length (pcbs s) \<longrightarrow> q < length (pcbs s) \<longrightarrow>
        pcb_mm (pcbs s ! p) = Some m \<longrightarrow> pcb_mm (pcbs s ! q) = Some m \<longrightarrow> p = q)
   \<and> (\<exists>r w. k_mram s = Some r \<and> k_active_mswp s = Some w \<and> r \<noteq> w
        \<and> r < length (devs s) \<and> w < length (devs s))"

lemma os_wfD:
  assumes "os_wf s" and "p < length (pcbs s)" and "pcb_mm (pcbs s ! p) = Some m"
  shows "m < length (mms s)"
    and "q < length (pcbs s) \<Longrightarrow> pcb_mm (pcbs s ! q) = Some m \<Longrightarrow> q = p"
  using assms unfolding os_wf_def by blast+

lemma store_caller_simps [simp]:
  "pcbs (store_caller s p c) = pcbs s" "k_mm (store_caller s p c) = k_mm s"
  "k_mram (store_caller s p c) = k_mram s" "k_active_mswp (store_caller s p c) = k_active_mswp s"
  "k_running (store_caller s p c) = k_running s" "sched (store_caller s p c) = sched s"
  "length (mms (store_caller s p c)) = length (mms s)"
  "length (devs (store_caller s p c)) = length (devs s)"
  by (auto simp: store_caller_def set_proc_mm_def set_device_def Let_def split: option.splits)

lemma os_wf_store_caller: "os_wf s \<Longrightarrow> os_wf (store_caller s p c)"
  by (simp add: os_wf_def)

lemma device_store_caller:
  assumes "os_wf s"
  shows "device (store_caller s p c) (k_mram s) = mram c"
    and "device (store_caller s p c) (k_active_mswp s) = active_mswp c"
  using assms
  by (auto simp: os_wf_def device_def store_caller_def set_device_def set_proc_mm_def Let_def
      split: option.splits)

lemma proc_mm_store_caller:
  assumes "os_wf s" and "p < length (pcbs s)" and "proc_mm s p = Some mm0" and "own_mm c = Some mm"
  shows "proc_mm (store_caller s p c) p = Some mm"
    and "q < length (pcbs s) \<Longrightarrow> q \<noteq> p \<Longrightarrow> proc_mm (store_caller s p c) q = proc_mm s q"
proof -
  obtain m where m: "pcb_mm (pcbs s ! p) = Some m" using assms(3) by (auto simp: proc_mm_def)
  have st: "mms (store_caller s p c) = (mms s)[m := mm]"
    using m assms(4) by (simp add: store_caller_def set_proc_mm_def Let_def)
  show "proc_mm (store_caller s p c) p = Some mm"
    using m os_wfD(1) [OF assms(1,2) m] by (simp add: proc_mm_def st)
  show "proc_mm (store_caller s p c) q = proc_mm s q" if "q < length (pcbs s)" "q \<noteq> p"
  proof (cases "pcb_mm (pcbs s ! q)")
    case (Some n)
    then have "n \<noteq> m" using os_wfD(2) [OF assms(1,2) m that(1)] that(2) by blast
    then show ?thesis using Some by (simp add: proc_mm_def st)
  qed (simp add: proc_mm_def)
qed

lemma load_store_caller:
  assumes "os_wf s" and "p < length (pcbs s)" and "proc_mm s p = Some mm0" and "own_mm c = Some mm"
  shows "load_caller (store_caller s p c) p = c"
  using device_store_caller [OF assms(1)] proc_mm_store_caller(1) [OF assms] assms(4)
  by (cases c) (simp add: load_caller_def)

lemma load_caller_simps [simp]:
  "own_mm (load_caller s p) = proc_mm s p" "mram (load_caller s p) = device s (k_mram s)"
  "active_mswp (load_caller s p) = device s (k_active_mswp s)"
  by (simp_all add: load_caller_def)

end
