(* ===== verification/OS_Syscall.thy ===== *)
theory OS_Syscall
  imports OS_State
begin

text \<open>
  System calls: the dispatcher of \<open>syscall.c\<close> over the table \<open>syscalltbl.lst\<close>, the list call
  of \<open>sys_listsyscall.c\<close>, the memory call of \<open>sys_mem.c\<close> and the user wrapper of \<open>libstd.c\<close>.
  A call gets the process id and the register block and returns the code, the registers and
  the state.  Printed lines are not part of the state; what \<open>sys_listsyscall\<close> prints is the
  list \<open>sys_call_table\<close>.
\<close>

section \<open>The calls\<close>

record sc_regs =
  a1 :: u64
  a2 :: u64
  a3 :: u64

definition SYSMEM_MAP_OP :: int where "SYSMEM_MAP_OP = 1"
definition SYSMEM_INC_OP :: int where "SYSMEM_INC_OP = 2"
definition SYSMEM_SWP_OP :: int where "SYSMEM_SWP_OP = 3"
definition SYSMEM_IO_READ :: int where "SYSMEM_IO_READ = 4"
definition SYSMEM_IO_WRITE :: int where "SYSMEM_IO_WRITE = 5"

lemmas sysmem_ops = SYSMEM_MAP_OP_def SYSMEM_INC_OP_def SYSMEM_SWP_OP_def SYSMEM_IO_READ_def
  SYSMEM_IO_WRITE_def

text \<open>The search of \<open>__sys_memmap\<close>: the first entry of the running list with this process id.\<close>

definition find_caller :: "os_t \<Rightarrow> u32 \<Rightarrow> pcb_ref option" where
  "find_caller s procid =
     (if k_running s
      then case find (\<lambda>e. case e of None \<Rightarrow> False | Some p \<Rightarrow> pid (pcbs s ! p) = procid)
                  (queue_items (running_list (sched s))) of
             Some (Some p) \<Rightarrow> Some p
           | _ \<Rightarrow> None
      else None)"

text \<open>\<open>value\<close> is an uninitialised \<open>char\<close> that a failing read leaves as it is; a read byte is
  sign-extended into \<open>a3\<close>.\<close>

definition sys_memmap :: "os_t \<Rightarrow> u32 \<Rightarrow> sc_regs \<Rightarrow> fault + int \<times> sc_regs \<times> os_t" where
  "sys_memmap s procid regs =
     (let memop = sint (ucast (a1 regs) :: i32)
      in case find_caller s procid of
           None \<Rightarrow> Inr (-1, regs, s)
         | Some caller \<Rightarrow>
             if memop = SYSMEM_MAP_OP then
               bindR (on_proc s caller (\<lambda>c. vmap_pgd_memset c (a2 regs) (ucast (a3 regs))))
                 (\<lambda>(_, s). Inr (0, regs, s))
             else if memop = SYSMEM_INC_OP then
               bindR (on_proc s caller (\<lambda>c. inc_vma_limit c (ucast (a2 regs)) (a3 regs)))
                 (\<lambda>(_, s). Inr (0, regs, s))
             else if memop = SYSMEM_SWP_OP then
               bindR (on_proc s caller (\<lambda>c. mm_swap_page c (a2 regs) (a3 regs)))
                 (\<lambda>(_, s). Inr (0, regs, s))
             else if memop = SYSMEM_IO_READ then
               (case k_mram s of
                  None \<Rightarrow> Inr (0, regs, s)
                | Some d \<Rightarrow>
                    bindR (MEMPHY_read (devs s ! d) (a2 regs) 0) (\<lambda>(r, value, mp).
                      if r \<noteq> 0 then Inl Uninit
                      else Inr (0, regs\<lparr>a3 := scast value\<rparr>, s\<lparr>devs := (devs s)[d := mp]\<rparr>)))
             else if memop = SYSMEM_IO_WRITE then
               (case k_mram s of
                  None \<Rightarrow> Inr (0, regs, s)
                | Some d \<Rightarrow>
                    bindR (MEMPHY_write (devs s ! d) (a2 regs) (ucast (a3 regs))) (\<lambda>(_, mp).
                      Inr (0, regs, s\<lparr>devs := (devs s)[d := mp]\<rparr>)))
             else Inr (0, regs, s))"

text \<open>\<open>syscalltbl.lst\<close>, and the strings the table is expanded to.\<close>

definition syscalltbl :: "(nat \<times> string) list" where
  "syscalltbl = [(0, ''sys_listsyscall''), (17, ''sys_memmap'')]"

definition sys_call_table :: "string list" where
  "sys_call_table = [''0-sys_listsyscall'', ''17-sys_memmap'']"

definition syscall_table_size :: nat where
  "syscall_table_size = length sys_call_table"

text \<open>The lines printed, and the return code.\<close>

definition sys_listsyscall :: "string list \<times> int" where
  "sys_listsyscall = (map (\<lambda>i. sys_call_table ! i) [0..<syscall_table_size], 0)"

definition sys_ni_syscall :: int where
  "sys_ni_syscall = 0"

definition syscall :: "os_t \<Rightarrow> u32 \<Rightarrow> u32 \<Rightarrow> sc_regs \<Rightarrow> fault + int \<times> sc_regs \<times> os_t" where
  "syscall s procid nr regs =
     (if nr = 0 then Inr (snd sys_listsyscall, regs, s)
      else if nr = 17 then sys_memmap s procid regs
      else Inr (sys_ni_syscall, regs, s))"

definition libsyscall :: "os_t \<Rightarrow> pcb_ref \<Rightarrow> u32 \<Rightarrow> u64 \<Rightarrow> u64 \<Rightarrow> u64 \<Rightarrow> fault + int \<times> os_t" where
  "libsyscall s caller idx x1 x2 x3 =
     bindR (syscall s (pid (pcbs s ! caller)) idx \<lparr>a1 = x1, a2 = x2, a3 = x3\<rparr>)
       (\<lambda>(r, _, s). Inr (r, s))"

end
