(* ===== verification/OS_Libmem.thy ===== *)
theory OS_Libmem
  imports OS_Syscall
begin

text \<open>
  The memory library of \<open>libmem.c\<close>: allocation, release and byte access for a process, on top
  of the region bookkeeping and the memory system call.  \<open>caller\<close> is the position of the
  process control block.  A call that holds \<open>mmvm_lock\<close> is one step.
\<close>

section \<open>Allocation\<close>

text \<open>Assignment to \<open>mm->symrgtbl[rgid]\<close> with a C \<open>int\<close> index that is not checked.\<close>

definition set_symrg :: "mm \<Rightarrow> i32 \<Rightarrow> vm_rg \<Rightarrow> fault + mm" where
  "set_symrg mm rgid rg =
     (if sint rgid < 0 then Inl Out_of_bounds
      else bindR (set_at (symrgtbl mm) (nat (sint rgid)) rg) (\<lambda>t. Inr (mm\<lparr>symrgtbl := t\<rparr>)))"

text \<open>The result holds the return code and \<open>*alloc_addr\<close> when it was assigned.  \<open>old_sbrk\<close> is a
  C \<open>int\<close>.  The computed page count \<open>inc_sz\<close> is not used by this configuration.\<close>

definition lib_alloc ::
  "os_t \<Rightarrow> pcb_ref \<Rightarrow> i32 \<Rightarrow> i32 \<Rightarrow> u64 \<Rightarrow> fault + (int \<times> u64 option) \<times> os_t" where
  "lib_alloc s caller vmaid rgid sz =
     (case proc_mm s caller of
        None \<Rightarrow> Inr ((-1, None), s)
      | Some mm \<Rightarrow>
          (case get_vma_by_num (Some mm) vmaid of
             None \<Rightarrow> Inr ((-1, None), s)
           | Some k \<Rightarrow>
               (case get_free_vmrg_area (load_caller s caller) vmaid (ucast sz) of
                  (Some rgnode, c) \<Rightarrow>
                    bindR (deref (own_mm c)) (\<lambda>mm.
                    bindR (set_symrg mm rgid rgnode) (\<lambda>mm.
                    Inr ((0, Some (rg_start rgnode)), store_caller s caller (c\<lparr>own_mm := Some mm\<rparr>))))
                | (None, c) \<Rightarrow>
                    let s = store_caller s caller c;
                        old_sbrk = (ucast (sbrk (mmap mm ! k)) :: i32);
                        regs = \<lparr>a1 = of_int SYSMEM_INC_OP, a2 = scast vmaid, a3 = sz\<rparr>
                    in bindR (syscall s (pid (pcbs s ! caller)) 17 regs) (\<lambda>(_, regs, s).
                       bindR (deref (proc_mm s caller)) (\<lambda>mm.
                       bindR (set_symrg mm rgid
                                \<lparr>rg_start = scast old_sbrk, rg_end = scast old_sbrk + sz\<rparr>) (\<lambda>mm.
                       bindR (if sz < a3 regs
                              then bindR (enlist_vm_freerg_list mm
                                     \<lparr>rg_start = scast old_sbrk + sz, rg_end = scast old_sbrk + a3 regs\<rparr>)
                                     (\<lambda>(_, mm). Inr mm)
                              else Inr mm) (\<lambda>mm.
                       Inr ((0, Some (scast old_sbrk)), set_proc_mm s caller mm))))))))"

definition lib_free :: "os_t \<Rightarrow> pcb_ref \<Rightarrow> i32 \<Rightarrow> i32 \<Rightarrow> fault + int \<times> os_t" where
  "lib_free s caller vmaid rgid =
     (if sint rgid < 0 \<or> sint rgid > int PAGING_MAX_SYMTBL_SZ then Inr (-1, s)
      else case proc_mm s caller of
             None \<Rightarrow> Inr (-1, s)
           | Some mm \<Rightarrow>
               bindR (deref (get_symrg_byid rgid)) (\<lambda>i.
               bindR (get_at (symrgtbl mm) i) (\<lambda>rgnode.
               if rg_start rgnode = 0 \<and> rg_end rgnode = 0 then Inr (-1, s)
               else bindR (enlist_vm_freerg_list (mm\<lparr>symrgtbl := (symrgtbl mm)[i := init_vm_rg 0 0]\<rparr>)
                             rgnode) (\<lambda>(_, mm).
                    Inr (0, set_proc_mm s caller mm)))))"

text \<open>\<open>print_pgtbl\<close> prints the pointers on the path to page 0 (0 is \<open>NULL\<close>): the first entry of
  the top directory, of the table it points to, and of the next one.\<close>

definition print_pgtbl :: "os_t \<Rightarrow> pcb_ref \<Rightarrow> fault + nat \<times> nat \<times> nat" where
  "print_pgtbl s caller =
     bindR (deref (proc_mm s caller)) (\<lambda>mm.
       let t = pgd mm;
           p4d_ptr = pgd_tbl t ! 0;
           pud_ptr = (if p4d_ptr \<noteq> 0 then p4d_tbls t ! (p4d_ptr - 1) ! 0 else 0);
           pmd_ptr = (if pud_ptr \<noteq> 0 then pud_tbls t ! (pud_ptr - 1) ! 0 else 0)
       in Inr (p4d_ptr, pud_ptr, pmd_ptr))"

definition liballoc :: "os_t \<Rightarrow> pcb_ref \<Rightarrow> u64 \<Rightarrow> u32 \<Rightarrow> fault + int \<times> os_t" where
  "liballoc s p sz reg_index =
     bindR (lib_alloc s p 0 reg_index sz) (\<lambda>((val, addr), s).
       if val = -1 then Inr (-1, s)
       else bindR (print_pgtbl s p) (\<lambda>_. Inr (val, s)))"

definition libfree :: "os_t \<Rightarrow> pcb_ref \<Rightarrow> u32 \<Rightarrow> fault + int \<times> os_t" where
  "libfree s p reg_index =
     bindR (lib_free s p 0 reg_index) (\<lambda>(val, s).
       if val = -1 then Inr (-1, s)
       else bindR (print_pgtbl s p) (\<lambda>_. Inr (0, s)))"

section \<open>Pages\<close>

text \<open>\<open>pg_getpage\<close>: the return code with \<open>*fpn\<close> when it was assigned.  The \<open>mm\<close> argument is
  always the caller's own \<open>mm_struct\<close>.\<close>

definition page_in :: "os_t \<Rightarrow> pcb_ref \<Rightarrow> u64 \<Rightarrow> u32 \<Rightarrow> fault + int \<times> os_t" where
  "page_in s p pgn pte =
     bindR (deref (proc_mm s p)) (\<lambda>mm.
     case find_victim_page mm of
       (None, _) \<Rightarrow> Inr (-1, s)
     | (Some vicpgn, mm) \<Rightarrow>
         let s = set_proc_mm s p mm
         in bindR (on_proc s p (\<lambda>c. bindR (MEMPHY_get_freefp (active_mswp c)) (\<lambda>(f, swp).
                     Inr (f, c\<lparr>active_mswp := swp\<rparr>)))) (\<lambda>(f, s).
            case f of
              None \<Rightarrow> Inr (-1, s)
            | Some swpfpn \<Rightarrow>
                bindR (on_proc s p (\<lambda>c. pte_get_entry c vicpgn)) (\<lambda>(vicpte, s).
                let vicfpn = (ucast (PAGING_FPN vicpte) :: u64)
                in bindR (syscall s (pid (pcbs s ! p)) 17
                            \<lparr>a1 = of_int SYSMEM_SWP_OP, a2 = vicfpn, a3 = swpfpn\<rparr>) (\<lambda>(_, _, s).
                   bindR (on_proc s p (\<lambda>c. pte_set_swap c vicpgn 0 swpfpn)) (\<lambda>(_, s).
                   bindR (if pte \<noteq> 0
                          then let tgtswpfpn = (ucast (PAGING_SWP pte) :: u64)
                               in on_proc s p (\<lambda>c.
                                    bindR (swap_cp_page (active_mswp c) tgtswpfpn (mram c) vicfpn)
                                      (\<lambda>(swp, ram).
                                    Inr ((), c\<lparr>active_mswp := MEMPHY_put_freefp swp tgtswpfpn, mram := ram\<rparr>)))
                          else Inr ((), s)) (\<lambda>(_, s).
                   bindR (on_proc s p (\<lambda>c. pte_set_fpn c pgn vicfpn)) (\<lambda>(_, s).
                   bindR (deref (proc_mm s p)) (\<lambda>mm.
                   Inr (0, set_proc_mm s p (mm\<lparr>fifo_pgn := enlist_pgn_node (fifo_pgn mm) pgn\<rparr>))))))))))"

definition pg_getpage :: "os_t \<Rightarrow> pcb_ref \<Rightarrow> i32 \<Rightarrow> fault + (int \<times> i32 option) \<times> os_t" where
  "pg_getpage s p pgn =
     bindR (on_proc s p (\<lambda>c. pte_get_entry c (scast pgn))) (\<lambda>(pte, s).
     bindR (if PAGING_PAGE_PRESENT pte then Inr (0, s) else page_in s p (scast pgn) pte) (\<lambda>(r, s).
       if r = -1 then Inr ((-1, None), s)
       else bindR (on_proc s p (\<lambda>c. pte_get_entry c (scast pgn))) (\<lambda>(pte, s).
            Inr ((0, Some (PAGING_FPN pte)), s))))"

text \<open>\<open>phyaddr = (fpn << PAGING_ADDR_FPN_LOBIT) + off\<close> in C \<open>int\<close>s.\<close>

definition phy_addr :: "i32 \<Rightarrow> u32 \<Rightarrow> i32" where
  "phy_addr fpn off = push_bit PAGING_ADDR_FPN_LOBIT fpn + off"

text \<open>\<open>pg_getval\<close> passes the address of the caller's byte in \<open>a3\<close>; the call replaces the register
  and never follows it, so 0 stands for the address and the caller's byte stays as it is.\<close>

definition pg_getval :: "os_t \<Rightarrow> pcb_ref \<Rightarrow> i32 \<Rightarrow> fault + int \<times> os_t" where
  "pg_getval s p addr =
     bindR (pg_getpage s p (PAGING_PGN addr)) (\<lambda>((r, frame), s).
       case frame of
         None \<Rightarrow> Inr (-1, s)
       | Some fpn \<Rightarrow>
           bindR (syscall s (pid (pcbs s ! p)) 17
                    \<lparr>a1 = of_int SYSMEM_IO_READ, a2 = scast (phy_addr fpn (PAGING_OFFST addr)), a3 = 0\<rparr>)
             (\<lambda>(_, _, s). Inr (0, s)))"

definition pg_setval :: "os_t \<Rightarrow> pcb_ref \<Rightarrow> i32 \<Rightarrow> u8 \<Rightarrow> fault + int \<times> os_t" where
  "pg_setval s p addr value =
     bindR (pg_getpage s p (PAGING_PGN addr)) (\<lambda>((r, frame), s).
       case frame of
         None \<Rightarrow> Inr (-1, s)
       | Some fpn \<Rightarrow>
           bindR (syscall s (pid (pcbs s ! p)) 17
                    \<lparr>a1 = of_int SYSMEM_IO_WRITE, a2 = scast (phy_addr fpn (PAGING_OFFST addr)),
                     a3 = scast value\<rparr>)
             (\<lambda>(_, _, s). Inr (0, s)))"

section \<open>Byte access\<close>

text \<open>\<open>__read\<close> looks the region up in \<open>krnl->mm\<close>.  \<open>lib_read\<close> does not assign \<open>*data\<close>.\<close>

definition lib_read :: "os_t \<Rightarrow> pcb_ref \<Rightarrow> i32 \<Rightarrow> i32 \<Rightarrow> u64 \<Rightarrow> fault + int \<times> os_t" where
  "lib_read s caller vmaid rgid offset =
     (case proc_mm s caller of
        None \<Rightarrow> Inr (-1, s)
      | Some mm \<Rightarrow>
          (case get_symrg_byid rgid of
             None \<Rightarrow> Inr (-1, s)
           | Some i \<Rightarrow>
               bindR (deref (k_mm s)) (\<lambda>m.
               bindR (get_at (symrgtbl (mms s ! m)) i) (\<lambda>currg.
               bindR (pg_getval s caller (ucast (rg_start currg + offset))) (\<lambda>(_, s).
               Inr (0, s))))))"

text \<open>The indeterminate byte \<open>data0\<close> is what \<open>*destination\<close> gets.\<close>

definition libread :: "u8 \<Rightarrow> os_t \<Rightarrow> pcb_ref \<Rightarrow> u32 \<Rightarrow> u64 \<Rightarrow> fault + (int \<times> u32) \<times> os_t" where
  "libread data0 s p source offset =
     bindR (lib_read s p 0 source offset) (\<lambda>(val, s).
     bindR (print_pgtbl s p) (\<lambda>_. Inr ((val, scast data0), s)))"

definition lib_write :: "os_t \<Rightarrow> pcb_ref \<Rightarrow> i32 \<Rightarrow> i32 \<Rightarrow> u64 \<Rightarrow> u8 \<Rightarrow> fault + int \<times> os_t" where
  "lib_write s caller vmaid rgid offset value =
     (case proc_mm s caller of
        None \<Rightarrow> Inr (-1, s)
      | Some mm \<Rightarrow>
          (case (get_symrg_byid rgid, get_vma_by_num (Some mm) vmaid) of
             (Some i, Some _) \<Rightarrow>
               bindR (get_at (symrgtbl mm) i) (\<lambda>currg.
               bindR (pg_setval s caller (ucast (rg_start currg + offset)) value) (\<lambda>(_, s).
               Inr (0, s)))
           | _ \<Rightarrow> Inr (-1, s)))"

definition libwrite :: "os_t \<Rightarrow> pcb_ref \<Rightarrow> u8 \<Rightarrow> u32 \<Rightarrow> u64 \<Rightarrow> fault + int \<times> os_t" where
  "libwrite s p data destination offset =
     bindR (lib_write s p 0 destination offset data) (\<lambda>(val, s).
       if val = -1 then Inr (-1, s)
       else bindR (print_pgtbl s p) (\<lambda>_. Inr (val, s)))"

section \<open>Kernel memory calls\<close>

text \<open>The kernel memory functions are stubs that only return a code.\<close>

definition libkmem_malloc :: "os_t \<Rightarrow> pcb_ref \<Rightarrow> u32 \<Rightarrow> u32 \<Rightarrow> int \<times> os_t" where
  "libkmem_malloc s caller sz reg_index = (0, s)"

definition libkmem_cache_pool_create :: "os_t \<Rightarrow> pcb_ref \<Rightarrow> u32 \<Rightarrow> u32 \<Rightarrow> u32 \<Rightarrow> int \<times> os_t" where
  "libkmem_cache_pool_create s caller sz align cache_pool_id = (0, s)"

definition libkmem_cache_alloc :: "os_t \<Rightarrow> pcb_ref \<Rightarrow> u32 \<Rightarrow> u32 \<Rightarrow> int \<times> os_t" where
  "libkmem_cache_alloc s proc cache_pool_id reg_index = (0, s)"

definition libkmem_copy_from_user :: "os_t \<Rightarrow> pcb_ref \<Rightarrow> u32 \<Rightarrow> u32 \<Rightarrow> u32 \<Rightarrow> u32 \<Rightarrow> int \<times> os_t" where
  "libkmem_copy_from_user s caller source destination offset sz = (0, s)"

definition libkmem_copy_to_user :: "os_t \<Rightarrow> pcb_ref \<Rightarrow> u32 \<Rightarrow> u32 \<Rightarrow> u32 \<Rightarrow> u32 \<Rightarrow> int \<times> os_t" where
  "libkmem_copy_to_user s caller source destination offset sz = (1, s)"

end
