(* ===== verification/OS_Cpu.thy ===== *)
theory OS_Cpu
  imports OS_Libmem
begin

text \<open>
  The CPU of \<open>cpu.c\<close> with \<open>MM_PAGING\<close> defined: \<open>run\<close> fetches the instruction at the program
  counter of a process, advances the counter and executes the instruction.
\<close>

definition calc :: "os_t \<Rightarrow> pcb_ref \<Rightarrow> int \<times> os_t" where
  "calc s proc = (0, s)"

definition fetch :: "pcb_t \<Rightarrow> fault + inst_t" where
  "fetch pr = get_at (code_text (code pr)) (unat (pc pr))"

text \<open>The \<open>switch\<close>.  Arguments of type \<open>arg_t\<close> are truncated to the parameter types.  The result
  byte of \<open>READ\<close> goes to the local copy of the instruction and is lost; \<open>data0\<close> is the
  indeterminate byte of \<open>libread\<close>.\<close>

definition exec_inst :: "u8 \<Rightarrow> os_t \<Rightarrow> pcb_ref \<Rightarrow> inst_t \<Rightarrow> fault + int \<times> os_t" where
  "exec_inst data0 s proc ins =
     (case opcode ins of
        CALC \<Rightarrow> Inr (calc s proc)
      | ALLOC \<Rightarrow> liballoc s proc (arg_0 ins) (ucast (arg_1 ins))
      | KMALLOC \<Rightarrow> Inr (libkmem_malloc s proc (ucast (arg_0 ins)) (ucast (arg_1 ins)))
      | KMEM_CACHE_CREATE \<Rightarrow>
          Inr (libkmem_cache_pool_create s proc (ucast (arg_0 ins)) (ucast (arg_1 ins)) (ucast (arg_2 ins)))
      | KMEM_CACHE_ALLOC \<Rightarrow> Inr (libkmem_cache_alloc s proc (ucast (arg_0 ins)) (ucast (arg_1 ins)))
      | COPY_FROM_USER \<Rightarrow>
          Inr (libkmem_copy_from_user s proc (ucast (arg_0 ins)) (ucast (arg_1 ins))
                 (ucast (arg_2 ins)) (ucast (arg_3 ins)))
      | COPY_TO_USER \<Rightarrow>
          Inr (libkmem_copy_to_user s proc (ucast (arg_0 ins)) (ucast (arg_1 ins))
                 (ucast (arg_2 ins)) (ucast (arg_3 ins)))
      | FREE \<Rightarrow> libfree s proc (ucast (arg_0 ins))
      | READ \<Rightarrow>
          bindR (libread data0 s proc (ucast (arg_0 ins)) (arg_1 ins)) (\<lambda>((stat, _), s). Inr (stat, s))
      | WRITE \<Rightarrow> libwrite s proc (ucast (arg_0 ins)) (ucast (arg_1 ins)) (arg_2 ins)
      | SYSCALL \<Rightarrow> libsyscall s proc (ucast (arg_0 ins)) (arg_1 ins) (arg_2 ins) (arg_3 ins))"

definition run :: "u8 \<Rightarrow> os_t \<Rightarrow> pcb_ref \<Rightarrow> fault + int \<times> os_t" where
  "run data0 s proc =
     (let pr = pcbs s ! proc
      in if code_size (code pr) \<le> pc pr then Inr (1, s)
         else bindR (fetch pr) (\<lambda>ins.
              exec_inst data0 (s\<lparr>pcbs := (pcbs s)[proc := pr\<lparr>pc := pc pr + 1\<rparr>]\<rparr>) proc ins))"

end
