(* ===== verification/OS_Confine.thy ===== *)
theory OS_Confine
  imports OS_Cpu
begin

text \<open>
  Isolation of bookkeeping between processes.  A step of one process (an instruction of
  \<open>cpu.c\<close>, through the memory library and the memory system call) may change that process's
  own \<open>mm_struct\<close> and the bytes and frame lists of the devices, and nothing else.  The proof
  follows the calls inside the locale \<open>call_closed\<close>, whose laws speak of the primitive steps, and
  is used twice: for confinement to one process, and for the control blocks and the scheduler.
\<close>

section \<open>Confinement\<close>

definition confined :: "os_t \<Rightarrow> pcb_ref \<Rightarrow> os_t \<Rightarrow> bool" where
  "confined s p s' \<longleftrightarrow> pcbs s' = pcbs s \<and> sched s' = sched s \<and> k_mm s' = k_mm s
     \<and> k_mram s' = k_mram s \<and> k_active_mswp s' = k_active_mswp s \<and> k_running s' = k_running s
     \<and> length (mms s') = length (mms s) \<and> length (devs s') = length (devs s)
     \<and> (\<forall>q < length (pcbs s). q \<noteq> p \<longrightarrow> proc_mm s' q = proc_mm s q)"

lemma confined_refl [simp, intro]: "confined s p s"
  by (simp add: confined_def)

lemma confined_trans: "confined s p s1 \<Longrightarrow> confined s1 p s2 \<Longrightarrow> confined s p s2"
  by (simp add: confined_def)

lemma confined_os_wf: "confined s p s' \<Longrightarrow> os_wf s \<Longrightarrow> os_wf s'"
  by (simp add: confined_def os_wf_def)

lemma confined_store:
  assumes "os_wf s" and "p < length (pcbs s)"
  shows "confined s p (store_caller s p c)"
proof -
  have "proc_mm (store_caller s p c) q = proc_mm s q" if "q < length (pcbs s)" "q \<noteq> p" for q
  proof (cases "pcb_mm (pcbs s ! p)")
    case None
    then show ?thesis by (simp add: proc_mm_def store_caller_def set_proc_mm_def Let_def split: option.split)
  next
    case (Some m)
    then have "proc_mm s p = Some (mms s ! m)" by (simp add: proc_mm_def)
    then show ?thesis
      using proc_mm_store_caller(2) [OF assms, of "mms s ! m" c "the (own_mm c)" q] that
      by (cases "own_mm c") (auto simp: proc_mm_def store_caller_def Let_def)
  qed
  then show ?thesis by (simp add: confined_def)
qed

lemma confined_set_mm:
  assumes "os_wf s" and "p < length (pcbs s)"
  shows "confined s p (set_proc_mm s p mm)"
proof (cases "pcb_mm (pcbs s ! p)")
  case (Some m)
  have "proc_mm (set_proc_mm s p mm) q = proc_mm s q" if "q < length (pcbs s)" "q \<noteq> p" for q
  proof -
    have "pcb_mm (pcbs s ! q) \<noteq> Some m" using os_wfD(2) [OF assms Some that(1)] that(2) by blast
    then show ?thesis using Some
      by (cases "pcb_mm (pcbs s ! q)") (simp_all add: proc_mm_def set_proc_mm_def)
  qed
  then show ?thesis using Some by (simp add: confined_def set_proc_mm_def)
qed (simp add: set_proc_mm_def)

lemma confined_on_proc:
  "os_wf s \<Longrightarrow> p < length (pcbs s) \<Longrightarrow> on_proc s p f = Inr (r, s') \<Longrightarrow> confined s p s'"
  by (auto simp: on_proc_def bindR_eq_Inr intro: confined_store)

text \<open>The running list names processes of the state, and the process ids in it are unique.\<close>

definition caller_found :: "os_t \<Rightarrow> pcb_ref \<Rightarrow> bool" where
  "caller_found s p \<longleftrightarrow> find_caller s (pid (pcbs s ! p)) \<in> {None, Some p}"

lemma confined_caller: "confined s p s' \<Longrightarrow> caller_found s' q = caller_found s q"
  by (simp add: confined_def caller_found_def find_caller_def)

lemma confined_devs: "confined s p (s\<lparr>devs := (devs s)[d := mp]\<rparr>)"
  by (simp add: confined_def proc_mm_def)

lemma confined_memmap:
  assumes "os_wf s" and "p < length (pcbs s)" and "find_caller s i \<in> {None, Some p}"
    and "sys_memmap s i regs = Inr (r, regs', s')"
  shows "confined s p s'"
proof (cases "find_caller s i")
  case None
  then show ?thesis using assms(4) by (simp add: sys_memmap_def)
next
  case (Some q)
  then have "q = p" using assms(3) by simp
  then show ?thesis using assms(1,2,4) Some
    by (auto simp: sys_memmap_def Let_def bindR_eq_Inr confined_devs split: if_splits option.splits
        dest: confined_on_proc)
qed

lemma confined_syscall:
  assumes "os_wf s" and "p < length (pcbs s)" and "find_caller s i \<in> {None, Some p}"
    and "syscall s i nr regs = Inr (r, regs', s')"
  shows "confined s p s'"
  using assms confined_memmap [OF assms(1-3)] by (auto simp: syscall_def split: if_splits)

section \<open>Library calls are confined\<close>

text \<open>The assumptions under which a call on process \<open>p\<close> stays inside it, together with
  confinement since the state \<open>s0\<close>: an invariant of every step of a call.\<close>

definition call_ok :: "os_t \<Rightarrow> pcb_ref \<Rightarrow> bool" where
  "call_ok s p \<longleftrightarrow> os_wf s \<and> p < length (pcbs s) \<and> caller_found s p"

definition within :: "os_t \<Rightarrow> pcb_ref \<Rightarrow> os_t \<Rightarrow> bool" where
  "within s0 p s \<longleftrightarrow> call_ok s p \<and> confined s0 p s"

lemma within_step:
  assumes "within s0 p s" and "confined s p s'"
  shows "within s0 p s'"
proof -
  have ok: "call_ok s p" "confined s0 p s" using assms(1) by (simp_all add: within_def)
  have "os_wf s'" using confined_os_wf [OF assms(2)] ok(1) by (simp add: call_ok_def)
  moreover have "p < length (pcbs s')" using ok(1) assms(2) by (simp add: call_ok_def confined_def)
  moreover have "caller_found s' p" using confined_caller [OF assms(2), of p] ok(1) by (simp add: call_ok_def)
  moreover have "confined s0 p s'" by (rule confined_trans [OF ok(2) assms(2)])
  ultimately show ?thesis by (simp add: within_def call_ok_def)
qed

lemma within_refl: "call_ok s p \<Longrightarrow> within s p s"
  by (simp add: within_def)

lemma withinD: "within s0 p s \<Longrightarrow> os_wf s" "within s0 p s \<Longrightarrow> p < length (pcbs s)"
    "within s0 p s \<Longrightarrow> find_caller s (pid (pcbs s ! p)) \<in> {None, Some p}"
  by (simp_all add: within_def call_ok_def caller_found_def)

section \<open>Invariants along a call\<close>

text \<open>\<open>stays I m\<close>: if the call \<open>m\<close> returns, its state satisfies \<open>I\<close>.\<close>

definition stays :: "(os_t \<Rightarrow> bool) \<Rightarrow> fault + 'a \<times> os_t \<Rightarrow> bool" where
  "stays I m \<longleftrightarrow> (\<forall>r s'. m = Inr (r, s') \<longrightarrow> I s')"

lemma stays_return: "stays I (Inr (r, s)) \<longleftrightarrow> I s" "stays I (Inl e)"
  by (simp_all add: stays_def)

lemma stays_bind:
  "stays I m \<Longrightarrow> (\<And>r s. I s \<Longrightarrow> stays I (g (r, s))) \<Longrightarrow> stays I (bindR m g)"
  by (cases m) (auto simp: stays_def)

lemma stays_value: "(\<And>x. stays I (g x)) \<Longrightarrow> stays I (bindR m g)"
  by (cases m) (auto simp: stays_def)

lemmas stays_values = stays_value [where m = "deref x" for x] stays_value [where m = "get_at xs i" for xs i]
  stays_value [where m = "set_symrg mm i rg" for mm i rg]
  stays_value [where m = "enlist_vm_freerg_list mm rg" for mm rg]
  stays_value [where m = "bindR (enlist_vm_freerg_list mm rg) g" for mm rg g]

lemma stays_print: "(\<And>x. stays I (g x)) \<Longrightarrow> stays I (bindR (print_pgtbl s q) g)"
  by (rule stays_value)

text \<open>The library of \<open>libmem.c\<close> changes the state in three ways only: through the memory manager on
  the calling process, by storing its \<open>mm_struct\<close>, and through system calls in its name.  What
  these three keep, every call keeps.\<close>

locale call_closed =
  fixes I :: "os_t \<Rightarrow> bool" and p :: pcb_ref
  assumes set_mm: "I s \<Longrightarrow> I (set_proc_mm s p mm)"
    and store: "I s \<Longrightarrow> I (store_caller s p c)"
    and sys: "I s \<Longrightarrow> syscall s (pid (pcbs s ! p)) nr regs = Inr (r, rs, s') \<Longrightarrow> I s'"
begin

lemma stays_on_proc: "I s \<Longrightarrow> stays I (on_proc s p f)"
  unfolding stays_def on_proc_def using store by (auto simp: bindR_eq_Inr)

lemma stays_syscall:
  assumes "I s" and "i = pid (pcbs s ! p)" and "\<And>r rs s. I s \<Longrightarrow> stays I (g (r, rs, s))"
  shows "stays I (bindR (syscall s i nr regs) g)"
proof (cases "syscall s i nr regs")
  case (Inr x)
  obtain r rs s' where x: "x = (r, rs, s')" by (cases x)
  have "I s'" using sys [OF assms(1), of nr regs r rs s'] Inr assms(2) x by simp
  then show ?thesis using assms(3) Inr x by simp
qed (simp add: stays_return)

lemmas stays_calls = stays_syscall stays_bind [OF stays_on_proc]

lemma stays_page_in: "I s \<Longrightarrow> stays I (page_in s p pgn pte)"
  unfolding page_in_def
  by (auto simp: stays_return Let_def split: prod.split option.split
      intro!: stays_calls stays_values set_mm)

lemma stays_getpage: "I s \<Longrightarrow> stays I (pg_getpage s p pgn)"
  unfolding pg_getpage_def
  by (auto simp: stays_return intro!: stays_calls stays_bind [OF stays_page_in])

lemma stays_getval: "I s \<Longrightarrow> stays I (pg_getval s p a)"
  unfolding pg_getval_def
  by (auto simp: stays_return split: option.split intro!: stays_calls stays_bind [OF stays_getpage])

lemma stays_setval: "I s \<Longrightarrow> stays I (pg_setval s p a v)"
  unfolding pg_setval_def
  by (auto simp: stays_return split: option.split intro!: stays_calls stays_bind [OF stays_getpage])

lemma stays_alloc: "I s \<Longrightarrow> stays I (lib_alloc s p vmaid rgid sz)"
  unfolding lib_alloc_def
  by (auto simp: stays_return Let_def split: prod.split option.split
      intro!: stays_calls stays_values set_mm store)

lemma stays_free: "I s \<Longrightarrow> stays I (lib_free s p vmaid rgid)"
  unfolding lib_free_def
  by (auto simp: stays_return split: prod.split option.split intro!: stays_values set_mm)

lemma stays_read: "I s \<Longrightarrow> stays I (lib_read s p vmaid rgid off)"
  unfolding lib_read_def
  by (auto simp: stays_return split: option.split intro!: stays_values stays_bind [OF stays_getval])

lemma stays_write: "I s \<Longrightarrow> stays I (lib_write s p vmaid rgid off v)"
  unfolding lib_write_def
  by (auto simp: stays_return split: option.split intro!: stays_values stays_bind [OF stays_setval])

lemma stays_liballoc: "I s \<Longrightarrow> stays I (liballoc s p sz rgid)"
  unfolding liballoc_def by (auto simp: stays_return intro!: stays_bind stays_alloc stays_print)

lemma stays_exec: "I s \<Longrightarrow> stays I (exec_inst data0 s p ins)"
  by (cases "opcode ins")
     (auto simp: exec_inst_def calc_def libfree_def libread_def libwrite_def libsyscall_def
       libkmem_malloc_def libkmem_cache_pool_create_def libkmem_cache_alloc_def libkmem_copy_from_user_def
       libkmem_copy_to_user_def stays_return
       intro!: stays_liballoc stays_syscall stays_print stays_bind stays_free stays_read stays_write)

end

interpretation inside: call_closed "within s0 p" p for s0 p
proof
  show "within s0 p s \<Longrightarrow> within s0 p (set_proc_mm s p mm)" for s mm
    by (rule within_step [OF _ confined_set_mm]) (simp_all add: withinD)
  show "within s0 p s \<Longrightarrow> within s0 p (store_caller s p c)" for s c
    by (rule within_step [OF _ confined_store]) (simp_all add: withinD)
  show "within s0 p s \<Longrightarrow> syscall s (pid (pcbs s ! p)) nr regs = Inr (r, rs, s') \<Longrightarrow> within s0 p s'"
    for s nr regs r rs s'
    by (rule within_step [OF _ confined_syscall]) (auto dest: withinD)
qed

text \<open>Without any assumption on the state, a call touches neither control blocks nor the scheduler nor the
  kernel's memory pointer.\<close>

definition procs_kept :: "os_t \<Rightarrow> os_t \<Rightarrow> bool" where
  "procs_kept s0 s \<longleftrightarrow> pcbs s = pcbs s0 \<and> sched s = sched s0 \<and> k_mm s = k_mm s0
     \<and> length (mms s) = length (mms s0)"

lemma procs_kept_set_mm: "procs_kept s0 s \<Longrightarrow> procs_kept s0 (set_proc_mm s p mm)"
  by (simp add: procs_kept_def set_proc_mm_def split: option.split)

lemma procs_kept_syscall:
  "procs_kept s0 s \<Longrightarrow> syscall s i nr regs = Inr (r, rs, s') \<Longrightarrow> procs_kept s0 s'"
  by (auto simp: syscall_def sys_memmap_def on_proc_def procs_kept_def Let_def bindR_eq_Inr
      split: if_splits option.splits)

interpretation kept: call_closed "procs_kept s0" p for s0 p
proof
  show "procs_kept s0 s \<Longrightarrow> procs_kept s0 (store_caller s p c)" for s c by (simp add: procs_kept_def)
qed (fact procs_kept_set_mm procs_kept_syscall)+

section \<open>A small machine\<close>

text \<open>Two processes with fresh memory, a RAM of four frames and a swap device, both processes
  dispatched.\<close>

definition small_pcb :: "nat \<Rightarrow> inst_t list \<Rightarrow> pcb_t" where
  "small_pcb i is = \<lparr>pid = of_nat (Suc i), priority = 0,
     code = \<lparr>code_text = is, code_size = of_nat (length is)\<rparr>, pc = 0, prio = 0, pcb_mm = Some i\<rparr>"

definition small_os :: "inst_t list \<Rightarrow> inst_t list \<Rightarrow> os_t" where
  "small_os is js = \<lparr>pcbs = [small_pcb 0 is, small_pcb 1 js], mms = [fresh_mm, fresh_mm],
     devs = [snd (init_memphy blank_device 1024 1), snd (init_memphy blank_device 1024 1)],
     k_mm = Some 0, k_mram = Some 0, k_active_mswp = Some 1, k_running = True,
     sched = (init_scheduler zero_sched)
       \<lparr>running_list := enqueue (enqueue zero_queue (Some 0)) (Some 1)\<rparr>\<rparr>"

lemma small_os_simps [simp]:
  "pcbs (small_os is js) = [small_pcb 0 is, small_pcb 1 js]" "mms (small_os is js) = [fresh_mm, fresh_mm]"
  "k_mm (small_os is js) = Some 0" "k_mram (small_os is js) = Some 0" "k_active_mswp (small_os is js) = Some 1"
  "proc_mm (small_os is js) 0 = Some fresh_mm" "proc_mm (small_os is js) (Suc 0) = Some fresh_mm"
  "device (small_os is js) (Some 0) = snd (init_memphy blank_device 1024 1)"
  by (simp_all add: small_os_def proc_mm_def device_def small_pcb_def)

lemma small_os_wf: "os_wf (small_os is js)"
  by (auto simp: os_wf_def small_os_def small_pcb_def less_Suc_eq nth_Cons')

lemma small_os_running: "queue_items (running_list (sched (small_os is js))) = [Some 0, Some 1]"
  by (simp add: small_os_def queue_items_def enqueue_def zero_queue_def MAX_QUEUE_SIZE_def numeral_eq_Suc)

lemma small_os_caller:
  "find_caller (small_os is js) (pid (pcbs (small_os is js) ! 0)) = Some 0"
  "find_caller (small_os is js) (pid (pcbs (small_os is js) ! 1)) = Some 1"
  by (simp_all add: find_caller_def small_os_running) (simp_all add: small_os_def small_pcb_def)

section \<open>One instruction\<close>

text \<open>One instruction of a process, if it returns, changes no control block and no memory bookkeeping
  (page tables, regions and FIFO list) of another process, and not the scheduler.  Of the own
  control block only the program counter moves, by one, and a process at its end is left
  as it is with result 1.\<close>

lemma run_keeps_others:
  assumes "os_wf s" and "p < length (pcbs s)" and "caller_found s p"
    and "run data0 s p = Inr (r, s')"
  shows "(\<forall>q < length (pcbs s). q \<noteq> p \<longrightarrow> pcbs s' ! q = pcbs s ! q \<and> proc_mm s' q = proc_mm s q)
    \<and> sched s' = sched s \<and> length (pcbs s') = length (pcbs s)
    \<and> (if pc (pcbs s ! p) < code_size (code (pcbs s ! p))
       then pcbs s' ! p = (pcbs s ! p)\<lparr>pc := pc (pcbs s ! p) + 1\<rparr>
       else s' = s \<and> r = 1)"
proof (cases "pc (pcbs s ! p) < code_size (code (pcbs s ! p))")
  case False
  then show ?thesis using assms(4) by (simp add: run_def not_less)
next
  case True
  let ?s1 = "s\<lparr>pcbs := (pcbs s)[p := (pcbs s ! p)\<lparr>pc := pc (pcbs s ! p) + 1\<rparr>]\<rparr>"
  have pids: "pid (pcbs ?s1 ! q) = pid (pcbs s ! q)" "pcb_mm (pcbs ?s1 ! q) = pcb_mm (pcbs s ! q)" for q
    using assms(2) by (simp_all add: nth_list_update)
  obtain ins where ins: "exec_inst data0 ?s1 p ins = Inr (r, s')"
    using assms(4) True by (auto simp: run_def Let_def bindR_eq_Inr not_le [symmetric])
  have "os_wf ?s1" using assms(1) by (simp only: os_wf_def pids) simp
  moreover have "find_caller ?s1 i = find_caller s i" for i
    by (simp only: find_caller_def pids) simp
  ultimately have "call_ok ?s1 p"
    using assms(2,3) by (simp only: call_ok_def caller_found_def pids) simp
  then have "confined ?s1 p s'"
    using inside.stays_exec [OF within_refl, of ?s1 p data0 ins] ins by (simp add: stays_def within_def)
  moreover have "proc_mm ?s1 q = proc_mm s q" for q using pids(2) [of q] by (simp add: proc_mm_def)
  ultimately show ?thesis using True assms(2) by (simp add: confined_def)
qed

end
