(* ===== verification/OS_Vm.thy ===== *)
theory OS_Vm
  imports OS_Confine
begin

text \<open>
  Virtual memory as a whole.  \<open>vbyte s p a\<close> is the byte that process \<open>p\<close> has at virtual address
  \<open>a\<close>: the page table gives the frame, the RAM device the byte.  The invariant \<open>frames_ok\<close> says
  that all pages below the break are resident and that every frame has one owner: one page of
  one process, or the free list.  Under this invariant the library calls act on \<open>vbyte\<close> as
  operations on a map.
\<close>

section \<open>The abstract view\<close>

definition resident :: "mm \<Rightarrow> u64 \<Rightarrow> bool" where
  "resident mm q \<longleftrightarrow> PAGING_PAGE_PRESENT (ucast (pte_of mm q))"

definition page_frame :: "mm \<Rightarrow> u64 \<Rightarrow> nat" where
  "page_frame mm q = unat (PAGING_FPN (ucast (pte_of mm q)))"

definition heap_pages :: "mm \<Rightarrow> nat" where
  "heap_pages mm = unat (sbrk (heap mm)) div 256"

definition space_ok :: "mm \<Rightarrow> bool" where
  "space_ok mm \<longleftrightarrow> mm_ok mm \<and> unat (sbrk (heap mm)) mod 256 = 0 \<and> unat (sbrk (heap mm)) \<le> 2 ^ 22
     \<and> (\<forall>q. q < heap_pages mm \<longrightarrow> resident mm (of_nat q))"

definition frame_at :: "os_t \<Rightarrow> pcb_ref \<times> nat \<Rightarrow> nat option" where
  "frame_at s = (\<lambda>(p, q).
     if p < length (pcbs s) then
       (case proc_mm s p of
          None \<Rightarrow> None
        | Some mm \<Rightarrow> if q < heap_pages mm then Some (page_frame mm (of_nat q)) else None)
     else None)"

abbreviation ram :: "os_t \<Rightarrow> memphy" where
  "ram s \<equiv> device s (k_mram s)"

definition frames_ok :: "os_t \<Rightarrow> bool" where
  "frames_ok s \<longleftrightarrow> os_wf s \<and> rdmflg (ram s) \<noteq> 0 \<and> pool_ok (ram s)
   \<and> (\<forall>p mm. p < length (pcbs s) \<longrightarrow> proc_mm s p = Some mm \<longrightarrow> space_ok mm)
   \<and> (\<forall>x y f. frame_at s x = Some f \<longrightarrow> frame_at s y = Some f \<longrightarrow> x = y)
   \<and> (\<forall>x f. frame_at s x = Some f \<longrightarrow>
        (f + 1) * 256 \<le> length (storage (ram s)) \<and> f \<notin> unat ` set (free_frames (ram s)))
   \<and> distinct (free_frames (ram s))
   \<and> (\<forall>f \<in> set (free_frames (ram s)). unat f < 8192 \<and> (unat f + 1) * 256 \<le> length (storage (ram s)))"

definition vbyte :: "os_t \<Rightarrow> pcb_ref \<Rightarrow> nat \<Rightarrow> u8 option" where
  "vbyte s p a = map_option (\<lambda>f. storage (ram s) ! (f * 256 + a mod 256)) (frame_at s (p, a div 256))"

definition listed :: "os_t \<Rightarrow> pcb_ref \<Rightarrow> bool" where
  "listed s p \<longleftrightarrow> find_caller s (pid (pcbs s ! p)) = Some p"

lemma frames_okD:
  assumes "frames_ok s"
  shows "os_wf s" and "rdmflg (ram s) \<noteq> 0" and "pool_ok (ram s)"
    and "p < length (pcbs s) \<Longrightarrow> proc_mm s p = Some mm \<Longrightarrow> space_ok mm"
    and "frame_at s x = Some f \<Longrightarrow> frame_at s y = Some f \<Longrightarrow> x = y"
    and "frame_at s x = Some f \<Longrightarrow> (f + 1) * 256 \<le> length (storage (ram s))"
  using assms unfolding frames_ok_def by blast+

lemma frame_at_eq:
  "p < length (pcbs s) \<Longrightarrow> proc_mm s p = Some mm \<Longrightarrow>
   frame_at s (p, q) = (if q < heap_pages mm then Some (page_frame mm (of_nat q)) else None)"
  by (simp add: frame_at_def)

lemma page_frame_less: "page_frame mm q < 8192"
  by (simp add: page_frame_def FPN_eq unat_take_bit)

section \<open>Reading a resident page changes nothing\<close>

lemma store_load_caller:
  assumes "os_wf s"
  shows "store_caller s p (load_caller s p) = s"
proof -
  obtain r w where d: "k_mram s = Some r" "k_active_mswp s = Some w" using assms by (auto simp: os_wf_def)
  show ?thesis
    by (cases "pcb_mm (pcbs s ! p)")
       (simp_all add: store_caller_def set_proc_mm_def proc_mm_def d device_def set_device_def Let_def)
qed

lemma pt_lookup_zero_or_found: "pt_lookup t p \<noteq> 0 \<Longrightarrow> resolve t (pgn_path p) \<noteq> None"
  by (cases "resolve t (pgn_path p)") (auto simp: pt_lookup_def)

lemma tbl_get_found:
  assumes "pt_wf t" and "pt_lookup t p \<noteq> 0"
  shows "snd (tbl_get t p) = t"
proof -
  have w: "pt_walk t p = (fst (pt_walk t p), snd (pt_walk t p))" by simp
  show ?thesis
    using pt_walk_spec(5) [OF assms(1) w pt_lookup_zero_or_found [OF assms(2)]] by (simp add: tbl_get_eq)
qed

lemma pte_get_resident:
  assumes "own_mm c = Some mm" and "mm_ok mm" and "resident mm q"
  shows "pte_get_entry c q = Inr (ucast (pte_of mm q), c)"
proof -
  have "pt_lookup (pgd mm) q \<noteq> 0"
  proof
    assume "pt_lookup (pgd mm) q = 0"
    then show False using assms(3) by (simp add: resident_def pte_of_def present_iff_bit)
  qed
  then have "snd (tbl_get (pgd mm) q) = pgd mm"
    using tbl_get_found assms(2) by (simp add: mm_ok_def)
  then show ?thesis using pte_get_entry_eq [OF assms(1,2), of q] assms(1) by simp
qed

lemma pg_getpage_resident:
  assumes "os_wf s" and "proc_mm s p = Some mm" and "mm_ok mm" and "resident mm (scast pgn)"
  shows "pg_getpage s p pgn = Inr ((0, Some (PAGING_FPN (ucast (pte_of mm (scast pgn))))), s)"
proof -
  have "pte_get_entry (load_caller s p) (scast pgn) = Inr (ucast (pte_of mm (scast pgn)), load_caller s p)"
    by (rule pte_get_resident) (use assms in simp_all)
  then have "on_proc s p (\<lambda>c. pte_get_entry c (scast pgn)) = Inr (ucast (pte_of mm (scast pgn)), s)"
    by (simp add: on_proc_def store_load_caller [OF assms(1)])
  then show ?thesis using assms(4) by (simp add: pg_getpage_def resident_def)
qed

section \<open>Addresses\<close>

lemma scast_small:
  fixes w :: i32
  assumes "unat w < 2 ^ 31"
  shows "unat (scast w :: u64) = unat w"
proof -
  have "w = of_nat (unat w)" by simp
  then have "(scast w :: u64) = of_nat (unat w)" using scast_of_nat_small [OF assms] by metis
  then show ?thesis using assms by (simp add: unsigned_ucast_eq take_bit_nat_eq_self)
qed

lemma unat_phy_addr:
  assumes "unat f < 8192" and "unat off < 256"
  shows "unat (scast (phy_addr f off) :: u64) = unat f * 256 + unat off"
proof -
  have "push_bit 8 f = f * 256" by (simp add: push_bit_eq_mult)
  then have "unat (phy_addr f off) = unat f * 256 + unat off"
    using assms by (simp add: phy_addr_def PAGING_ADDR_FPN_LOBIT_def PAGING_PAGESZ_def unat_word_ariths)
  then show ?thesis using assms by (simp add: scast_small)
qed

lemma page_of_addr:
  assumes "unat (a :: u64) < 2 ^ 22"
  shows "(scast (PAGING_PGN (ucast a)) :: u64) = of_nat (unat a div 256)"
    and "unat (PAGING_OFFST (ucast a)) = unat a mod 256"
proof -
  have u: "unat (ucast a :: u32) = unat a"
    using assms by (simp add: unsigned_ucast_eq take_bit_nat_eq_self)
  have "unat (PAGING_PGN (ucast a)) = unat a div 256"
    using assms by (simp add: unat_PGN u)
  then have "unat (scast (PAGING_PGN (ucast a)) :: u64) = unat a div 256"
    using assms by (simp add: scast_small)
  then show "(scast (PAGING_PGN (ucast a)) :: u64) = of_nat (unat a div 256)"
    using assms by (simp add: word_unat_eq_iff unat_of_nat)
  show "unat (PAGING_OFFST (ucast a)) = unat a mod 256" by (simp add: unat_OFFST u)
qed

section \<open>Memory calls on a listed process\<close>

definition set_ram :: "os_t \<Rightarrow> memphy \<Rightarrow> os_t" where
  "set_ram s mp = s\<lparr>devs := set_device (k_mram s) mp (devs s)\<rparr>"

lemma set_ram_simps [simp]:
  "pcbs (set_ram s mp) = pcbs s" "mms (set_ram s mp) = mms s" "k_mram (set_ram s mp) = k_mram s"
  "k_active_mswp (set_ram s mp) = k_active_mswp s" "k_mm (set_ram s mp) = k_mm s"
  "proc_mm (set_ram s mp) p = proc_mm s p"
  "find_caller (set_ram s mp) i = find_caller s i" "length (devs (set_ram s mp)) = length (devs s)"
  by (simp_all add: set_ram_def proc_mm_def find_caller_def set_device_def split: option.split)

lemma frame_at_set_ram [simp]: "frame_at (set_ram s mp) = frame_at s"
  by (simp add: frame_at_def fun_eq_iff)

lemma ram_set_ram [simp]: "os_wf s \<Longrightarrow> device (set_ram s mp) (k_mram s) = mp"
  by (auto simp: os_wf_def device_def set_ram_def set_device_def)

lemma os_wf_set_ram [simp]: "os_wf (set_ram s mp) = os_wf s"
  by (simp add: os_wf_def)

lemma syscall_io:
  assumes "os_wf s" and "find_caller s i \<noteq> None"
  shows "syscall s i 17 \<lparr>a1 = of_int SYSMEM_IO_WRITE, a2 = a, a3 = v\<rparr> =
      bindR (MEMPHY_write (ram s) a (ucast v)) (\<lambda>(_, mp).
        Inr (0, \<lparr>a1 = of_int SYSMEM_IO_WRITE, a2 = a, a3 = v\<rparr>, set_ram s mp))"
    and "syscall s i 17 \<lparr>a1 = of_int SYSMEM_IO_READ, a2 = a, a3 = v\<rparr> =
      bindR (MEMPHY_read (ram s) a 0) (\<lambda>(r, b, mp). if r \<noteq> 0 then Inl Uninit
        else Inr (0, \<lparr>a1 = of_int SYSMEM_IO_READ, a2 = a, a3 = scast b\<rparr>, set_ram s mp))"
  using assms
  by (auto simp: os_wf_def syscall_def sys_memmap_def sysmem_ops set_ram_def device_def set_device_def
      cong: if_cong)

lemma syscall_inc:
  assumes "find_caller s i = Some p"
  shows "syscall s i 17 \<lparr>a1 = of_int SYSMEM_INC_OP, a2 = a, a3 = v\<rparr> =
      bindR (on_proc s p (\<lambda>c. inc_vma_limit c (ucast a) v)) (\<lambda>(_, s).
        Inr (0, \<lparr>a1 = of_int SYSMEM_INC_OP, a2 = a, a3 = v\<rparr>, s))"
  using assms by (simp add: syscall_def sys_memmap_def sysmem_ops)

lemma byte_roundtrip [simp]: "ucast (scast (v :: u8) :: u64) = v"
  by (rule bit_word_eqI) (simp add: bit_simps)

lemma set_ram_same: "os_wf s \<Longrightarrow> set_ram s (ram s) = s"
  by (auto simp: os_wf_def set_ram_def device_def set_device_def)

section \<open>Byte access below the break\<close>

lemma frames_ok_at:
  assumes "frames_ok s" and "p < length (pcbs s)" and "proc_mm s p = Some mm"
    and "a < unat (sbrk (heap mm))"
  shows "frame_at s (p, a div 256) = Some (page_frame mm (of_nat (a div 256)))"
    and "resident mm (of_nat (a div 256))"
    and "page_frame mm (of_nat (a div 256)) * 256 + a mod 256 < length (storage (ram s))"
    and "a < 2 ^ 22"
proof -
  have sp: "space_ok mm" using frames_okD(4) [OF assms(1-3)] .
  then have m: "unat (sbrk (heap mm)) = heap_pages mm * 256"
    unfolding space_ok_def heap_pages_def by (metis mod_0_imp_dvd dvd_div_mult_self)
  then have lt: "a div 256 < heap_pages mm" using assms(4) by (simp add: less_mult_imp_div_less)
  then show f: "frame_at s (p, a div 256) = Some (page_frame mm (of_nat (a div 256)))"
    using assms(2,3) by (simp add: frame_at_eq)
  show "resident mm (of_nat (a div 256))" using sp lt by (simp add: space_ok_def)
  have "(page_frame mm (of_nat (a div 256)) + 1) * 256 \<le> length (storage (ram s))"
    using frames_okD(6) [OF assms(1) f] .
  moreover have "page_frame mm (of_nat (a div 256)) * 256 + a mod 256
      < (page_frame mm (of_nat (a div 256)) + 1) * 256" by simp
  ultimately show "page_frame mm (of_nat (a div 256)) * 256 + a mod 256 < length (storage (ram s))"
    by (rule less_le_trans [rotated])
  show "a < 2 ^ 22" using sp assms(4) by (simp add: space_ok_def)
qed

lemma pg_setval_at:
  assumes ok: "frames_ok s" and p: "p < length (pcbs s)" "proc_mm s p = Some mm" and l: "listed s p"
    and a: "unat (a :: u64) < unat (sbrk (heap mm))"
  shows "pg_setval s p (ucast a) v = Inr (0, set_ram s ((ram s)\<lparr>storage := (storage (ram s))
      [page_frame mm (of_nat (unat a div 256)) * 256 + unat a mod 256 := v]\<rparr>))"
proof -
  note at = frames_ok_at [OF ok p a]
  note wf = frames_okD(1) [OF ok]
  have mmok: "mm_ok mm" using frames_okD(4) [OF ok p] by (simp add: space_ok_def)
  let ?q = "of_nat (unat a div 256) :: u64"
  note pg = page_of_addr [OF at(4)]
  have get: "pg_getpage s p (PAGING_PGN (ucast a)) = Inr ((0, Some (PAGING_FPN (ucast (pte_of mm ?q)))), s)"
    using pg_getpage_resident [OF wf p(2) mmok, of "PAGING_PGN (ucast a)"] at(2) by (simp only: pg(1))
  have adr: "unat (scast (phy_addr (PAGING_FPN (ucast (pte_of mm ?q))) (PAGING_OFFST (ucast a))) :: u64)
      = page_frame mm ?q * 256 + unat a mod 256"
    using page_frame_less [of mm ?q]
    by (subst unat_phy_addr) (simp_all add: pg(2) page_frame_def)
  have "find_caller s (pid (pcbs s ! p)) \<noteq> None" using l by (simp add: listed_def)
  then show ?thesis
    using frames_okD(2) [OF ok] at(3)
    by (simp add: pg_setval_def get syscall_io [OF wf] MEMPHY_write_random adr)
qed

lemma pg_getval_at:
  assumes ok: "frames_ok s" and p: "p < length (pcbs s)" "proc_mm s p = Some mm" and l: "listed s p"
    and a: "unat (a :: u64) < unat (sbrk (heap mm))"
  shows "pg_getval s p (ucast a) = Inr (0, s)"
proof -
  note at = frames_ok_at [OF ok p a]
  note wf = frames_okD(1) [OF ok]
  have mmok: "mm_ok mm" using frames_okD(4) [OF ok p] by (simp add: space_ok_def)
  let ?q = "of_nat (unat a div 256) :: u64"
  note pg = page_of_addr [OF at(4)]
  have get: "pg_getpage s p (PAGING_PGN (ucast a)) = Inr ((0, Some (PAGING_FPN (ucast (pte_of mm ?q)))), s)"
    using pg_getpage_resident [OF wf p(2) mmok, of "PAGING_PGN (ucast a)"] at(2) by (simp only: pg(1))
  have adr: "unat (scast (phy_addr (PAGING_FPN (ucast (pte_of mm ?q))) (PAGING_OFFST (ucast a))) :: u64)
      = page_frame mm ?q * 256 + unat a mod 256"
    using page_frame_less [of mm ?q]
    by (subst unat_phy_addr) (simp_all add: pg(2) page_frame_def)
  have "find_caller s (pid (pcbs s ! p)) \<noteq> None" using l by (simp add: listed_def)
  then show ?thesis
    using frames_okD(2) [OF ok] at(3)
    by (simp add: pg_getval_def get syscall_io [OF wf] MEMPHY_read_random adr set_ram_same [OF wf])
qed

lemma vbyte_iff:
  assumes "frames_ok s" and "p < length (pcbs s)" and "proc_mm s p = Some mm"
  shows "vbyte s p a \<noteq> None \<longleftrightarrow> a < unat (sbrk (heap mm))"
proof
  assume "a < unat (sbrk (heap mm))"
  then show "vbyte s p a \<noteq> None" using frames_ok_at(1) [OF assms] by (simp add: vbyte_def)
next
  assume "vbyte s p a \<noteq> None"
  then have "a div 256 < heap_pages mm"
    using assms(2,3) by (auto simp: vbyte_def frame_at_eq split: if_splits)
  then have "a < heap_pages mm * 256" by (simp add: less_mult_imp_div_less div_less_iff_less_mult)
  then show "a < unat (sbrk (heap mm))" by (simp add: heap_pages_def)
qed

section \<open>Writing a byte\<close>

lemma frames_ok_storage:
  assumes "frames_ok s" and "length st = length (storage (ram s))"
  shows "frames_ok (set_ram s ((ram s)\<lparr>storage := st\<rparr>))"
proof -
  have "pool_ok ((ram s)\<lparr>storage := st\<rparr>) = pool_ok (ram s)"
    "free_frames ((ram s)\<lparr>storage := st\<rparr>) = free_frames (ram s)"
    by (simp_all add: pool_ok_def free_frames_def)
  then show ?thesis using assms unfolding frames_ok_def by simp
qed

text \<open>Writing one byte of a frame changes the one virtual address that maps to it.\<close>

lemma vbyte_write:
  assumes ok: "frames_ok s" and f: "frame_at s (p, a div 256) = Some f"
  shows "vbyte (set_ram s ((ram s)\<lparr>storage := (storage (ram s))[f * 256 + a mod 256 := v]\<rparr>)) q b =
    (if q = p \<and> b = a then Some v else vbyte s q b)"
proof (cases "frame_at s (q, b div 256)")
  case None
  then have "\<not> (q = p \<and> b = a)" using f by auto
  then show ?thesis using None by (auto simp: vbyte_def)
next
  case (Some g)
  have "f * 256 + a mod 256 < (f + 1) * 256" by simp
  then have i: "f * 256 + a mod 256 < length (storage (ram s))"
    using frames_okD(6) [OF ok f] by (rule less_le_trans)
  have "g * 256 + b mod 256 = f * 256 + a mod 256 \<longleftrightarrow> g = f \<and> b mod 256 = a mod 256"
  proof
    assume e: "g * 256 + b mod 256 = f * 256 + a mod 256"
    have "(g * 256 + b mod 256) div 256 = g" "(f * 256 + a mod 256) div 256 = f" by simp_all
    then show "g = f \<and> b mod 256 = a mod 256" using e by simp
  qed simp
  also have "\<dots> \<longleftrightarrow> q = p \<and> b = a"
  proof
    assume e: "g = f \<and> b mod 256 = a mod 256"
    then have "(q, b div 256) = (p, a div 256)" using frames_okD(5) [OF ok] f Some by metis
    then show "q = p \<and> b = a" using e by (metis div_mult_mod_eq prod.inject)
  qed (use f Some in auto)
  finally show ?thesis using Some i frames_okD(1) [OF ok]
    by (auto simp: vbyte_def nth_list_update)
qed

lemma sint_small:
  assumes "unat (w :: i32) < 2 ^ 31"
  shows "sint w = int (unat w)"
proof -
  have "uint w < 2 ^ 31" using assms by (metis uint_nat of_nat_less_iff of_nat_numeral of_nat_power)
  then have "signed_take_bit 31 (uint w) = uint w"
    by (simp add: signed_take_bit_int_eq_self_iff order_trans [OF _ uint_ge_0])
  then show ?thesis by (simp only: sint_signed_take_bit uint_nat)
qed

lemma sint_index:
  assumes "unat (w :: i32) < 30"
  shows "\<not> sint w < 0" and "\<not> 30 < sint w" and "nat (sint w) = unat w"
proof -
  have s: "sint w = int (unat w)" using assms by (intro sint_small) simp
  show "\<not> sint w < 0" "nat (sint w) = unat w" unfolding s by simp_all
  show "\<not> 30 < sint w" unfolding s using assms by linarith
qed

lemma symrg_small: "unat rgid < 30 \<Longrightarrow> get_symrg_byid rgid = Some (unat rgid)"
  by (simp add: get_symrg_byid_def PAGING_MAX_SYMTBL_SZ_def sint_index)

lemma print_pgtbl_ok: "proc_mm s p = Some mm \<Longrightarrow> \<exists>x. print_pgtbl s p = Inr x"
  by (simp add: print_pgtbl_def Let_def)

section \<open>Replacing the memory of one process\<close>

lemma proc_mm_set_mm:
  assumes "os_wf s" and "p < length (pcbs s)" and "proc_mm s p = Some mm0" and "q < length (pcbs s)"
  shows "proc_mm (set_proc_mm s p mm) q = (if q = p then Some mm else proc_mm s q)"
proof -
  obtain m where m: "pcb_mm (pcbs s ! p) = Some m" using assms(3) by (auto simp: proc_mm_def)
  have "proc_mm (set_proc_mm s p mm) p = Some mm"
    using m os_wfD(1) [OF assms(1,2) m] by (simp add: proc_mm_def set_proc_mm_def)
  then show ?thesis
    using confined_set_mm [OF assms(1,2), of mm] assms(4) by (auto simp: confined_def)
qed

lemma set_mm_simps [simp]:
  "pcbs (set_proc_mm s p mm) = pcbs s" "devs (set_proc_mm s p mm) = devs s"
  "k_mram (set_proc_mm s p mm) = k_mram s" "k_active_mswp (set_proc_mm s p mm) = k_active_mswp s"
  "k_mm (set_proc_mm s p mm) = k_mm s" "device (set_proc_mm s p mm) d = device s d"
  "find_caller (set_proc_mm s p mm) i = find_caller s i" "sched (set_proc_mm s p mm) = sched s"
  by (simp_all add: set_proc_mm_def device_def find_caller_def split: option.split)

lemma os_wf_set_mm: "os_wf s \<Longrightarrow> os_wf (set_proc_mm s p mm)"
  by (simp add: os_wf_def set_proc_mm_def split: option.split)

lemma store_caller_split:
  assumes "os_wf s"
  shows "store_caller s p \<lparr>own_mm = Some mm, mram = mp, active_mswp = device s (k_active_mswp s)\<rparr>
    = set_ram (set_proc_mm s p mm) mp"
proof -
  obtain r w where d: "k_mram s = Some r" "k_active_mswp s = Some w" "r \<noteq> w" using assms by (auto simp: os_wf_def)
  have "((devs s)[r := mp])[w := devs s ! w] = (devs s)[r := mp]" using d(3) by (metis list_update_id nth_list_update_neq)
  then show ?thesis by (simp add: store_caller_def set_ram_def set_device_def device_def d Let_def)
qed

lemma set_proc_mm_twice:
  "set_proc_mm (set_ram (set_proc_mm s p mm) mp) p mm' = set_ram (set_proc_mm s p mm') mp"
  by (simp add: set_proc_mm_def set_ram_def split: option.split)

text \<open>Regions, symbols and FIFO order do not matter for the frames.\<close>

lemma frames_ok_set_mm:
  assumes ok: "frames_ok s" and p: "p < length (pcbs s)" "proc_mm s p = Some mm"
    and mm': "mm_ok mm'" "sbrk (heap mm') = sbrk (heap mm)" "\<And>q. pte_of mm' q = pte_of mm q"
  shows "frames_ok (set_proc_mm s p mm')" and "frame_at (set_proc_mm s p mm') = frame_at s"
proof -
  note wf = frames_okD(1) [OF ok]
  show fr: "frame_at (set_proc_mm s p mm') = frame_at s"
  proof (rule ext)
    fix x :: "pcb_ref \<times> nat"
    obtain q i where x: "x = (q, i)" by (cases x)
    show "frame_at (set_proc_mm s p mm') x = frame_at s x"
    proof (cases "q < length (pcbs s)")
      case True
      then show ?thesis using proc_mm_set_mm [OF wf p True, of mm'] p(2) mm'(2,3)
        by (simp add: x frame_at_def heap_pages_def page_frame_def)
    qed (simp add: x frame_at_def)
  qed
  have "space_ok mm''" if "q < length (pcbs s)" "proc_mm (set_proc_mm s p mm') q = Some mm''" for q mm''
  proof (cases "q = p")
    case True
    then have "mm'' = mm'" using that proc_mm_set_mm [OF wf p that(1), of mm'] by simp
    then show ?thesis using frames_okD(4) [OF ok p] mm'
      by (simp add: space_ok_def heap_pages_def resident_def)
  next
    case False
    then show ?thesis using that proc_mm_set_mm [OF wf p that(1), of mm'] frames_okD(4) [OF ok that(1)] by simp
  qed
  then show "frames_ok (set_proc_mm s p mm')"
    using ok os_wf_set_mm [OF wf] unfolding frames_ok_def by (simp add: fr)
qed

lemma vbyte_same: "frame_at s' = frame_at s \<Longrightarrow> storage (ram s') = storage (ram s) \<Longrightarrow> vbyte s' = vbyte s"
  by (simp add: vbyte_def fun_eq_iff)

section \<open>Releasing a region\<close>

definition put_sym :: "mm \<Rightarrow> nat \<Rightarrow> vm_rg \<Rightarrow> mm" where
  "put_sym mm i rg = mm\<lparr>symrgtbl := (symrgtbl mm)[i := rg]\<rparr>"

lemma put_sym_simps [simp]:
  "symrgtbl (put_sym mm i rg) = (symrgtbl mm)[i := rg]" "heap (put_sym mm i rg) = heap mm"
  "mmap (put_sym mm i rg) = mmap mm" "pte_of (put_sym mm i rg) q = pte_of mm q"
  "fifo_pgn (put_sym mm i rg) = fifo_pgn mm"
  "regions (put_sym mm i rg) = vm_freerg_list (heap mm) @ (symrgtbl mm)[i := rg]"
  by (simp_all add: put_sym_def heap_def pte_of_def regions_def)

lemma mm_ok_put_sym: "mm_ok mm \<Longrightarrow> mm_ok (put_sym mm i rg)"
  by (simp add: mm_ok_def put_sym_def)

lemma enlist_freerg_eq:
  "mm_ok mm \<Longrightarrow> enlist_vm_freerg_list mm r =
    (if rg_end r \<le> rg_start r then Inr (-1, mm) else Inr (0, set_free mm (r # vm_freerg_list (heap mm))))"
  by (simp add: enlist_vm_freerg_list_def mmap_heap set_free_def)

lemma zero_rg [simp]: "\<not> covers x (init_vm_rg 0 0)" "in_heap b (init_vm_rg 0 0)"
  by (simp_all add: covers_def in_heap_def init_vm_rg_def)

definition free_region :: "mm \<Rightarrow> nat \<Rightarrow> mm" where
  "free_region mm i =
     (let r = symrgtbl mm ! i; mm' = put_sym mm i (init_vm_rg 0 0)
      in if rg_end r \<le> rg_start r then mm' else set_free mm' (r # vm_freerg_list (heap mm)))"

lemma free_region:
  assumes "mm_ok mm" and "i < 30"
  shows "mm_ok (free_region mm i)" and "symrgtbl (free_region mm i) = (symrgtbl mm)[i := init_vm_rg 0 0]"
    and "sbrk (heap (free_region mm i)) = sbrk (heap mm)" and "pte_of (free_region mm i) q = pte_of mm q"
    and "cover (regions (free_region mm i)) x = cover (regions mm) x"
    and "regions_ok mm \<Longrightarrow> regions_ok (free_region mm i)"
proof -
  have len: "length (symrgtbl mm) = 30" using assms(1) by (simp add: mm_ok_def PAGING_MAX_SYMTBL_SZ_def)
  show "mm_ok (free_region mm i)" "symrgtbl (free_region mm i) = (symrgtbl mm)[i := init_vm_rg 0 0]"
    and sb: "sbrk (heap (free_region mm i)) = sbrk (heap mm)" and "pte_of (free_region mm i) q = pte_of mm q"
    using assms(1) by (simp_all add: free_region_def Let_def mm_ok_set_free mm_ok_put_sym)
  have nc: "rg_end r \<le> rg_start r \<Longrightarrow> \<not> covers y r" for r y
    by (auto simp: covers_def word_le_nat_alt)
  have cov: "cover (regions (free_region mm i)) y = cover (regions mm) y" for y
    using cover_update [of i "symrgtbl mm" "init_vm_rg 0 0" y] len assms(2) nc [of "symrgtbl mm ! i" y]
    by (auto simp: free_region_def Let_def regions_def split: if_splits)
  show "cover (regions (free_region mm i)) x = cover (regions mm) x" by (rule cov)
  assume ok: "regions_ok mm"
  have "in_heap (sbrk (heap mm)) r" if "r \<in> set (regions (free_region mm i))" for r
  proof -
    have "r = init_vm_rg 0 0 \<or> r \<in> set (regions mm)"
      using that len assms(2) set_update_subset_insert [of "symrgtbl mm" i "init_vm_rg 0 0"]
      by (auto simp: free_region_def Let_def regions_def split: if_splits)
    then show ?thesis using regions_okD [OF ok] by auto
  qed
  then show "regions_ok (free_region mm i)" using ok by (simp add: regions_ok_def cov sb)
qed

lemma libfree_eq:
  assumes "os_wf s" and "p < length (pcbs s)" and "proc_mm s p = Some mm" and "mm_ok mm" and "unat rgid < 30"
  shows "libfree s p rgid =
    (if symrgtbl mm ! unat rgid = init_vm_rg 0 0 then Inr (-1, s)
     else Inr (0, set_proc_mm s p (free_region mm (unat rgid))))"
proof -
  let ?i = "unat rgid"
  have len: "length (symrgtbl mm) = 30" using assms(4) by (simp add: mm_ok_def PAGING_MAX_SYMTBL_SZ_def)
  have z: "rg_start r = 0 \<and> rg_end r = 0 \<longleftrightarrow> r = init_vm_rg 0 0" for r :: vm_rg
    by (cases r) (simp add: init_vm_rg_def)
  have "enlist_vm_freerg_list (mm\<lparr>symrgtbl := (symrgtbl mm)[?i := init_vm_rg 0 0]\<rparr>) (symrgtbl mm ! ?i)
      = Inr (if rg_end (symrgtbl mm ! ?i) \<le> rg_start (symrgtbl mm ! ?i) then -1 else 0, free_region mm ?i)"
    using enlist_freerg_eq [OF mm_ok_put_sym [OF assms(4)], of ?i "init_vm_rg 0 0" "symrgtbl mm ! ?i"]
    by (simp add: free_region_def Let_def put_sym_def [symmetric])
  then have "lib_free s p 0 rgid = (if symrgtbl mm ! ?i = init_vm_rg 0 0 then Inr (-1, s)
     else Inr (0, set_proc_mm s p (free_region mm ?i)))"
    using assms(3,5) len by (simp add: lib_free_def symrg_small sint_index PAGING_MAX_SYMTBL_SZ_def z)
  moreover have "proc_mm (set_proc_mm s p (free_region mm ?i)) p = Some (free_region mm ?i)"
    using proc_mm_set_mm [OF assms(1-3) assms(2)] by simp
  ultimately show ?thesis using print_pgtbl_ok [of "set_proc_mm s p (free_region mm ?i)" p]
    by (auto simp: libfree_def)
qed

section \<open>Properties\<close>

text \<open>C3: virtual memory is a map: a write through a register to an accessible address
  returns 0, is seen at exactly that virtual address of that process, and changes no other byte
  of any process; every frame still has one owner.\<close>

theorem libwrite_virtual_byte:
  assumes "frames_ok s" and "p < length (pcbs s)" and "proc_mm s p = Some mm" and "listed s p"
    and "unat rgid < 30"
    and "vbyte s p (unat (rg_start (symrgtbl mm ! unat rgid) + offset)) \<noteq> None"
  shows "\<exists>s'. libwrite s p v rgid offset = Inr (0, s') \<and> frames_ok s' \<and> proc_mm s' = proc_mm s
    \<and> (\<forall>q b. vbyte s' q b =
         (if q = p \<and> b = unat (rg_start (symrgtbl mm ! unat rgid) + offset) then Some v else vbyte s q b))"
proof -
  have lt: "unat (rg_start (symrgtbl mm ! unat rgid) + offset) < unat (sbrk (heap mm))"
    using assms(6) vbyte_iff [OF assms(1-3)] by blast
  let ?a = "rg_start (symrgtbl mm ! unat rgid) + offset"
  let ?s = "set_ram s ((ram s)\<lparr>storage := (storage (ram s))
      [page_frame mm (of_nat (unat ?a div 256)) * 256 + unat ?a mod 256 := v]\<rparr>)"
  have ok: "mm_ok mm" using frames_okD(4) [OF assms(1-3)] by (simp add: space_ok_def)
  then have len: "length (symrgtbl mm) = 30" by (simp add: mm_ok_def PAGING_MAX_SYMTBL_SZ_def)
  have "lib_write s p 0 rgid offset v = Inr (0, ?s)"
    using assms(3,5) pg_setval_at [OF assms(1-4) lt] len
    by (simp add: lib_write_def symrg_small find_heap [OF ok])
  moreover obtain x where "print_pgtbl ?s p = Inr x" using print_pgtbl_ok [of ?s p mm] assms(3) by auto
  ultimately have "libwrite s p v rgid offset = Inr (0, ?s)" by (simp add: libwrite_def)
  moreover have "frames_ok ?s" by (rule frames_ok_storage [OF assms(1)]) simp
  moreover have "proc_mm ?s = proc_mm s" by (simp add: fun_eq_iff)
  ultimately show ?thesis
    using vbyte_write [OF assms(1) frames_ok_at(1) [OF assms(1-3) lt]] by blast
qed

text \<open>C31: a read of an accessible byte never delivers it: \<open>libread\<close> returns 0, leaves the whole
  state as it is and hands out the indeterminate byte it started from, whatever is stored at
  the address.  The region is looked up in the \<open>mm_struct\<close> the kernel points to.\<close>

theorem libread_returns_nothing:
  assumes "frames_ok s" and "p < length (pcbs s)" and "proc_mm s p = Some mm" and "listed s p"
    and "unat rgid < 30" and "k_mm s = Some m" and "mm_ok (mms s ! m)"
    and "vbyte s p (unat (rg_start (symrgtbl (mms s ! m) ! unat rgid) + offset)) = Some d"
  shows "libread data0 s p rgid offset = Inr ((0, scast data0), s)"
proof -
  have lt: "unat (rg_start (symrgtbl (mms s ! m) ! unat rgid) + offset) < unat (sbrk (heap mm))"
    using assms(8) vbyte_iff [OF assms(1-3)] by blast
  have "length (symrgtbl (mms s ! m)) = 30" using assms(7) by (simp add: mm_ok_def PAGING_MAX_SYMTBL_SZ_def)
  then have "lib_read s p 0 rgid offset = Inr (0, s)"
    using assms(3,5,6) pg_getval_at [OF assms(1-4) lt] by (simp add: lib_read_def symrg_small)
  then show ?thesis using print_pgtbl_ok [OF assms(3)] by (auto simp: libread_def)
qed

end
