(* ===== verification/OS_Alloc.thy ===== *)
theory OS_Alloc
  imports OS_Vm
begin

text \<open>
  Allocation: \<open>liballoc\<close> under the invariant of \<open>OS_Vm\<close>.  It takes a free region when one is
  large enough and grows the heap otherwise; both ways it keeps regions disjoint, pages
  resident and frames uniquely owned.
\<close>

section \<open>The two branches of the allocator\<close>

definition fitted :: "mm \<Rightarrow> vm_rg list \<Rightarrow> nat \<Rightarrow> vm_rg \<Rightarrow> mm" where
  "fitted mm rest i g = put_sym (set_free mm rest) i g"

definition grown :: "mm \<Rightarrow> u64 list \<Rightarrow> nat \<Rightarrow> u64 \<Rightarrow> mm" where
  "grown mm fs i sz =
     put_sym (grow mm fs) i \<lparr>rg_start = sbrk (heap mm), rg_end = sbrk (heap mm) + sz\<rparr>"

lemma set_symrg_eq:
  "mm_ok mm \<Longrightarrow> unat rgid < 30 \<Longrightarrow> set_symrg mm rgid rg = Inr (put_sym mm (unat rgid) rg)"
  by (simp add: set_symrg_def sint_index mm_ok_def PAGING_MAX_SYMTBL_SZ_def put_sym_def)

lemma size_arg:
  assumes "unat (sz :: u64) < 2 ^ 31"
  shows "0 \<le> sint (ucast sz :: i32)" and "nat (sint (ucast sz :: i32)) = unat sz"
  unfolding sint_ucast_small [OF assms] by simp_all

lemma load_store_ram:
  "load_caller s p\<lparr>own_mm := Some mm\<rparr> = \<lparr>own_mm = Some mm, mram = ram s, active_mswp = device s (k_active_mswp s)\<rparr>"
  "load_caller s p\<lparr>mram := mp, own_mm := Some mm\<rparr> = \<lparr>own_mm = Some mm, mram = mp, active_mswp = device s (k_active_mswp s)\<rparr>"
  by (simp_all add: load_caller_def)

lemma ucast_brk:
  assumes "unat (b :: u64) < 2 ^ 31"
  shows "(scast (ucast b :: i32) :: u64) = b"
proof -
  have "(ucast b :: i32) = of_nat (unat b)" by simp
  then have "(scast (ucast b :: i32) :: u64) = of_nat (unat b)" using scast_of_nat_small [OF assms] by metis
  then show ?thesis by simp
qed

lemma liballoc_fit:
  assumes wf: "os_wf s" and p: "p < length (pcbs s)" "proc_mm s p = Some mm"
    and ok: "mm_ok mm" "regions_ok mm" and brk: "unat (sbrk (heap mm)) < 2 ^ 63"
    and sz: "unat sz < 2 ^ 31" and i: "unat rgid < 30"
    and fit: "first_fit (ucast sz) (vm_freerg_list (heap mm)) = Some (g, rest)"
  shows "liballoc s p sz rgid = Inr (0, set_proc_mm s p (fitted mm rest (unat rgid) g))"
proof -
  have get: "get_free_vmrg_area (load_caller s p) 0 (ucast sz)
      = (Some g, load_caller s p\<lparr>own_mm := Some (set_free mm rest)\<rparr>)"
    using get_free_vmrg_area_eq [of "load_caller s p" mm "ucast sz"] p(2) ok brk size_arg(1) [OF sz] fit by simp
  have "lib_alloc s p 0 rgid sz = Inr ((0, Some (rg_start g)),
      set_ram (set_proc_mm s p (fitted mm rest (unat rgid) g)) (ram s))"
    using p(2) i by (simp add: lib_alloc_def find_heap [OF ok(1)] get mm_ok_set_free [OF ok(1)] set_symrg_eq
        fitted_def load_store_ram store_caller_split [OF wf])
  moreover have "set_ram (set_proc_mm s p mm') (ram s) = set_proc_mm s p mm'" for mm'
    using set_ram_same [OF os_wf_set_mm [OF wf]] by simp
  moreover obtain x where "print_pgtbl (set_proc_mm s p (fitted mm rest (unat rgid) g)) p = Inr x"
    using print_pgtbl_ok proc_mm_set_mm [OF wf p p(1)] by metis
  ultimately show ?thesis by (simp add: liballoc_def)
qed

lemma liballoc_grow:
  assumes wf: "os_wf s" and p: "p < length (pcbs s)" "proc_mm s p = Some mm" and l: "listed s p"
    and ok: "mm_ok mm" "regions_ok mm" and brk: "unat (sbrk (heap mm)) < 2 ^ 31"
    and sz: "0 < unat sz" "unat sz < 2 ^ 31 - 256" and i: "unat rgid < 30" and pool: "pool_ok (ram s)"
    and n: "pages sz \<le> length (free_frames (ram s))"
    and fit: "first_fit (ucast sz) (vm_freerg_list (heap mm)) = None"
  shows "\<exists>mp. liballoc s p sz rgid = Inr (0, set_ram (set_proc_mm s p
        (grown mm (take (pages sz) (free_frames (ram s))) (unat rgid) sz)) mp)
    \<and> pool_ok mp \<and> free_frames mp = drop (pages sz) (free_frames (ram s)) \<and> device_core mp = device_core (ram s)"
proof -
  let ?fs = "take (pages sz) (free_frames (ram s))" and ?c = "load_caller s p"
  let ?g = "\<lparr>rg_start = sbrk (heap mm), rg_end = sbrk (heap mm) + sz\<rparr>"
  have own: "own_mm ?c = Some mm" using p(2) by simp
  have get: "get_free_vmrg_area ?c 0 (ucast sz) = (None, ?c)"
    using get_free_vmrg_area_eq [OF own ok, of "ucast sz"] brk sz(2) size_arg(1) [of sz] fit by simp
  obtain mp where inc: "inc_vma_limit ?c 0 sz = Inr (0, ?c\<lparr>mram := mp, own_mm := Some (grow mm ?fs)\<rparr>)"
    and mp: "pool_ok mp" "free_frames mp = drop (pages sz) (free_frames (ram s))"
      "device_core mp = device_core (ram s)"
    using inc_vma_limit_enough [OF own ok(1) _ sz] brk sz(2) pool n by auto
  let ?s1 = "set_ram (set_proc_mm s p (grow mm ?fs)) mp"
  have "on_proc s p (\<lambda>c. inc_vma_limit c 0 sz) = Inr (0, ?s1)"
    using inc by (simp add: on_proc_def load_store_ram store_caller_split [OF wf])
  then have call: "syscall s (pid (pcbs s ! p)) 17 \<lparr>a1 = of_int SYSMEM_INC_OP, a2 = 0, a3 = sz\<rparr>
      = Inr (0, \<lparr>a1 = of_int SYSMEM_INC_OP, a2 = 0, a3 = sz\<rparr>, ?s1)"
    using syscall_inc l by (simp add: listed_def)
  have mm1: "proc_mm ?s1 p = Some (grow mm ?fs)" using proc_mm_set_mm [OF wf p p(1)] by simp
  have heap0: "mmap mm ! 0 = heap mm" by (simp add: heap_def)
  have "lib_alloc s p 0 rgid sz = Inr ((0, Some (sbrk (heap mm))),
      set_ram (set_proc_mm s p (grown mm ?fs (unat rgid) sz)) mp)"
    using p(2) i call mm1 mm_ok_grow [OF ok(1)]
    by (simp add: lib_alloc_def find_heap [OF ok(1)] get store_load_caller [OF wf] heap0 ucast_brk [OF brk]
        set_symrg_eq set_proc_mm_twice grown_def Let_def)
  moreover obtain x where "print_pgtbl (set_ram (set_proc_mm s p (grown mm ?fs (unat rgid) sz)) mp) p = Inr x"
    using print_pgtbl_ok [of "set_ram (set_proc_mm s p (grown mm ?fs (unat rgid) sz)) mp" p]
      proc_mm_set_mm [OF wf p p(1)] by auto
  ultimately show ?thesis using mp by (intro exI [of _ mp]) (simp add: liballoc_def)
qed

section \<open>Regions stay disjoint\<close>

lemma regions_ok_fitted:
  fixes sz :: u64
  assumes ok: "mm_ok mm" "regions_ok mm" and brk: "unat (sbrk (heap mm)) < 2 ^ 63"
    and sz: "unat sz < 2 ^ 31" and i: "i < 30"
    and fit: "first_fit (ucast sz) (vm_freerg_list (heap mm)) = Some (g, rest)"
  shows "regions_ok (fitted mm rest i g)" and "unat (rg_end g) = unat (rg_start g) + unat sz"
    and "rg_end g \<le> sbrk (heap mm)"
proof -
  note sp = first_fit_spec [OF fit size_arg(1) [OF sz] regions_ok_free [OF ok(2)] brk]
  show "unat (rg_end g) = unat (rg_start g) + unat sz" "rg_end g \<le> sbrk (heap mm)"
    using sp size_arg(2) [OF sz] by (simp_all add: in_heap_def)
  have len: "length (symrgtbl mm) = 30" using ok(1) by (simp add: mm_ok_def PAGING_MAX_SYMTBL_SZ_def)
  have "cover (regions (fitted mm rest i g)) x \<le> cover (regions mm) x" for x
    using cover_update [of i "symrgtbl mm" g x] len i sp by (simp add: fitted_def regions_def)
  then have "cover (regions (fitted mm rest i g)) x \<le> 1" for x
    using ok(2) by (meson regions_ok_def le_trans)
  moreover have "in_heap (sbrk (heap mm)) r" if "r \<in> set (regions (fitted mm rest i g))" for r
    using that sp regions_okD [OF ok(2)] set_update_subset_insert [of "symrgtbl mm" i g]
    by (auto simp: fitted_def regions_def)
  ultimately show "regions_ok (fitted mm rest i g)" by (simp add: regions_ok_def fitted_def)
qed

lemma pages_bounds: "unat sz \<le> 256 * pages sz" "256 * pages sz \<le> unat sz + 255"
  by (simp_all add: pages_def)

lemma regions_ok_grown:
  assumes ok: "mm_ok mm" "regions_ok mm" and brk: "unat (sbrk (heap mm)) + 256 * pages sz < 2 ^ 63"
    and len: "length fs = pages sz" and i: "i < 30"
  shows "regions_ok (grown mm fs i sz)"
proof -
  let ?g = "\<lparr>rg_start = sbrk (heap mm), rg_end = sbrk (heap mm) + sz\<rparr>"
  let ?b = "sbrk (heap mm) + of_nat (256 * pages sz)"
  have e: "unat (sbrk (heap mm) + sz) = unat (sbrk (heap mm)) + unat sz"
    using brk pages_bounds(1) [of sz] by (simp add: unat_word_ariths)
  have b: "unat ?b = unat (sbrk (heap mm)) + 256 * pages sz"
    using brk by (simp add: unat_word_ariths unat_of_nat del: of_nat_mult)
  have mono: "sbrk (heap mm) \<le> ?b" unfolding word_le_nat_alt b by simp
  have g: "in_heap ?b ?g" using pages_bounds(1) [of sz] unfolding in_heap_def word_le_nat_alt vm_rg.simps e b by simp
  have len30: "length (symrgtbl mm) = 30" using ok(1) by (simp add: mm_ok_def PAGING_MAX_SYMTBL_SZ_def)
  have fr: "vm_freerg_list (heap (grow mm fs)) = vm_freerg_list (heap mm)" by simp
  have sb: "sbrk (heap (grown mm fs i sz)) = ?b" by (simp add: grown_def len)
  have "cover (regions (grown mm fs i sz)) x \<le> 1" for x
  proof (cases "covers x ?g")
    case True
    then have "unat (sbrk (heap mm)) \<le> x" by (simp add: covers_def)
    then have "cover (regions mm) x = 0"
      using cover_beyond [of "regions mm" "sbrk (heap mm)" x] regions_okD [OF ok(2)] by blast
    then show ?thesis using cover_update [of i "symrgtbl mm" ?g x] len30 i
      by (simp add: grown_def regions_def split: if_splits)
  next
    case False
    then have "cover (regions (grown mm fs i sz)) x \<le> cover (regions mm) x"
      using cover_update [of i "symrgtbl mm" ?g x] len30 i by (simp add: grown_def regions_def)
    then show ?thesis using ok(2) by (meson regions_ok_def le_trans)
  qed
  moreover have "in_heap ?b r" if "r \<in> set (regions (grown mm fs i sz))" for r
  proof -
    have "r = ?g \<or> r \<in> set (regions mm)"
      using that set_update_subset_insert [of "symrgtbl mm" i ?g] by (auto simp: grown_def regions_def)
    then show ?thesis using g in_heap_mono [OF regions_okD [OF ok(2)] mono] by auto
  qed
  ultimately show ?thesis by (simp add: regions_ok_def sb)
qed

section \<open>Frames stay uniquely owned\<close>

text \<open>Mapping the first free frames to the pages above the break gives every one of them
  exactly one owner.\<close>

lemma frame_at_grown:
  assumes ok: "frames_ok s" and p: "p < length (pcbs s)" "proc_mm s p = Some mm"
    and sbrk': "unat (sbrk (heap mm')) = unat (sbrk (heap mm)) + 256 * n" "unat (sbrk (heap mm')) \<le> 2 ^ 22"
    and n: "n \<le> length (free_frames (ram s))"
    and pte: "\<And>q. unat q < 2 ^ 45 \<Longrightarrow> pte_of mm' q =
        (if heap_pages mm \<le> unat q \<and> unat q < heap_pages mm + n
         then mark_fpn (pte_of mm q) (free_frames (ram s) ! (unat q - heap_pages mm)) else pte_of mm q)"
  shows "frame_at (set_ram (set_proc_mm s p mm') mp) (q, i) =
      (if q = p \<and> heap_pages mm \<le> i \<and> i < heap_pages mm + n
       then Some (unat (free_frames (ram s) ! (i - heap_pages mm))) else frame_at s (q, i))"
    and "heap_pages mm' = heap_pages mm + n"
    and "\<And>i. heap_pages mm \<le> i \<Longrightarrow> i < heap_pages mm + n \<Longrightarrow> resident mm' (of_nat i)"
    and "\<And>i. i < heap_pages mm \<Longrightarrow> resident mm' (of_nat i) = resident mm (of_nat i)"
proof -
  show hp: "heap_pages mm' = heap_pages mm + n" by (simp add: heap_pages_def sbrk'(1))
  have hb: "heap_pages mm' \<le> 2 ^ 14" using sbrk'(2) by (simp add: heap_pages_def)
  have small: "unat (of_nat i :: u64) = i" if "i < heap_pages mm'" for i
  proof -
    have "i < 2 ^ 22" using that sbrk'(2) by (simp add: heap_pages_def)
    then show ?thesis by (simp add: unat_of_nat)
  qed
  have new: "pte_of mm' (of_nat i) = mark_fpn (pte_of mm (of_nat i)) (free_frames (ram s) ! (i - heap_pages mm))"
    if "heap_pages mm \<le> i" "i < heap_pages mm + n" for i
    using pte [of "of_nat i"] that small [of i] hb by (simp add: hp)
  have old: "pte_of mm' (of_nat i) = pte_of mm (of_nat i)" if "i < heap_pages mm" for i
    using pte [of "of_nat i"] that small [of i] hb by (simp add: hp)
  show "resident mm' (of_nat i)" if "heap_pages mm \<le> i" "i < heap_pages mm + n" for i
    by (simp add: resident_def new [OF that])
  show "resident mm' (of_nat i) = resident mm (of_nat i)" if "i < heap_pages mm" for i
    by (simp add: resident_def old [OF that])
  have newf: "page_frame mm' (of_nat i) = unat (free_frames (ram s) ! (i - heap_pages mm))"
    if "heap_pages mm \<le> i" "i < heap_pages mm + n" for i
  proof -
    have "free_frames (ram s) ! (i - heap_pages mm) \<in> set (free_frames (ram s))"
      using that n by (intro nth_mem) linarith
    then have "unat (free_frames (ram s) ! (i - heap_pages mm)) < 8192" using ok by (auto simp: frames_ok_def)
    then show ?thesis by (simp add: page_frame_def new [OF that] unat_FPN_mark_fpn)
  qed
  show "frame_at (set_ram (set_proc_mm s p mm') mp) (q, i) =
      (if q = p \<and> heap_pages mm \<le> i \<and> i < heap_pages mm + n
       then Some (unat (free_frames (ram s) ! (i - heap_pages mm))) else frame_at s (q, i))"
  proof (cases "q = p")
    case True
    have "proc_mm (set_proc_mm s p mm') p = Some mm'"
      using proc_mm_set_mm [OF frames_okD(1) [OF ok] p p(1)] by simp
    then show ?thesis using True p newf [of i] old [of i]
      by (auto simp: frame_at_eq hp page_frame_def not_less)
  next
    case False
    show ?thesis
    proof (cases "q < length (pcbs s)")
      case True
      then have "proc_mm (set_proc_mm s p mm') q = proc_mm s q"
        using proc_mm_set_mm [OF frames_okD(1) [OF ok] p True] False by simp
      then show ?thesis using False by (simp add: frame_at_def)
    next
      case False
      then show ?thesis using p(1) by (auto simp: frame_at_def)
    qed
  qed
qed

lemma frames_ok_grown:
  assumes ok: "frames_ok s" and p: "p < length (pcbs s)" "proc_mm s p = Some mm"
    and sbrk': "unat (sbrk (heap mm')) = unat (sbrk (heap mm)) + 256 * n" "unat (sbrk (heap mm')) \<le> 2 ^ 22"
    and n: "n \<le> length (free_frames (ram s))"
    and pte: "\<And>q. unat q < 2 ^ 45 \<Longrightarrow> pte_of mm' q =
        (if heap_pages mm \<le> unat q \<and> unat q < heap_pages mm + n
         then mark_fpn (pte_of mm q) (free_frames (ram s) ! (unat q - heap_pages mm)) else pte_of mm q)"
    and mm': "mm_ok mm'"
    and mp: "pool_ok mp" "free_frames mp = drop n (free_frames (ram s))" "device_core mp = device_core (ram s)"
  shows "frames_ok (set_ram (set_proc_mm s p mm') mp)"
    and "vbyte s q b \<noteq> None \<Longrightarrow> vbyte (set_ram (set_proc_mm s p mm') mp) q b = vbyte s q b"
proof -
  define S where "S = set_ram (set_proc_mm s p mm') mp"
  let ?F = "free_frames (ram s)" and ?h = "heap_pages mm"
  note fg = frame_at_grown(1) [OF ok p sbrk' n pte, where mp = mp, folded S_def]
    frame_at_grown(2-4) [OF ok p sbrk' n pte]
  note wf = frames_okD(1) [OF ok]
  have wf': "os_wf S" using os_wf_set_mm [OF wf] by (simp add: S_def)
  have ram': "ram S = mp" using ram_set_ram [OF os_wf_set_mm [OF wf], of p mm' mp] by (simp add: S_def)
  have pc: "pcbs S = pcbs s" "k_mram S = k_mram s" "proc_mm S = proc_mm (set_proc_mm s p mm')"
    by (simp_all add: S_def fun_eq_iff)
  have core: "storage mp = storage (ram s)" "rdmflg mp = rdmflg (ram s)" using mp(3) by (simp_all add: device_core_def)
  have oldnew: "f \<notin> unat ` set ?F" if "frame_at s x = Some f" for x f
    using ok that unfolding frames_ok_def by blast
  have dist: "distinct ?F" using ok by (simp add: frames_ok_def)
  have at: "frame_at S (q, i) = Some f \<longleftrightarrow>
      (if q = p \<and> ?h \<le> i \<and> i < ?h + n then f = unat (?F ! (i - ?h)) else frame_at s (q, i) = Some f)" for q i f
    using fg(1) [of q i] by auto
  have inF: "?F ! (i - ?h) \<in> set (take n ?F)" if "?h \<le> i" "i < ?h + n" for i
  proof -
    have "i - ?h < length (take n ?F)" using that n by simp
    then have "take n ?F ! (i - ?h) \<in> set (take n ?F)" by (rule nth_mem)
    then show ?thesis using that by simp
  qed
  have uniq: "x = y" if f: "frame_at S x = Some f" "frame_at S y = Some f" for x y f
  proof -
    obtain q i r j where xy: "x = (q, i)" "y = (r, j)" by (cases x, cases y)
    show ?thesis
    proof (cases "(q = p \<and> ?h \<le> i \<and> i < ?h + n) \<longleftrightarrow> (r = p \<and> ?h \<le> j \<and> j < ?h + n)")
      case True
      show ?thesis
      proof (cases "q = p \<and> ?h \<le> i \<and> i < ?h + n")
        case new: True
        then have "?F ! (i - ?h) = ?F ! (j - ?h)" using f True by (simp add: xy at word_unat_eq_iff)
        moreover have "i - ?h < length ?F" "j - ?h < length ?F" using new True n by auto
        ultimately have "i - ?h = j - ?h" using dist by (simp add: nth_eq_iff_index_eq)
        then have "i = j" using new True by (metis le_add_diff_inverse)
        then show ?thesis using new True by (simp add: xy)
      next
        case False
        then have "frame_at s (q, i) = Some f" "frame_at s (r, j) = Some f"
          using f True unfolding xy at by presburger+
        then show ?thesis unfolding xy by (rule frames_okD(5) [OF ok])
      qed
    next
      case False
      then have "f \<in> unat ` set ?F \<and> (frame_at s (q, i) = Some f \<or> frame_at s (r, j) = Some f)"
        using f inF set_take_subset [of n ?F] by (auto simp: xy at split: if_splits)
      then show ?thesis using oldnew by blast
    qed
  qed
  have range: "(f + 1) * 256 \<le> length (storage mp) \<and> f \<notin> unat ` set (drop n ?F)" if "frame_at S x = Some f" for x f
  proof -
    obtain q i where x: "x = (q, i)" by (cases x)
    show ?thesis
    proof (cases "q = p \<and> ?h \<le> i \<and> i < ?h + n")
      case True
      then have f: "f = unat (?F ! (i - ?h))" using that by (simp add: x at)
      have mem: "?F ! (i - ?h) \<in> set (take n ?F)" using True inF by blast
      then have "?F ! (i - ?h) \<notin> set (drop n ?F)" using dist
        by (metis append_take_drop_id disjoint_iff distinct_append)
      then have "f \<notin> unat ` set (drop n ?F)" by (metis f imageE word_unat_eq_iff)
      moreover have "?F ! (i - ?h) \<in> set ?F" using mem set_take_subset [of n ?F] by blast
      ultimately show ?thesis using ok by (auto simp: frames_ok_def f core)
    next
      case False
      then have f: "frame_at s (q, i) = Some f" using that by (auto simp: x at)
      have "f \<notin> unat ` set (drop n ?F)" using oldnew [OF f] set_drop_subset [of n ?F] by blast
      then show ?thesis using frames_okD(6) [OF ok f] by (simp add: core)
    qed
  qed
  have sp: "space_ok mm''" if "q < length (pcbs s)" "proc_mm S q = Some mm''" for q mm''
  proof (cases "q = p")
    case True
    have "space_ok mm" using frames_okD(4) [OF ok p] .
    moreover have "mm'' = mm'" using True that proc_mm_set_mm [OF wf p p(1), of mm'] by (simp add: pc)
    ultimately show ?thesis
      using mm' sbrk' fg(2-4) by (auto simp: space_ok_def) (metis not_le)
  next
    case False
    then show ?thesis using that proc_mm_set_mm [OF wf p that(1), of mm'] frames_okD(4) [OF ok] by (simp add: pc)
  qed
  have rest: "distinct (drop n ?F)" "\<forall>f \<in> set (drop n ?F). unat f < 8192 \<and> (unat f + 1) * 256 \<le> length (storage mp)"
    using ok set_drop_subset [of n ?F] by (auto simp: frames_ok_def core)
  have "frames_ok S"
    using wf' uniq range sp rest mp(1,2) frames_okD(2) [OF ok]
    unfolding frames_ok_def by (simp add: ram' [unfolded pc] pc core)
  then show "frames_ok (set_ram (set_proc_mm s p mm') mp)" by (simp only: S_def)
  have "vbyte S q b = vbyte s q b" if nn: "vbyte s q b \<noteq> None"
  proof -
    obtain f where f: "frame_at s (q, b div 256) = Some f" using nn by (auto simp: vbyte_def)
    have "\<not> (q = p \<and> ?h \<le> b div 256)"
      using f p by (auto simp: frame_at_eq split: if_splits)
    then have "frame_at S (q, b div 256) = Some f" using f by (auto simp: at)
    then show ?thesis using f by (simp add: vbyte_def ram' [unfolded pc] pc core)
  qed
  then show "vbyte s q b \<noteq> None \<Longrightarrow> vbyte (set_ram (set_proc_mm s p mm') mp) q b = vbyte s q b"
    unfolding S_def by blast
qed

section \<open>Allocation as a whole\<close>

lemma vbyte_below:
  assumes "frames_ok s" and "p < length (pcbs s)" and "proc_mm s p = Some mm" and "a < unat (sbrk (heap mm))"
  shows "vbyte s p a \<noteq> None"
  using vbyte_iff [OF assms(1-3)] assms(4) by blast

lemma liballoc_ok:
  assumes "frames_ok s" and "p < length (pcbs s)" and "proc_mm s p = Some mm" and "listed s p"
    and "regions_ok mm" and "unat rgid < 30" and "0 < unat sz"
    and "unat (sbrk (heap mm)) + 256 * pages sz \<le> 2 ^ 22" and "pages sz \<le> length (free_frames (ram s))"
  shows "\<exists>s' mm' g. liballoc s p sz rgid = Inr (0, s') \<and> frames_ok s' \<and> proc_mm s' p = Some mm'
    \<and> regions_ok mm' \<and> symrgtbl mm' = (symrgtbl mm)[unat rgid := g]
    \<and> unat (rg_end g) = unat (rg_start g) + unat sz
    \<and> (\<forall>b. covers b g \<longrightarrow> vbyte s' p b \<noteq> None)
    \<and> (\<forall>q b. vbyte s q b \<noteq> None \<longrightarrow> vbyte s' q b = vbyte s q b)"
proof (cases "first_fit (ucast sz) (vm_freerg_list (heap mm))")
  have sp: "space_ok mm" using frames_okD(4) [OF assms(1-3)] .
  then have ok: "mm_ok mm" by (simp add: space_ok_def)
  note wf = frames_okD(1) [OF assms(1)] and pool = frames_okD(3) [OF assms(1)]
  have b: "unat sz \<le> 2 ^ 22" using assms(8) pages_bounds(1) [of sz] by linarith
  then have sz: "unat sz < 2 ^ 31" "unat sz < 2 ^ 31 - 256" by simp_all
  have brk: "unat (sbrk (heap mm)) < 2 ^ 63" "unat (sbrk (heap mm)) < 2 ^ 31"
    using assms(8) by simp_all
  {
    case (Some gr)
    obtain g rest where fit: "first_fit (ucast sz) (vm_freerg_list (heap mm)) = Some (g, rest)"
      using Some by (cases gr) simp
    let ?mm = "fitted mm rest (unat rgid) g"
    note rg = regions_ok_fitted [OF ok assms(5) brk(1) sz(1) assms(6) fit]
    have mm': "mm_ok ?mm" "sbrk (heap ?mm) = sbrk (heap mm)" "\<And>q. pte_of ?mm q = pte_of mm q"
      by (simp_all add: fitted_def mm_ok_put_sym mm_ok_set_free ok)
    note fr = frames_ok_set_mm [OF assms(1-3) mm']
    have at: "proc_mm (set_proc_mm s p ?mm) p = Some ?mm" using proc_mm_set_mm [OF wf assms(2,3,2)] by simp
    have "vbyte (set_proc_mm s p ?mm) p x \<noteq> None" if "covers x g" for x
      using vbyte_below [OF fr(1) _ at, of x] assms(2) that rg(3) mm'(2)
      by (auto simp: covers_def word_le_nat_alt)
    moreover have "vbyte (set_proc_mm s p ?mm) = vbyte s" by (rule vbyte_same [OF fr(2)]) simp
    ultimately show ?thesis
      using liballoc_fit [OF wf assms(2,3) ok assms(5) brk(1) sz(1) assms(6) fit] fr(1) at rg(1,2)
      by (intro exI [of _ "set_proc_mm s p ?mm"] exI [of _ ?mm] exI [of _ g]) (simp add: fitted_def)
  next
    case None
    let ?fs = "take (pages sz) (free_frames (ram s))"
    let ?mm = "grown mm ?fs (unat rgid) sz"
    let ?g = "\<lparr>rg_start = sbrk (heap mm), rg_end = sbrk (heap mm) + sz\<rparr>"
    have len: "length ?fs = pages sz" using assms(9) by simp
    obtain mp where al: "liballoc s p sz rgid = Inr (0, set_ram (set_proc_mm s p ?mm) mp)"
      and mp: "pool_ok mp" "free_frames mp = drop (pages sz) (free_frames (ram s))" "device_core mp = device_core (ram s)"
      using liballoc_grow [OF wf assms(2-4) ok assms(5) brk(2) assms(7) sz(2) assms(6) pool assms(9) None] by blast
    have brk': "unat (sbrk (heap ?mm)) = unat (sbrk (heap mm)) + 256 * pages sz"
      using assms(8) len by (simp add: grown_def unat_word_ariths unat_of_nat del: of_nat_mult)
    have "mm_ok ?mm" by (simp add: grown_def mm_ok_put_sym mm_ok_grow ok)
    moreover have "pte_of ?mm q = (if heap_pages mm \<le> unat q \<and> unat q < heap_pages mm + pages sz
         then mark_fpn (pte_of mm q) (free_frames (ram s) ! (unat q - heap_pages mm)) else pte_of mm q)"
      if "unat q < 2 ^ 45" for q
      using pte_of_grow [OF ok, of ?fs q] that assms(8) len
      by (simp add: grown_def heap_pages_def Let_def less_diff_conv2)
    ultimately have fr: "frames_ok (set_ram (set_proc_mm s p ?mm) mp)"
      "\<And>q b. vbyte s q b \<noteq> None \<Longrightarrow> vbyte (set_ram (set_proc_mm s p ?mm) mp) q b = vbyte s q b"
      using frames_ok_grown [OF assms(1-3) brk' _ assms(9) _ _ mp] assms(8) brk' by simp_all
    have at: "proc_mm (set_ram (set_proc_mm s p ?mm) mp) p = Some ?mm"
      using proc_mm_set_mm [OF wf assms(2,3,2)] by simp
    have e: "unat (sbrk (heap mm) + sz) = unat (sbrk (heap mm)) + unat sz"
      using assms(8) pages_bounds(1) [of sz] by (simp add: unat_word_ariths)
    have "vbyte (set_ram (set_proc_mm s p ?mm) mp) p x \<noteq> None" if "covers x ?g" for x
      using vbyte_below [OF fr(1) _ at, of x] assms(2) that pages_bounds(1) [of sz] brk'
      by (simp add: covers_def e)
    moreover have "regions_ok ?mm"
      using assms(8) by (intro regions_ok_grown [OF ok assms(5) _ len assms(6)]) simp
    ultimately show ?thesis using al fr at e
      by (intro exI [of _ "set_ram (set_proc_mm s p ?mm) mp"] exI [of _ ?mm] exI [of _ ?g]) (simp add: grown_def)
  }
qed

lemma liballoc_confined:
  assumes "frames_ok s" and "p < length (pcbs s)" and "listed s p" and "liballoc s p sz rgid = Inr (r, s')"
  shows "confined s p s'"
proof -
  have "within s p s"
    using assms(1-3) frames_okD(1) by (auto simp: within_def call_ok_def caller_found_def listed_def)
  then have "stays (within s p) (liballoc s p sz rgid)" by (rule inside.stays_liballoc)
  then show ?thesis using assms(4) by (simp add: stays_def within_def)
qed

lemma listed_confined: "confined s p s' \<Longrightarrow> listed s' q = listed s q"
  by (simp add: confined_def listed_def find_caller_def)

section \<open>Failing allocations\<close>

text \<open>Too few frames: the region is handed out although no page could be mapped.\<close>

lemma liballoc_short:
  assumes wf: "os_wf s" and p: "p < length (pcbs s)" "proc_mm s p = Some mm" and l: "listed s p"
    and ok: "mm_ok mm" "regions_ok mm" and brk: "unat (sbrk (heap mm)) < 2 ^ 31"
    and sz: "0 < unat sz" "unat sz < 2 ^ 31 - 256" and i: "unat rgid < 30" and pool: "pool_ok (ram s)"
    and n: "length (free_frames (ram s)) < pages sz"
    and fit: "first_fit (ucast sz) (vm_freerg_list (heap mm)) = None"
  shows "\<exists>mp. liballoc s p sz rgid = Inr (0, set_ram (set_proc_mm s p
        (put_sym (heap_end mm (sbrk (heap mm) + sz)) (unat rgid)
           \<lparr>rg_start = sbrk (heap mm), rg_end = sbrk (heap mm) + sz\<rparr>)) mp)
    \<and> pool_ok mp \<and> free_frames mp = [] \<and> device_core mp = device_core (ram s)"
proof -
  let ?c = "load_caller s p" and ?e = "heap_end mm (sbrk (heap mm) + sz)"
  let ?g = "\<lparr>rg_start = sbrk (heap mm), rg_end = sbrk (heap mm) + sz\<rparr>"
  have own: "own_mm ?c = Some mm" using p(2) by simp
  have get: "get_free_vmrg_area ?c 0 (ucast sz) = (None, ?c)"
    using get_free_vmrg_area_eq [OF own ok, of "ucast sz"] brk sz(2) size_arg(1) [of sz] fit by simp
  obtain mp where inc: "inc_vma_limit ?c 0 sz = Inr (0, ?c\<lparr>mram := mp, own_mm := Some ?e\<rparr>)"
    and mp: "pool_ok mp" "free_frames mp = []" "device_core mp = device_core (ram s)"
    using inc_vma_limit_short [OF own ok(1) _ sz] brk sz(2) pool n by auto
  let ?s1 = "set_ram (set_proc_mm s p ?e) mp"
  have "on_proc s p (\<lambda>c. inc_vma_limit c 0 sz) = Inr (0, ?s1)"
    using inc by (simp add: on_proc_def load_store_ram store_caller_split [OF wf])
  then have call: "syscall s (pid (pcbs s ! p)) 17 \<lparr>a1 = of_int SYSMEM_INC_OP, a2 = 0, a3 = sz\<rparr>
      = Inr (0, \<lparr>a1 = of_int SYSMEM_INC_OP, a2 = 0, a3 = sz\<rparr>, ?s1)"
    using syscall_inc l by (simp add: listed_def)
  have mm1: "proc_mm ?s1 p = Some ?e" using proc_mm_set_mm [OF wf p p(1)] by simp
  have heap0: "mmap mm ! 0 = heap mm" by (simp add: heap_def)
  have "lib_alloc s p 0 rgid sz = Inr ((0, Some (sbrk (heap mm))),
      set_ram (set_proc_mm s p (put_sym ?e (unat rgid) ?g)) mp)"
    using p(2) i call mm1 mm_ok_heap_end [OF ok(1)]
    by (simp add: lib_alloc_def find_heap [OF ok(1)] get store_load_caller [OF wf] heap0 ucast_brk [OF brk]
        set_symrg_eq set_proc_mm_twice Let_def)
  moreover obtain x where "print_pgtbl (set_ram (set_proc_mm s p (put_sym ?e (unat rgid) ?g)) mp) p = Inr x"
    using print_pgtbl_ok [of "set_ram (set_proc_mm s p (put_sym ?e (unat rgid) ?g)) mp" p]
      proc_mm_set_mm [OF wf p p(1)] by auto
  ultimately show ?thesis using mp by (intro exI [of _ mp]) (simp add: liballoc_def)
qed

text \<open>The process is not in the running list: the system call fails, and the failure is ignored.\<close>

lemma liballoc_unlisted:
  assumes wf: "os_wf s" and p: "p < length (pcbs s)" "proc_mm s p = Some mm"
    and l: "find_caller s (pid (pcbs s ! p)) = None"
    and ok: "mm_ok mm" and brk: "unat (sbrk (heap mm)) < 2 ^ 31"
    and i: "unat rgid < 30"
    and fit: "first_fit (ucast sz) (vm_freerg_list (heap mm)) = None"
  shows "liballoc s p sz rgid = Inr (0, set_proc_mm s p
        (put_sym mm (unat rgid) \<lparr>rg_start = sbrk (heap mm), rg_end = sbrk (heap mm) + sz\<rparr>))"
proof -
  let ?c = "load_caller s p"
  let ?g = "\<lparr>rg_start = sbrk (heap mm), rg_end = sbrk (heap mm) + sz\<rparr>"
  have own: "own_mm ?c = Some mm" using p(2) by simp
  have get: "get_free_vmrg_area ?c 0 (ucast sz) = (None, ?c)"
    using own fit by (simp add: get_free_vmrg_area_def find_heap [OF ok] heap_def [symmetric])
  have call: "syscall s (pid (pcbs s ! p)) 17 regs = Inr (-1, regs, s)" for regs
    using l by (simp add: syscall_def sys_memmap_def Let_def)
  have heap0: "mmap mm ! 0 = heap mm" by (simp add: heap_def)
  have "lib_alloc s p 0 rgid sz = Inr ((0, Some (sbrk (heap mm))), set_proc_mm s p (put_sym mm (unat rgid) ?g))"
    using p(2) i by (simp add: lib_alloc_def find_heap [OF ok] get store_load_caller [OF wf] heap0
        ucast_brk [OF brk] set_symrg_eq ok call Let_def)
  moreover obtain x where "print_pgtbl (set_proc_mm s p (put_sym mm (unat rgid) ?g)) p = Inr x"
    using print_pgtbl_ok [of "set_proc_mm s p (put_sym mm (unat rgid) ?g)" p]
      proc_mm_set_mm [OF wf p p(1)] by auto
  ultimately show ?thesis by (simp add: liballoc_def)
qed

lemma fresh_regions [simp]: "regions_ok fresh_mm" "first_fit (ucast sz) (vm_freerg_list (heap fresh_mm)) =
    (if (scast (ucast sz :: i32) :: u64) = 0 then Some (init_vm_rg 0 0, []) else None)"
proof -
  have f: "vm_freerg_list (heap fresh_mm) = [init_vm_rg 0 0]"
    by (simp add: fresh_mm_def init_mm_def heap_def enlist_vm_rg_node_def Let_def)
  have c0: "cover (replicate n (init_vm_rg 0 0)) x = 0" for n x by (induction n) simp_all
  show "regions_ok fresh_mm" by (simp add: regions_ok_def regions_def f c0)
  show "first_fit (ucast sz) (vm_freerg_list (heap fresh_mm)) =
    (if (scast (ucast sz :: i32) :: u64) = 0 then Some (init_vm_rg 0 0, []) else None)"
    by (simp add: f init_vm_rg_def)
qed

lemma small_os_ok: "frames_ok (small_os is js)"
proof -
  have ram: "ram (small_os is js) = snd (init_memphy blank_device 1024 1)" by simp
  have fr: "free_frames (snd (init_memphy blank_device 1024 1)) = [0, 1, 2, 3]"
    "pool_ok (snd (init_memphy blank_device 1024 1))"
    using fresh_ram by (simp_all add: fresh_caller_def)
  have "space_ok fresh_mm" by (simp add: space_ok_def heap_pages_def)
  moreover have "frame_at (small_os is js) x = None" for x
    by (cases x) (auto simp: frame_at_def heap_pages_def less_Suc_eq)
  moreover have "proc_mm (small_os is js) p = Some mm \<Longrightarrow> p < Suc (Suc 0) \<Longrightarrow> mm = fresh_mm" for p mm
    by (auto simp: less_Suc_eq)
  ultimately show ?thesis
    using small_os_wf by (simp add: frames_ok_def ram fr init_memphy_fields) metis
qed

lemma small_os_listed: "listed (small_os is js) 0" "listed (small_os is js) 1"
  using small_os_caller by (simp_all add: listed_def)

section \<open>Properties\<close>

text \<open>C7: allocation: with enough free frames and address space, \<open>liballoc\<close> returns 0 and binds
  the register to a region of exactly the requested size; all regions of the process stay
  disjoint and below the break; every byte of the region is accessible; no byte that any
  process could access before changes; every frame still has one owner.\<close>

theorem liballoc_correct:
  assumes "frames_ok s" and "p < length (pcbs s)" and "proc_mm s p = Some mm" and "listed s p"
    and "regions_ok mm" and "unat rgid < 30" and "0 < unat sz"
    and "unat (sbrk (heap mm)) + 256 * pages sz \<le> 2 ^ 22" and "pages sz \<le> length (free_frames (ram s))"
  shows "\<exists>s' mm' g. liballoc s p sz rgid = Inr (0, s') \<and> frames_ok s' \<and> proc_mm s' p = Some mm'
    \<and> regions_ok mm' \<and> symrgtbl mm' = (symrgtbl mm)[unat rgid := g]
    \<and> unat (rg_end g) = unat (rg_start g) + unat sz
    \<and> (\<forall>b. covers b g \<longrightarrow> vbyte s' p b \<noteq> None)
    \<and> (\<forall>q b. vbyte s q b \<noteq> None \<longrightarrow> vbyte s' q b = vbyte s q b)
    \<and> (\<forall>q < length (pcbs s). q \<noteq> p \<longrightarrow> proc_mm s' q = proc_mm s q)"
  using liballoc_ok [OF assms] liballoc_confined [OF assms(1,2,4)] unfolding confined_def by blast

text \<open>The state after the first process of the small machine has allocated 300 bytes.\<close>

lemma small_alloc:
  obtains s mm g where "liballoc (small_os [] []) 0 300 2 = Inr (0, s)" and "frames_ok s"
    and "0 < length (pcbs s)" and "proc_mm s 0 = Some mm" and "listed s 0" and "regions_ok mm"
    and "symrgtbl mm ! 2 = g" and "unat (rg_end g) = unat (rg_start g) + 300"
    and "\<And>b. covers b g \<Longrightarrow> vbyte s 0 b \<noteq> None" and "k_mm s = Some 0" and "mms s ! 0 = mm"
proof -
  let ?s = "small_os [] []"
  have pg: "pages 300 = 2" by (simp add: pages_def)
  have fr: "free_frames (ram ?s) = [0, 1, 2, 3]" using fresh_ram by (simp add: fresh_caller_def)
  obtain s mm g where a: "liballoc ?s 0 300 2 = Inr (0, s)" "frames_ok s" "proc_mm s 0 = Some mm"
    "regions_ok mm" "symrgtbl mm = (symrgtbl fresh_mm)[2 := g]" "unat (rg_end g) = unat (rg_start g) + 300"
    "\<And>b. covers b g \<Longrightarrow> vbyte s 0 b \<noteq> None"
    using liballoc_ok [OF small_os_ok, of 0 "[]" "[]" fresh_mm 2 300] small_os_listed(1) fr pg by auto
  have c: "confined ?s 0 s" using liballoc_confined [OF small_os_ok _ small_os_listed(1) a(1)] by simp
  have "mms s ! 0 = mm" using a(3) c by (simp add: proc_mm_def confined_def small_pcb_def)
  moreover have "k_mm s = Some 0" "0 < length (pcbs s)" using c by (simp_all add: confined_def)
  moreover have "listed s 0" using listed_confined [OF c] small_os_listed(1) by simp
  moreover have "symrgtbl mm ! 2 = g" by (simp add: a(5) PAGING_MAX_SYMTBL_SZ_def)
  ultimately show ?thesis using that a by blast
qed

theorem liballoc_correct_witness:
  "\<exists>s' mm' g. liballoc (small_os [] []) 0 300 2 = Inr (0, s') \<and> proc_mm s' 0 = Some mm' \<and> regions_ok mm'
     \<and> symrgtbl mm' ! 2 = g \<and> unat (rg_end g) = unat (rg_start g) + 300 \<and> vbyte s' 0 (unat (rg_start g)) \<noteq> None"
proof -
  have fr: "free_frames (ram (small_os [] [])) = [0, 1, 2, 3]" using fresh_ram by (simp add: fresh_caller_def)
  obtain s' mm' g where a: "liballoc (small_os [] []) 0 300 2 = Inr (0, s')" "proc_mm s' 0 = Some mm'"
    "regions_ok mm'" "symrgtbl mm' = (symrgtbl fresh_mm)[2 := g]" "unat (rg_end g) = unat (rg_start g) + 300"
    "\<forall>b. covers b g \<longrightarrow> vbyte s' 0 b \<noteq> None"
    using liballoc_correct [OF small_os_ok, of 0 "[]" "[]" fresh_mm 2 300] small_os_listed(1) fr
    by (auto simp: pages_def)
  have "symrgtbl mm' ! 2 = g" by (simp add: a(4) PAGING_MAX_SYMTBL_SZ_def)
  moreover have "vbyte s' 0 (unat (rg_start g)) \<noteq> None" using a(5,6) by (simp add: covers_def)
  ultimately show ?thesis using a by blast
qed

lemma offset_word:
  assumes "unat (rg_end g) = unat (rg_start g) + n" and "unat (k :: u64) < n"
  shows "unat (rg_start g + k) = unat (rg_start g) + unat k"
proof -
  have "unat (rg_start g) + unat k < 2 ^ 64" using assms unsigned_less [where ?'a = nat and w = "rg_end g"] by simp
  then show ?thesis by (simp add: unat_word_ariths)
qed

theorem libwrite_virtual_byte_witness:
  "\<exists>s s' a. libwrite s 0 65 2 5 = Inr (0, s') \<and> vbyte s' 0 a = Some 65 \<and> frames_ok s'
     \<and> (\<forall>b. b \<noteq> a \<longrightarrow> vbyte s' 0 b = vbyte s 0 b)"
proof (rule small_alloc)
  fix s mm g
  assume s: "frames_ok s" "0 < length (pcbs s)" "proc_mm s 0 = Some mm" "listed s 0"
    "symrgtbl mm ! 2 = g" "unat (rg_end g) = unat (rg_start g) + 300" "\<And>b. covers b g \<Longrightarrow> vbyte s 0 b \<noteq> None"
  have "vbyte s 0 (unat (rg_start (symrgtbl mm ! unat (2 :: u32)) + 5)) \<noteq> None"
    using s(5,6) s(7) [of "unat (rg_start g + 5)"] offset_word [OF s(6), of 5] by (simp add: covers_def)
  then obtain s' where "libwrite s 0 65 2 5 = Inr (0, s')" "frames_ok s'"
    "\<forall>q b. vbyte s' q b = (if q = 0 \<and> b = unat (rg_start (symrgtbl mm ! unat (2 :: u32)) + 5)
       then Some 65 else vbyte s q b)"
    using libwrite_virtual_byte [OF s(1-4), of 2 5 65] by auto
  then show ?thesis
    by (intro exI [of _ s] exI [of _ s'] exI [of _ "unat (rg_start (symrgtbl mm ! unat (2 :: u32)) + 5)"]) simp
qed

theorem libread_returns_nothing_witness:
  "\<exists>s. frames_ok s \<and> libread 7 s 0 2 5 = Inr ((0, 7), s) \<and> libread 9 s 0 2 5 = Inr ((0, 9), s)"
proof (rule small_alloc)
  fix s mm g
  assume s: "frames_ok s" "0 < length (pcbs s)" "proc_mm s 0 = Some mm" "listed s 0"
    "symrgtbl mm ! 2 = g" "unat (rg_end g) = unat (rg_start g) + 300" "\<And>b. covers b g \<Longrightarrow> vbyte s 0 b \<noteq> None"
    "k_mm s = Some 0" "mms s ! 0 = mm"
  have ok: "mm_ok (mms s ! 0)" using frames_okD(4) [OF s(1-3)] s(9) by (simp add: space_ok_def)
  obtain d where d: "vbyte s 0 (unat (rg_start (symrgtbl (mms s ! 0) ! unat (2 :: u32)) + 5)) = Some d"
    using s(5,6,9) s(7) [of "unat (rg_start g + 5)"] offset_word [OF s(6), of 5] by (auto simp: covers_def)
  have w: "scast (7 :: u8) = (7 :: u32)" "scast (9 :: u8) = (9 :: u32)" by code_simp+
  show ?thesis
    using libread_returns_nothing [OF s(1-4) _ s(8) ok d, of 7] libread_returns_nothing [OF s(1-4) _ s(8) ok d, of 9]
      s(1) w by auto
qed

text \<open>C24: release: \<open>libfree\<close> of a register that is not bound (or was freed before) returns -1 and
  changes nothing; otherwise it returns 0, unbinds the register and makes exactly its region
  free: every address stays covered as often as before, and no byte, page or other process
  changes.\<close>

theorem libfree_correct:
  assumes "frames_ok s" and "p < length (pcbs s)" and "proc_mm s p = Some mm" and "regions_ok mm"
    and "unat rgid < 30"
  shows "if symrgtbl mm ! unat rgid = init_vm_rg 0 0 then libfree s p rgid = Inr (-1, s)
    else \<exists>s' mm'. libfree s p rgid = Inr (0, s') \<and> frames_ok s' \<and> proc_mm s' p = Some mm' \<and> regions_ok mm'
      \<and> symrgtbl mm' = (symrgtbl mm)[unat rgid := init_vm_rg 0 0]
      \<and> (\<forall>x. cover (vm_freerg_list (heap mm')) x =
            cover (vm_freerg_list (heap mm)) x + (if covers x (symrgtbl mm ! unat rgid) then 1 else 0))
      \<and> vbyte s' = vbyte s \<and> (\<forall>q < length (pcbs s). q \<noteq> p \<longrightarrow> proc_mm s' q = proc_mm s q)"
proof -
  note wf = frames_okD(1) [OF assms(1)]
  have ok: "mm_ok mm" using frames_okD(4) [OF assms(1-3)] by (simp add: space_ok_def)
  let ?i = "unat rgid"
  let ?mm = "free_region mm ?i"
  note fr = free_region [OF ok assms(5)]
  note fo = frames_ok_set_mm [OF assms(1-3) fr(1,3,4)]
  have pm: "q < length (pcbs s) \<Longrightarrow> proc_mm (set_proc_mm s p ?mm) q = (if q = p then Some ?mm else proc_mm s q)" for q
    by (rule proc_mm_set_mm [OF wf assms(2,3)])
  have "cover (vm_freerg_list (heap ?mm)) x =
      cover (vm_freerg_list (heap mm)) x + (if covers x (symrgtbl mm ! ?i) then 1 else 0)" for x
    by (auto simp: free_region_def Let_def covers_def word_le_nat_alt)
  moreover have "vbyte (set_proc_mm s p ?mm) = vbyte s" by (rule vbyte_same [OF fo(2)]) simp
  ultimately show ?thesis
    using libfree_eq [OF wf assms(2,3) ok assms(5)] fo(1) fr(2,6) pm assms(2,4)
    by (auto intro!: exI [of _ "set_proc_mm s p ?mm"] exI [of _ ?mm])
qed

theorem libfree_correct_witness:
  "\<exists>s s' mm'. frames_ok s \<and> libfree s 0 2 = Inr (0, s') \<and> proc_mm s' 0 = Some mm' \<and> regions_ok mm'
     \<and> symrgtbl mm' ! 2 = init_vm_rg 0 0 \<and> libfree s' 0 2 = Inr (-1, s')"
proof (rule small_alloc)
  fix s mm g
  assume s: "frames_ok s" "0 < length (pcbs s)" "proc_mm s 0 = Some mm" "listed s 0" "regions_ok mm"
    "symrgtbl mm ! 2 = g" "unat (rg_end g) = unat (rg_start g) + 300"
  have len: "length (symrgtbl mm) = 30" using frames_okD(4) [OF s(1-3)]
    by (simp add: space_ok_def mm_ok_def PAGING_MAX_SYMTBL_SZ_def)
  have "g \<noteq> init_vm_rg 0 0" using s(7) by (auto simp: init_vm_rg_def)
  then obtain s' mm' where f: "libfree s 0 2 = Inr (0, s')" "frames_ok s'" "proc_mm s' 0 = Some mm'"
    "regions_ok mm'" "symrgtbl mm' = (symrgtbl mm)[2 := init_vm_rg 0 0]"
    using libfree_correct [OF s(1-3,5), of 2] s(6) by auto
  have z: "symrgtbl mm' ! 2 = init_vm_rg 0 0" using len by (simp add: f(5))
  have "0 < length (pcbs s')" using f(3) s(2) libfree_eq [OF frames_okD(1) [OF s(1)] s(2,3), of 2]
      frames_okD(4) [OF s(1-3)] f(1) by (auto simp: space_ok_def split: if_splits)
  then have "libfree s' 0 2 = Inr (-1, s')" using libfree_correct [OF f(2) _ f(3,4), of 2] z by simp
  then show ?thesis using s(1) f z by blast
qed

text \<open>C32: allocation without enough frames is not reported: \<open>liballoc\<close> returns 0 and binds the
  register to a region of the requested size above the old break, the break moves, all frames
  that were left are gone, and no page was mapped.\<close>

theorem liballoc_out_of_frames:
  assumes "frames_ok s" and "p < length (pcbs s)" and "proc_mm s p = Some mm" and "listed s p"
    and "regions_ok mm" and "unat rgid < 30" and "0 < unat sz" and "unat sz < 2 ^ 31 - 256"
    and "length (free_frames (ram s)) < pages sz"
    and "\<forall>r \<in> set (vm_freerg_list (heap mm)). unat (rg_end r) - unat (rg_start r) < unat sz"
  shows "\<exists>s' mm'. liballoc s p sz rgid = Inr (0, s') \<and> proc_mm s' p = Some mm'
    \<and> symrgtbl mm' = (symrgtbl mm)[unat rgid := \<lparr>rg_start = sbrk (heap mm), rg_end = sbrk (heap mm) + sz\<rparr>]
    \<and> sbrk (heap mm') = sbrk (heap mm) + sz
    \<and> free_frames (ram s') = [] \<and> (\<forall>q. pte_of mm' q = pte_of mm q)"
proof -
  note wf = frames_okD(1) [OF assms(1)] and pool = frames_okD(3) [OF assms(1)]
  have sp: "space_ok mm" using frames_okD(4) [OF assms(1-3)] .
  then have ok: "mm_ok mm" and brk: "unat (sbrk (heap mm)) < 2 ^ 31" "unat (sbrk (heap mm)) < 2 ^ 63"
    by (simp_all add: space_ok_def)
  have sz: "unat sz < 2 ^ 31" using assms(8) by simp
  have fit: "first_fit (ucast sz) (vm_freerg_list (heap mm)) = None"
    using first_fit_None [OF size_arg(1) [OF sz], of "vm_freerg_list (heap mm)" "sbrk (heap mm)"]
      regions_ok_free [OF assms(5)] brk(2) assms(7,10) size_arg(2) [OF sz] by fastforce
  obtain mp where al: "liballoc s p sz rgid = Inr (0, set_ram (set_proc_mm s p
        (put_sym (heap_end mm (sbrk (heap mm) + sz)) (unat rgid)
           \<lparr>rg_start = sbrk (heap mm), rg_end = sbrk (heap mm) + sz\<rparr>)) mp)"
    and mp: "free_frames mp = []"
    using liballoc_short [OF wf assms(2-4) ok assms(5) brk(1) assms(7,8,6) pool assms(9) fit] by blast
  show ?thesis
    using proc_mm_set_mm [OF wf assms(2,3,2)] ram_set_ram [OF os_wf_set_mm [OF wf]]
    by (simp add: al mp)
qed

theorem liballoc_out_of_frames_witness:
  "\<exists>s' mm'. liballoc (small_os [] []) 0 2000 1 = Inr (0, s') \<and> proc_mm s' 0 = Some mm'
    \<and> unat (rg_end (symrgtbl mm' ! 1)) = 2000 \<and> pte_of mm' 0 = 0 \<and> free_frames (ram s') = []"
proof -
  have fr: "free_frames (ram (small_os [] [])) = [0, 1, 2, 3]" using fresh_ram by (simp add: fresh_caller_def)
  have "vm_freerg_list (heap fresh_mm) = [init_vm_rg 0 0]"
    by (simp add: fresh_mm_def init_mm_def heap_def enlist_vm_rg_node_def Let_def)
  then show ?thesis
    using liballoc_out_of_frames [OF small_os_ok, of 0 "[]" "[]" fresh_mm 1 2000] small_os_listed(1) fr
    by (auto simp: pages_def init_vm_rg_def PAGING_MAX_SYMTBL_SZ_def)
qed

text \<open>C33: the result of the memory system call is ignored: for a process that is missing from the
  running list two allocations into different registers both return 0 and bind the same
  bytes above the break, which never moved.\<close>

theorem liballoc_unlisted_overlap:
  assumes "frames_ok s" and "p < length (pcbs s)" and "proc_mm s p = Some mm"
    and "find_caller s (pid (pcbs s ! p)) = None" and "regions_ok mm"
    and "unat r1 < 30" and "unat r2 < 30" and "r1 \<noteq> r2" and "0 < unat sz" and "unat sz < 2 ^ 31"
    and "\<forall>r \<in> set (vm_freerg_list (heap mm)). unat (rg_end r) - unat (rg_start r) < unat sz"
  shows "\<exists>s1 s2 mm2. liballoc s p sz r1 = Inr (0, s1) \<and> liballoc s1 p sz r2 = Inr (0, s2)
    \<and> proc_mm s2 p = Some mm2 \<and> sbrk (heap mm2) = sbrk (heap mm)
    \<and> symrgtbl mm2 ! unat r1 = \<lparr>rg_start = sbrk (heap mm), rg_end = sbrk (heap mm) + sz\<rparr>
    \<and> symrgtbl mm2 ! unat r2 = \<lparr>rg_start = sbrk (heap mm), rg_end = sbrk (heap mm) + sz\<rparr>"
proof -
  let ?g = "\<lparr>rg_start = sbrk (heap mm), rg_end = sbrk (heap mm) + sz\<rparr>"
  note wf = frames_okD(1) [OF assms(1)]
  have sp: "space_ok mm" using frames_okD(4) [OF assms(1-3)] .
  then have ok: "mm_ok mm" and brk: "unat (sbrk (heap mm)) < 2 ^ 31" "unat (sbrk (heap mm)) < 2 ^ 63"
    by (simp_all add: space_ok_def)
  have fit: "first_fit (ucast sz) (vm_freerg_list (heap mm)) = None"
    using first_fit_None [OF size_arg(1) [OF assms(10)], of "vm_freerg_list (heap mm)" "sbrk (heap mm)"]
      regions_ok_free [OF assms(5)] brk(2) assms(9,11) size_arg(2) [OF assms(10)] by fastforce
  let ?s1 = "set_proc_mm s p (put_sym mm (unat r1) ?g)"
  let ?mm2 = "put_sym (put_sym mm (unat r1) ?g) (unat r2) ?g"
  have 1: "liballoc s p sz r1 = Inr (0, ?s1)"
    by (rule liballoc_unlisted [OF wf assms(2-4) ok brk(1) assms(6) fit])
  have pm: "proc_mm ?s1 p = Some (put_sym mm (unat r1) ?g)" using proc_mm_set_mm [OF wf assms(2,3,2)] by simp
  have 2: "liballoc ?s1 p sz r2 = Inr (0, set_proc_mm ?s1 p ?mm2)"
    using liballoc_unlisted [OF os_wf_set_mm [OF wf] _ pm, where sz = sz and rgid = r2] assms(2,4,7) fit brk(1) mm_ok_put_sym [OF ok]
    by simp
  have "proc_mm (set_proc_mm ?s1 p ?mm2) p = Some ?mm2"
    using proc_mm_set_mm [OF os_wf_set_mm [OF wf] _ pm] assms(2) by simp
  moreover have "unat r1 \<noteq> unat r2" "length (symrgtbl mm) = 30"
    using assms(8) ok by (simp_all add: word_unat_eq_iff mm_ok_def PAGING_MAX_SYMTBL_SZ_def)
  ultimately show ?thesis using 1 2 assms(6,7)
    by (intro exI [of _ ?s1] exI [of _ "set_proc_mm ?s1 p ?mm2"] exI [of _ ?mm2]) simp
qed

theorem liballoc_unlisted_overlap_witness:
  "\<exists>s s1 s2 mm2. s = (small_os [] [])\<lparr>sched := zero_sched\<rparr>
     \<and> liballoc s 0 100 1 = Inr (0, s1) \<and> liballoc s1 0 100 2 = Inr (0, s2)
     \<and> proc_mm s2 0 = Some mm2 \<and> symrgtbl mm2 ! 1 = symrgtbl mm2 ! 2 \<and> covers 50 (symrgtbl mm2 ! 1)"
proof -
  define s where "s = (small_os [] [])\<lparr>sched := zero_sched\<rparr>"
  have same: "frame_at s = frame_at (small_os [] [])" "proc_mm s = proc_mm (small_os [] [])"
    "ram s = ram (small_os [] [])" "pcbs s = pcbs (small_os [] [])" "os_wf s = os_wf (small_os [] [])"
    by (simp_all add: s_def fun_eq_iff frame_at_def proc_mm_def device_def os_wf_def)
  have "frames_ok s = frames_ok (small_os [] [])" by (simp only: frames_ok_def same)
  then have ok: "frames_ok s" using small_os_ok by simp
  have pm: "proc_mm s 0 = Some fresh_mm" by (simp add: same)
  have nf: "find_caller s i = None" for i
    by (simp add: s_def find_caller_def zero_sched_def zero_queue_def queue_items_def)
  have p: "0 < length (pcbs s)" by (simp add: same)
  have fl: "\<forall>r \<in> set (vm_freerg_list (heap fresh_mm)). unat (rg_end r) - unat (rg_start r) < unat (100 :: u64)"
    by (simp add: fresh_mm_def init_mm_def heap_def enlist_vm_rg_node_def init_vm_rg_def Let_def)
  obtain s1 s2 mm2 where r: "liballoc s 0 100 1 = Inr (0, s1)" "liballoc s1 0 100 2 = Inr (0, s2)"
    "proc_mm s2 0 = Some mm2" "symrgtbl mm2 ! unat (1 :: u32) = \<lparr>rg_start = 0, rg_end = 0 + 100\<rparr>"
    "symrgtbl mm2 ! unat (2 :: u32) = \<lparr>rg_start = 0, rg_end = 0 + 100\<rparr>"
    using liballoc_unlisted_overlap [OF ok p pm nf fresh_regions(1), of 1 2 100] fl by auto
  have "covers 50 (symrgtbl mm2 ! 1)" "symrgtbl mm2 ! 1 = symrgtbl mm2 ! 2"
    using r(4,5) by (simp_all add: covers_def)
  then show ?thesis using r(1-3) s_def by blast
qed

end
