(* ===== verification/OS_Swap.thy ===== *)
theory OS_Swap
  imports OS_Alloc
begin

text \<open>
  Page replacement: what \<open>pg_getpage\<close> does when the page is not present.  A call on a listed
  process is computed on the \<open>caller\<close> view: a state that was stored for a process behaves like
  its view.
\<close>

section \<open>Calls on a stored view\<close>

definition viewed :: "os_t \<Rightarrow> pcb_ref \<Rightarrow> bool" where
  "viewed s p \<longleftrightarrow> os_wf s \<and> p < length (pcbs s) \<and> proc_mm s p \<noteq> None \<and> listed s p"

lemma store_store:
  assumes "os_wf s" and "p < length (pcbs s)" and "own_mm c \<noteq> None" and "own_mm c' \<noteq> None"
  shows "store_caller (store_caller s p c) p c' = store_caller s p c'"
proof -
  obtain r w where d: "k_mram s = Some r" "k_active_mswp s = Some w" "r \<noteq> w" using assms(1) by (auto simp: os_wf_def)
  have "xs[r := a, w := b, r := a', w := b'] = xs[r := a', w := b']" for xs :: "memphy list" and a b a' b'
    by (metis d(3) list_update_overwrite list_update_swap)
  then show ?thesis using assms(3,4)
    by (cases "pcb_mm (pcbs s ! p)")
       (auto simp: store_caller_def set_proc_mm_def set_device_def d Let_def)
qed

lemma find_caller_store [simp]: "find_caller (store_caller s p c) i = find_caller s i"
  by (simp only: find_caller_def store_caller_simps)

lemma viewed_mm:
  assumes "viewed s p" and "own_mm c = Some mm"
  shows "proc_mm (store_caller s p c) p = Some mm" and "load_caller (store_caller s p c) p = c"
    and "listed (store_caller s p c) p"
proof -
  obtain mm0 where "proc_mm s p = Some mm0" using assms(1) by (auto simp: viewed_def)
  then show "proc_mm (store_caller s p c) p = Some mm" "load_caller (store_caller s p c) p = c"
    using assms proc_mm_store_caller(1) load_store_caller by (auto simp: viewed_def)
  show "listed (store_caller s p c) p"
    using assms(1) by (simp add: viewed_def listed_def)
qed

lemma on_proc_view:
  assumes "viewed s p" and "own_mm c = Some mm" and "f c = Inr (r, c')" and "own_mm c' = Some mm'"
  shows "on_proc (store_caller s p c) p f = Inr (r, store_caller s p c')"
  using assms viewed_mm(2) [OF assms(1,2)] store_store [of s p c c']
  by (simp add: on_proc_def viewed_def)

lemma set_proc_mm_view:
  assumes "viewed s p" and "own_mm c = Some mm"
  shows "set_proc_mm (store_caller s p c) p mm' = store_caller s p (c\<lparr>own_mm := Some mm'\<rparr>)"
proof -
  have w: "os_wf (store_caller s p c)" using assms(1) by (simp add: viewed_def os_wf_store_caller)
  have m: "mram c = ram (store_caller s p c)" "active_mswp c = device (store_caller s p c) (k_active_mswp s)"
    using viewed_mm(2) [OF assms] load_caller_simps(2,3) [of "store_caller s p c" p] by (metis store_caller_simps(3,4))+
  have "set_proc_mm (store_caller s p c) p mm' = set_ram (set_proc_mm (store_caller s p c) p mm') (ram (store_caller s p c))"
    using set_ram_same [OF os_wf_set_mm [OF w]] by simp
  also have "\<dots> = store_caller (store_caller s p c) p (c\<lparr>own_mm := Some mm'\<rparr>)"
    using store_caller_split [OF w, of p mm' "mram c"] m by (cases c) simp
  also have "\<dots> = store_caller s p (c\<lparr>own_mm := Some mm'\<rparr>)"
    using store_store [of s p c "c\<lparr>own_mm := Some mm'\<rparr>"] assms by (simp add: viewed_def)
  finally show ?thesis .
qed

lemma syscall_swp_view:
  assumes v: "viewed s p" and c: "own_mm c = Some mm" and cp: "swap_cp_page (mram c) f (active_mswp c) g = Inr (mp, sw)"
  shows "syscall (store_caller s p c) (pid (pcbs s ! p)) 17 \<lparr>a1 = of_int SYSMEM_SWP_OP, a2 = f, a3 = g\<rparr>
    = Inr (0, \<lparr>a1 = of_int SYSMEM_SWP_OP, a2 = f, a3 = g\<rparr>,
           store_caller s p (c\<lparr>mram := mp, active_mswp := sw\<rparr>))"
proof -
  have "find_caller s (pid (pcbs s ! p)) = Some p" using v by (simp add: viewed_def listed_def)
  moreover have "on_proc (store_caller s p c) p (\<lambda>c. mm_swap_page c f g)
      = Inr (0, store_caller s p (c\<lparr>mram := mp, active_mswp := sw\<rparr>))"
    using on_proc_view [OF v c, of "\<lambda>c. mm_swap_page c f g"] c cp by (simp add: mm_swap_page_def)
  ultimately show ?thesis by (simp add: syscall_def sys_memmap_def sysmem_ops)
qed

section \<open>One eviction\<close>

definition looked_up :: "mm \<Rightarrow> u64 \<Rightarrow> mm" where
  "looked_up mm q = mm\<lparr>pgd := snd (tbl_get (pgd mm) q)\<rparr>"

lemma looked_up [simp]:
  "mm_ok mm \<Longrightarrow> mm_ok (looked_up mm q)" "mm_ok mm \<Longrightarrow> pte_of (looked_up mm q) r = pte_of mm r"
  "fifo_pgn (looked_up mm q) = fifo_pgn mm" "symrgtbl (looked_up mm q) = symrgtbl mm" "mmap (looked_up mm q) = mmap mm"
  by (simp_all add: looked_up_def)

lemma fifo_update [simp]:
  "mm_ok (mm\<lparr>fifo_pgn := ps\<rparr>) = mm_ok mm" "pte_of (mm\<lparr>fifo_pgn := ps\<rparr>) q = pte_of mm q"
  by (simp_all add: mm_ok_def pte_of_def)

lemma get_entry_view:
  assumes "viewed s p" and "own_mm c = Some mm" and "mm_ok mm"
  shows "on_proc (store_caller s p c) p (\<lambda>c. pte_get_entry c q) =
    Inr (ucast (pte_of mm q), store_caller s p (c\<lparr>own_mm := Some (looked_up mm q)\<rparr>))"
  using on_proc_view [OF assms(1,2), of "\<lambda>c. pte_get_entry c q"] pte_get_entry_eq [OF assms(2,3), of q]
  by (simp add: looked_up_def)

lemma caller_order [simp]:
  "c\<lparr>active_mswp := a, own_mm := m\<rparr> = c\<lparr>own_mm := m, active_mswp := a\<rparr>"
  "c\<lparr>mram := r, own_mm := m\<rparr> = c\<lparr>own_mm := m, mram := r\<rparr>"
  "c\<lparr>active_mswp := a, mram := r\<rparr> = c\<lparr>mram := r, active_mswp := a\<rparr>"
  by (cases c; simp)+

definition swapped_mm :: "mm \<Rightarrow> u64 \<Rightarrow> u64 \<Rightarrow> u64 list \<Rightarrow> u64 \<Rightarrow> u64 \<Rightarrow> mm" where
  "swapped_mm mm q v qs f g =
     (set_pte (set_pte (looked_up ((looked_up mm q)\<lparr>fifo_pgn := qs\<rparr>) v) v (\<lambda>e. mark_swap e 0 g))
        q (\<lambda>e. mark_fpn e f))\<lparr>fifo_pgn := q # qs\<rparr>"

lemma swapped_mm:
  assumes "mm_ok mm" and "unat q < 2 ^ 45" and "unat v < 2 ^ 45" and "q \<noteq> v" and "unat r < 2 ^ 45"
  shows "mm_ok (swapped_mm mm q v qs f g)" and "fifo_pgn (swapped_mm mm q v qs f g) = q # qs"
    and "pte_of (swapped_mm mm q v qs f g) r =
      (if r = q then mark_fpn (pte_of mm q) f else if r = v then mark_swap (pte_of mm v) 0 g else pte_of mm r)"
  using assms
  by (simp_all add: swapped_mm_def mm_ok_set_pte pte_of_set_pte same_entry_small)

lemma page_in_evicts:
  assumes v: "viewed s p" and c: "own_mm c = Some mm" and ok: "mm_ok mm"
    and fifo: "fifo_pgn mm = qs @ [v]" and sw: "MEMPHY_get_freefp (active_mswp c) = Inr (Some g, sw1)"
    and f: "f = ucast (PAGING_FPN (ucast (pte_of mm v)))"
    and cp: "swap_cp_page (mram c) f sw1 g = Inr (mram c, sw2)"
  shows "page_in (store_caller s p (c\<lparr>own_mm := Some (looked_up mm q)\<rparr>)) p q 0 =
    Inr (0, store_caller s p (c\<lparr>own_mm := Some (swapped_mm mm q v qs f g), active_mswp := sw2\<rparr>))"
proof -
  let ?m1 = "looked_up mm q"
  let ?m2 = "?m1\<lparr>fifo_pgn := qs\<rparr>"
  let ?m3 = "looked_up ?m2 v"
  let ?m4 = "set_pte ?m3 v (\<lambda>e. mark_swap e 0 g)"
  let ?m5 = "set_pte ?m4 q (\<lambda>e. mark_fpn e f)"
  let ?c1 = "c\<lparr>own_mm := Some ?m1\<rparr>" and ?c2 = "c\<lparr>own_mm := Some ?m2\<rparr>"
  have s1: "set_proc_mm (store_caller s p ?c1) p ?m2 = store_caller s p ?c2"
    using set_proc_mm_view [OF v, of ?c1 ?m1 ?m2] by simp
  have victim: "find_victim_page ?m1 = (Some v, ?m2)" by (simp add: find_victim_page_def fifo)
  have s2: "on_proc (store_caller s p ?c2) p (\<lambda>c. bindR (MEMPHY_get_freefp (active_mswp c)) (\<lambda>(f, swp).
      Inr (f, c\<lparr>active_mswp := swp\<rparr>))) = Inr (Some g, store_caller s p (?c2\<lparr>active_mswp := sw1\<rparr>))"
    by (rule on_proc_view [OF v, of _ ?m2 _ _ _ ?m2]) (use sw in simp_all)
  have s3: "on_proc (store_caller s p (?c2\<lparr>active_mswp := sw1\<rparr>)) p (\<lambda>c. pte_get_entry c v) =
      Inr (ucast (pte_of mm v), store_caller s p (c\<lparr>own_mm := Some ?m3, active_mswp := sw1\<rparr>))"
    using get_entry_view [OF v, of "?c2\<lparr>active_mswp := sw1\<rparr>" ?m2 v] ok by (cases c) simp
  have s4: "syscall (store_caller s p (c\<lparr>own_mm := Some ?m3, active_mswp := sw1\<rparr>)) (pid (pcbs s ! p)) 17
        \<lparr>a1 = of_int SYSMEM_SWP_OP, a2 = f, a3 = g\<rparr>
      = Inr (0, \<lparr>a1 = of_int SYSMEM_SWP_OP, a2 = f, a3 = g\<rparr>,
          store_caller s p (c\<lparr>own_mm := Some ?m3, active_mswp := sw2\<rparr>))"
    using syscall_swp_view [OF v, of "c\<lparr>own_mm := Some ?m3, active_mswp := sw1\<rparr>" ?m3 f g "mram c" sw2] cp
    by (cases c) simp
  have s5: "on_proc (store_caller s p (c\<lparr>own_mm := Some ?m3, active_mswp := sw2\<rparr>)) p (\<lambda>c. pte_set_swap c v 0 g)
      = Inr (0, store_caller s p (c\<lparr>own_mm := Some ?m4, active_mswp := sw2\<rparr>))"
    using on_proc_view [OF v, of "c\<lparr>own_mm := Some ?m3, active_mswp := sw2\<rparr>" ?m3 "\<lambda>c. pte_set_swap c v 0 g"]
    by (simp add: pte_set_swap_eq)
  have s6: "on_proc (store_caller s p (c\<lparr>own_mm := Some ?m4, active_mswp := sw2\<rparr>)) p (\<lambda>c. pte_set_fpn c q f)
      = Inr (0, store_caller s p (c\<lparr>own_mm := Some ?m5, active_mswp := sw2\<rparr>))"
    using on_proc_view [OF v, of "c\<lparr>own_mm := Some ?m4, active_mswp := sw2\<rparr>" ?m4 "\<lambda>c. pte_set_fpn c q f"]
    by (simp add: pte_set_fpn_eq)
  have p6: "proc_mm (store_caller s p (c\<lparr>own_mm := Some ?m5, active_mswp := sw2\<rparr>)) p = Some ?m5"
    using viewed_mm(1) [OF v, of "c\<lparr>own_mm := Some ?m5, active_mswp := sw2\<rparr>"] by simp
  have s7: "set_proc_mm (store_caller s p (c\<lparr>own_mm := Some ?m5, active_mswp := sw2\<rparr>)) p
      (?m5\<lparr>fifo_pgn := enlist_pgn_node qs q\<rparr>)
      = store_caller s p (c\<lparr>own_mm := Some (swapped_mm mm q v qs f g), active_mswp := sw2\<rparr>)"
    using set_proc_mm_view [OF v, of "c\<lparr>own_mm := Some ?m5, active_mswp := sw2\<rparr>" ?m5 "?m5\<lparr>fifo_pgn := q # qs\<rparr>"]
    by (simp add: enlist_pgn_node_def swapped_mm_def)
  have p1: "proc_mm (store_caller s p ?c1) p = Some ?m1" using viewed_mm(1) [OF v, of ?c1] by simp
  show ?thesis
    unfolding page_in_def p1 deref_simps bindR_Inr victim prod.case option.case s1 Let_def s2 s3 f [symmetric]
      store_caller_simps(1) s4 s5
    by (simp add: s6 p6 s7)
qed

section \<open>The swap device\<close>

lemma FPN_of_FPN: "PAGING_FPN (ucast (mark_fpn e (ucast (PAGING_FPN x)))) = PAGING_FPN x"
  by (rule bit_word_eqI) (auto simp: FPN_eq bit_mark_fpn bit_simps)

lemma viewed_self: "viewed s p \<Longrightarrow> store_caller s p (load_caller s p) = s"
  by (simp add: viewed_def store_load_caller)

text \<open>Accessing a page that was never mapped, with a victim and a free swap frame at hand.\<close>

lemma pg_getpage_evicts:
  assumes v: "viewed s p" and p: "proc_mm s p = Some mm" and ok: "mm_ok mm"
    and q: "pte_of mm (scast pgn) = 0" "unat (scast pgn :: u64) < 2 ^ 45" "scast pgn \<noteq> v" "unat v < 2 ^ 45"
    and fifo: "fifo_pgn mm = qs @ [v]"
    and sw: "MEMPHY_get_freefp (device s (k_active_mswp s)) = Inr (Some g, sw1)"
    and cp: "swap_cp_page (ram s) (ucast (PAGING_FPN (ucast (pte_of mm v)))) sw1 g = Inr (ram s, sw2)"
  shows "\<exists>s' mm'. pg_getpage s p pgn = Inr ((0, Some (PAGING_FPN (ucast (pte_of mm v)))), s')
    \<and> proc_mm s' p = Some mm' \<and> mm_ok mm' \<and> fifo_pgn mm' = scast pgn # qs
    \<and> pte_of mm' (scast pgn) = mark_fpn 0 (ucast (PAGING_FPN (ucast (pte_of mm v))))
    \<and> pte_of mm' v = mark_swap (pte_of mm v) 0 g
    \<and> (\<forall>r. unat r < 2 ^ 45 \<longrightarrow> r \<noteq> scast pgn \<longrightarrow> r \<noteq> v \<longrightarrow> pte_of mm' r = pte_of mm r)
    \<and> ram s' = ram s \<and> device s' (k_active_mswp s) = sw2"
proof -
  let ?q = "scast pgn :: u64" and ?c = "load_caller s p"
  let ?f = "ucast (PAGING_FPN (ucast (pte_of mm v))) :: u64"
  let ?mm = "swapped_mm mm ?q v qs ?f g"
  let ?c' = "?c\<lparr>own_mm := Some (looked_up ?mm ?q), active_mswp := sw2\<rparr>"
  have c: "own_mm ?c = Some mm" using p by simp
  note sm = swapped_mm [OF ok q(2,4,3)]
  have m': "mm_ok ?mm" using sm(1) [of 0] by simp
  have e1: "on_proc s p (\<lambda>c. pte_get_entry c ?q) = Inr (0, store_caller s p (?c\<lparr>own_mm := Some (looked_up mm ?q)\<rparr>))"
    using get_entry_view [OF v c ok, of ?q] viewed_self [OF v] q(1) by simp
  have e2: "page_in (store_caller s p (?c\<lparr>own_mm := Some (looked_up mm ?q)\<rparr>)) p ?q 0 =
      Inr (0, store_caller s p (?c\<lparr>own_mm := Some ?mm, active_mswp := sw2\<rparr>))"
    by (rule page_in_evicts [OF v c ok fifo _ _ ]) (use sw cp in simp_all)
  have e3: "on_proc (store_caller s p (?c\<lparr>own_mm := Some ?mm, active_mswp := sw2\<rparr>)) p (\<lambda>c. pte_get_entry c ?q)
      = Inr (ucast (mark_fpn 0 ?f), store_caller s p ?c')"
    using get_entry_view [OF v, of "?c\<lparr>own_mm := Some ?mm, active_mswp := sw2\<rparr>" ?mm ?q] m' sm(3) [of ?q] q(1,2)
    by (simp add: load_caller_def)
  have np: "\<not> PAGING_PAGE_PRESENT 0" by (simp add: present_iff_bit)
  have "pg_getpage s p pgn = Inr ((0, Some (PAGING_FPN (ucast (pte_of mm v)))), store_caller s p ?c')"
    by (simp add: pg_getpage_def e1 e2 e3 np FPN_of_FPN)
  moreover have "proc_mm (store_caller s p ?c') p = Some (looked_up ?mm ?q)"
    using viewed_mm(1) [OF v, of ?c'] by simp
  moreover have "ram (store_caller s p ?c') = ram s" "device (store_caller s p ?c') (k_active_mswp s) = sw2"
    using device_store_caller [of s p ?c'] v by (simp_all add: viewed_def)
  ultimately show ?thesis
    using m' sm q(1,2,4) by (intro exI [of _ "store_caller s p ?c'"] exI [of _ "looked_up ?mm ?q"]) (simp add: q(3) q(3) [symmetric])
qed

section \<open>Properties\<close>

text \<open>C39: an access to a page that was never mapped evicts the oldest page: the touched page gets
  the victim's frame and the victim's 256 bytes are saved in the first free swap frame.  But the
  victim keeps reading as present, now with a frame number made of the swap frame's number, so
  its next access goes to that unrelated frame and the saved bytes are never brought back.\<close>

theorem eviction_breaks_victim:
  assumes "frames_ok s" and "p < length (pcbs s)" and "proc_mm s p = Some mm" and "listed s p"
    and "pte_of mm (scast pgn) = 0" and "unat (scast pgn :: u64) < 2 ^ 45"
    and "fifo_pgn mm = qs @ [v]" and "unat v < heap_pages mm"
    and "MEMPHY_get_freefp (device s (k_active_mswp s)) = Inr (Some g, sw1)" and "rdmflg sw1 \<noteq> 0"
    and "(unat g + 1) * 256 \<le> length (storage sw1)" and "length (storage sw1) < 2 ^ 64"
    and "length (storage (ram s)) < 2 ^ 64"
  shows "\<exists>s' mm'. pg_getpage s p pgn = Inr ((0, Some (PAGING_FPN (ucast (pte_of mm v)))), s')
    \<and> proc_mm s' p = Some mm' \<and> resident mm' (scast pgn) \<and> page_frame mm' (scast pgn) = page_frame mm v
    \<and> (\<forall>i < 256. storage (device s' (k_active_mswp s)) ! (unat g * 256 + i)
          = storage (ram s) ! (page_frame mm v * 256 + i))
    \<and> resident mm' v \<and> page_frame mm' v = 32 * (unat g mod 256) \<and> ram s' = ram s"
proof -
  note wf = frames_okD(1) [OF assms(1)]
  have sp: "space_ok mm" using frames_okD(4) [OF assms(1-3)] .
  then have ok: "mm_ok mm" by (simp add: space_ok_def)
  have view: "viewed s p" using wf assms(2-4) by (simp add: viewed_def)
  let ?f = "ucast (PAGING_FPN (ucast (pte_of mm v))) :: u64"
  have f: "unat ?f = page_frame mm v"
    using page_frame_less [of mm v] by (simp add: page_frame_def unsigned_ucast_eq take_bit_nat_eq_self)
  have vp: "(of_nat (unat v) :: u64) = v" by simp
  have res: "resident mm v" using sp assms(8) vp unfolding space_ok_def by metis
  then have ne: "scast pgn \<noteq> v" using assms(5) by (auto simp: resident_def present_iff_bit)
  have "unat (sbrk (heap mm)) \<le> 2 ^ 22" using sp by (simp add: space_ok_def)
  then have "heap_pages mm \<le> 16384" by (simp add: heap_pages_def)
  then have vs: "unat v < 2 ^ 45" using assms(8) by simp
  have "frame_at s (p, unat v) = Some (page_frame mm v)"
    using assms(2,3,8) by (simp add: frame_at_eq)
  then have range: "(unat ?f + 1) * 256 \<le> length (storage (ram s))" using frames_okD(6) [OF assms(1)] f by simp
  obtain sw2 where cp: "swap_cp_loop 256 0 (ram s) ?f sw1 g = Inr (ram s, sw2)"
    and sw2: "\<forall>j. storage sw2 ! j = (if unat g * 256 \<le> j \<and> j < unat g * 256 + 256
          then storage (ram s) ! (unat ?f * 256 + (j - unat g * 256)) else storage sw1 ! j)"
    using swap_cp_loop_copies [OF frames_okD(2) [OF assms(1)] assms(10), of ?f 0 256 g] range assms(11-13) by auto
  have "swap_cp_page (ram s) ?f sw1 g = Inr (ram s, sw2)" using cp by (simp add: swap_cp_page_def PAGING_PAGESZ_def)
  then obtain s' mm' where r: "pg_getpage s p pgn = Inr ((0, Some (PAGING_FPN (ucast (pte_of mm v)))), s')"
    "proc_mm s' p = Some mm'" "pte_of mm' (scast pgn) = mark_fpn 0 ?f" "pte_of mm' v = mark_swap (pte_of mm v) 0 g"
    "ram s' = ram s" "device s' (k_active_mswp s) = sw2"
    using pg_getpage_evicts [OF view assms(3) ok assms(5,6) ne vs assms(7,9)] by blast
  have "page_frame mm' (scast pgn) = page_frame mm v"
    using r(3) by (simp add: page_frame_def FPN_of_FPN)
  moreover have "page_frame mm' v = 32 * (unat g mod 256)" using r(4) by (simp add: page_frame_def unat_FPN_mark_swap)
  moreover have "resident mm' (scast pgn)" "resident mm' v" using r(3,4) by (simp_all add: resident_def)
  moreover have "storage sw2 ! (unat g * 256 + i) = storage (ram s) ! (page_frame mm v * 256 + i)" if "i < 256" for i
    using sw2 that f by simp
  ultimately show ?thesis using r(1,2,5,6) by blast
qed

text \<open>The small machine after an allocation of 300 bytes: pages 0 and 1 are in frames 0 and 1.\<close>

lemma small_pages:
  obtains s mm where "frames_ok s" and "0 < length (pcbs s)" and "proc_mm s 0 = Some mm" and "listed s 0"
    and "fifo_pgn mm = [1, 0]" and "heap_pages mm = 2" and "pte_of mm 9 = 0" and "pte_of mm 0 = mark_fpn 0 0"
    and "k_active_mswp s = Some 1" and "device s (Some 1) = snd (init_memphy blank_device 1024 1)"
    and "length (storage (ram s)) = 1024"
proof (rule small_alloc)
  fix s mm g
  assume s: "liballoc (small_os [] []) 0 300 2 = Inr (0, s)" "frames_ok s" "0 < length (pcbs s)"
    "proc_mm s 0 = Some mm" "listed s 0"
  let ?s = "small_os [] []" and ?mm = "grown fresh_mm [0, 1] 2 300"
  have fr: "free_frames (ram ?s) = [0, 1, 2, 3]" "pool_ok (ram ?s)" using fresh_ram by (simp_all add: fresh_caller_def)
  have pg: "pages 300 = 2" by (simp add: pages_def)
  have fit: "first_fit (ucast (300 :: u64)) (vm_freerg_list (heap fresh_mm)) = None"
    using fresh_regions(2) [of "300 :: u64"] by simp
  obtain mp where l: "liballoc ?s 0 300 2 = Inr (0, set_ram (set_proc_mm ?s 0 ?mm) mp)"
    "device_core mp = device_core (ram ?s)"
    using liballoc_grow [OF small_os_wf, of 0 "[]" "[]" fresh_mm 300 2] small_os_listed(1) fr pg fit by auto
  have se: "s = set_ram (set_proc_mm ?s 0 ?mm) mp" using s(1) l(1) by simp
  have mm: "mm = ?mm" using s(4) proc_mm_set_mm [OF small_os_wf, where p = 0 and q = 0 and mm = ?mm] by (simp add: se)
  have "run_pages 0 2 = [0, 1 :: u64]" by (simp add: upt_rec)
  then have "fifo_pgn mm = [1, 0]" by (simp add: mm grown_def numeral_2_eq_2)
  moreover have "heap_pages mm = 2" by (simp add: mm grown_def heap_pages_def)
  moreover have "pte_of mm 9 = 0" "pte_of mm 0 = mark_fpn 0 0"
    using pte_of_grow [of fresh_mm "[0, 1]" 9] pte_of_grow [of fresh_mm "[0, 1]" 0] by (simp_all add: mm grown_def Let_def)
  moreover have "device s (Some 1) = snd (init_memphy blank_device 1024 1)"
    by (simp add: se device_def set_ram_def set_device_def) (simp add: small_os_def)
  moreover have "length (storage (ram s)) = 1024"
    using l(2) ram_set_ram [OF os_wf_set_mm [OF small_os_wf], where mp = mp]
    by (simp add: se device_core_def init_memphy_fields)
  ultimately show ?thesis using that s(2-5) by (simp add: se)
qed

theorem eviction_breaks_victim_witness:
  "\<exists>s s' mm'. frames_ok s \<and> pg_getpage s 0 9 = Inr ((0, Some 0), s') \<and> proc_mm s' 0 = Some mm'
     \<and> resident mm' 9 \<and> page_frame mm' 9 = 0 \<and> resident mm' 0 \<and> page_frame mm' 0 = 0"
proof (rule small_pages)
  fix s mm
  assume s: "frames_ok s" "0 < length (pcbs s)" "proc_mm s 0 = Some mm" "listed s 0"
    "fifo_pgn mm = [1, 0]" "heap_pages mm = 2" "pte_of mm 9 = 0" "pte_of mm 0 = mark_fpn 0 0"
    "k_active_mswp s = Some 1" "device s (Some 1) = snd (init_memphy blank_device 1024 1)" "length (storage (ram s)) = 1024"
  let ?sw = "snd (init_memphy blank_device 1024 1)"
  obtain sw1 where sw1: "MEMPHY_get_freefp ?sw = Inr (Some 0, sw1)" "storage sw1 = storage ?sw" "rdmflg sw1 = rdmflg ?sw"
    by (simp add: MEMPHY_get_freefp_def init_memphy_fields PAGING_PAGESZ_def Let_def)
  have q: "scast (9 :: i32) = (9 :: u64)" by code_simp
  have f0: "PAGING_FPN (ucast (pte_of mm 0)) = 0" by (simp add: s(8) FPN_mark_fpn)
  then have "page_frame mm 0 = 0" by (simp add: page_frame_def)
  then show ?thesis
    using eviction_breaks_victim [OF s(1-4), of 9 "[1]" 0 0 sw1] s sw1 f0 by (auto simp: q init_memphy_fields)
qed

end
