(* ===== verification/OS_Robust.thy ===== *)
theory OS_Robust
  imports OS_Vm
begin

text \<open>
  Instructions do not crash.  Total correctness of the memory calls under an invariant that is much
  weaker than \<open>frames_ok\<close>: the tables of a process are well formed and every entry is 0 or
  present, RAM has at least the 2 MB that a frame number of 13 bits can address, and the free
  frames of the swap device lie inside it.  Nothing is assumed about who owns a frame, about
  the regions, or about which addresses a program touches: whatever an instruction does, it
  returns and keeps the invariant.
\<close>

section \<open>Returning with a postcondition\<close>

definition returns :: "('a \<Rightarrow> bool) \<Rightarrow> fault + 'a \<Rightarrow> bool" where
  "returns Q m \<longleftrightarrow> (\<exists>x. m = Inr x \<and> Q x)"

lemma returns_simps [simp]: "returns Q (Inr x) = Q x" "\<not> returns Q (Inl e)"
  by (simp_all add: returns_def)

lemma returns_bind:
  "returns Q m \<Longrightarrow> (\<And>x. Q x \<Longrightarrow> returns P (f x)) \<Longrightarrow> returns P (bindR m f)"
  by (auto simp: returns_def)

lemma returns_bind2:
  "returns (\<lambda>(a, b). Q a b) m \<Longrightarrow> (\<And>a b. Q a b \<Longrightarrow> returns P (f (a, b))) \<Longrightarrow> returns P (bindR m f)"
  by (auto simp: returns_def)

lemma returns_bind3:
  "returns (\<lambda>(a, b, c). Q a b c) m \<Longrightarrow> (\<And>a b c. Q a b c \<Longrightarrow> returns P (f (a, b, c))) \<Longrightarrow> returns P (bindR m f)"
  by (auto simp: returns_def)

lemma returns_weaken: "returns Q m \<Longrightarrow> (\<And>x. Q x \<Longrightarrow> P x) \<Longrightarrow> returns P m"
  by (auto simp: returns_def)

section \<open>Tables whose entries are 0 or present\<close>

definition entry_ok :: "u32 \<Rightarrow> bool" where
  "entry_ok pte \<longleftrightarrow> pte = 0 \<or> PAGING_PAGE_PRESENT pte"

definition robust_mm :: "mm \<Rightarrow> bool" where
  "robust_mm mm \<longleftrightarrow> mm_ok mm \<and> (\<forall>q. entry_ok (ucast (pte_of mm q)))"

lemma entry_ok_marks [simp]:
  "entry_ok (ucast (mark_fpn v f))" "entry_ok (ucast (mark_swap v typ off))" "entry_ok 0"
  by (simp_all add: entry_ok_def)

lemma robust_mm_ok: "robust_mm mm \<Longrightarrow> mm_ok mm"
  by (simp add: robust_mm_def)

lemma robust_set_pte: "robust_mm mm \<Longrightarrow> (\<And>v. entry_ok (ucast (f v))) \<Longrightarrow> robust_mm (set_pte mm p f)"
  by (simp add: robust_mm_def mm_ok_set_pte pte_of_set_pte)

lemma robust_get: "robust_mm mm \<Longrightarrow> robust_mm (mm\<lparr>pgd := snd (tbl_get (pgd mm) p)\<rparr>)"
  by (simp add: robust_mm_def)

lemma robust_upd [simp]:
  "robust_mm (mm\<lparr>fifo_pgn := ps\<rparr>) = robust_mm mm"
  "robust_mm (mm\<lparr>symrgtbl := (symrgtbl mm)[i := rg]\<rparr>) = robust_mm mm"
  by (simp_all add: robust_mm_def mm_ok_def pte_of_def)

lemma robust_mmap:
  assumes "robust_mm mm" and "vm_id v = vm_id (mmap mm ! k)"
  shows "robust_mm (mm\<lparr>mmap := (mmap mm)[k := v]\<rparr>)"
proof -
  obtain a where "mmap mm = [a]" "vm_id a = 0" using assms(1) by (auto simp: robust_mm_def mm_ok_def)
  then show ?thesis using assms by (cases k) (simp_all add: robust_mm_def mm_ok_def pte_of_def)
qed

lemma robust_init: "length (symrgtbl mm) = PAGING_MAX_SYMTBL_SZ \<Longrightarrow> robust_mm (init_mm mm)"
  by (simp add: robust_mm_def mm_ok_init pte_of_def) (simp add: init_mm_def empty_pgtable_lookup Let_def)

lemma symrgtbl_robust: "robust_mm mm \<Longrightarrow> length (symrgtbl mm) = 30"
  by (simp add: robust_mm_def mm_ok_def PAGING_MAX_SYMTBL_SZ_def)

section \<open>Devices\<close>

definition ram_fits :: "nat \<Rightarrow> memphy \<Rightarrow> bool" where
  "ram_fits R mp \<longleftrightarrow> rdmflg mp \<noteq> 0 \<and> pool_ok mp \<and> length (storage mp) = R \<and> 2 ^ 21 \<le> R \<and> R < 2 ^ 31"

definition swap_fits :: "nat \<Rightarrow> memphy \<Rightarrow> bool" where
  "swap_fits W mp \<longleftrightarrow> rdmflg mp \<noteq> 0 \<and> pool_ok mp \<and> length (storage mp) = W \<and> W < 2 ^ 31
     \<and> (\<forall>f \<in> set (free_frames mp). unat f * 256 + 256 \<le> W)"

lemma fits_storage:
  "length st = length (storage mp) \<Longrightarrow> ram_fits R (mp\<lparr>storage := st\<rparr>) = ram_fits R mp"
  "length st = length (storage mp) \<Longrightarrow> swap_fits W (mp\<lparr>storage := st\<rparr>) = swap_fits W mp"
  by (simp_all add: ram_fits_def swap_fits_def pool_ok_def free_frames_def)

lemma init_fits:
  assumes "unat sz < 2 ^ 31"
  shows "2 ^ 21 \<le> unat sz \<Longrightarrow> ram_fits (unat sz) (snd (init_memphy mp sz 1))"
    and "512 \<le> unat sz \<Longrightarrow> swap_fits (unat sz) (snd (init_memphy mp sz 1))"
proof -
  have pool: "pool_ok (snd (init_memphy mp sz 1))"
    "free_frames (snd (init_memphy mp sz 1)) = map of_nat [0..<unat sz div 256]" if "512 \<le> unat sz"
    using init_memphy_frames [of sz mp 1] assms that by (simp_all add: PAGING_PAGESZ_def)
  show "ram_fits (unat sz) (snd (init_memphy mp sz 1))" if "2 ^ 21 \<le> unat sz"
    using pool assms that by (simp add: ram_fits_def init_memphy_fields)
  show "swap_fits (unat sz) (snd (init_memphy mp sz 1))" if s: "512 \<le> unat sz"
  proof -
    have "unat (of_nat i :: u64) * 256 + 256 \<le> unat sz" if "i < unat sz div 256" for i
      using that assms by (simp add: unat_of_nat)
    then show ?thesis using pool [OF s] assms by (auto simp: swap_fits_def init_memphy_fields)
  qed
qed

section \<open>The memory manager on a caller\<close>

definition fit_caller :: "nat \<Rightarrow> nat \<Rightarrow> caller \<Rightarrow> bool" where
  "fit_caller R W c \<longleftrightarrow> (\<exists>mm. own_mm c = Some mm \<and> robust_mm mm) \<and> ram_fits R (mram c) \<and> swap_fits W (active_mswp c)"

lemma fit_caller_mm: "fit_caller R W c \<Longrightarrow> robust_mm mm \<Longrightarrow> fit_caller R W (c\<lparr>own_mm := Some mm\<rparr>)"
  by (simp add: fit_caller_def)

lemma fit_set_fpn: "fit_caller R W c \<Longrightarrow> returns (\<lambda>(r, c). fit_caller R W c) (pte_set_fpn c p f)"
  by (auto simp: fit_caller_def pte_set_fpn_eq intro!: robust_set_pte)

lemma fit_set_swap: "fit_caller R W c \<Longrightarrow> returns (\<lambda>(r, c). fit_caller R W c) (pte_set_swap c p typ off)"
  by (auto simp: fit_caller_def pte_set_swap_eq intro!: robust_set_pte)

lemma fit_get_entry:
  "fit_caller R W c \<Longrightarrow> returns (\<lambda>(r, c). entry_ok r \<and> fit_caller R W c) (pte_get_entry c p)"
  by (auto simp: fit_caller_def pte_get_entry_eq robust_mm_ok robust_get) (simp add: robust_mm_def)

lemma fit_memset_loop: "fit_caller R W c \<Longrightarrow> returns (fit_caller R W) (memset_loop k i c pgn)"
proof (induction k arbitrary: i c)
  case (Suc k)
  obtain mm where mm: "own_mm c = Some mm" "robust_mm mm" using Suc.prems by (auto simp: fit_caller_def)
  have "fit_caller R W (c\<lparr>own_mm := Some (set_pte mm (pgn + of_nat i) (\<lambda>_. 0))\<rparr>)"
    using Suc.prems mm(2) by (intro fit_caller_mm robust_set_pte) simp_all
  from Suc.IH [OF this] show ?case
    using mm(1) by (simp add: get_pte_def store_pte_def set_pte_def tbl_update_def case_prod_unfold Let_def)
qed simp

lemma fit_vmap_loop: "fit_caller R W c \<Longrightarrow> returns (\<lambda>(r, c). fit_caller R W c) (vmap_loop k i c addr fs)"
proof (induction k arbitrary: i c fs)
  case (Suc k)
  show ?case
  proof (cases fs)
    case (Cons f gs)
    obtain mm where mm: "own_mm c = Some mm" "robust_mm mm" using Suc.prems by (auto simp: fit_caller_def)
    let ?p = "addr div of_nat PAGING_PAGESZ + of_nat i"
    have "fit_caller R W (c\<lparr>own_mm := Some ((set_pte mm ?p (\<lambda>v. mark_fpn v f))\<lparr>fifo_pgn := ?p # fifo_pgn mm\<rparr>)\<rparr>)"
      using Suc.prems mm(2) by (intro fit_caller_mm) (simp_all add: robust_set_pte)
    from Suc.IH [OF this] show ?thesis
      using mm(1) by (simp add: Cons pte_set_fpn_eq enlist_pgn_node_def Let_def)
  qed (simp add: Suc.prems)
qed simp

lemma ram_fits_core:
  "ram_fits R mp \<Longrightarrow> pool_ok mp' \<Longrightarrow> device_core mp' = device_core mp \<Longrightarrow> ram_fits R mp'"
  by (simp add: ram_fits_def device_core_def)

lemma fit_take_frames:
  assumes "ram_fits R mp"
  shows "returns (\<lambda>(ok, fs, mp). ram_fits R mp) (take_frames MEMPHY_get_freefp n mp)"
proof -
  have pool: "pool_ok mp" using assms by (simp add: ram_fits_def)
  obtain ok fs mp' where "take_frames MEMPHY_get_freefp n mp = Inr (ok, fs, mp')" "pool_ok mp'" "device_core mp' = device_core mp"
  proof (cases "n \<le> length (free_frames mp)")
    case True
    from fpool.take_frames_enough [OF pool True] show ?thesis using that by blast
  next
    case False
    then have "length (free_frames mp) < n" by simp
    from fpool.take_frames_short [OF pool this] show ?thesis using that by blast
  qed
  then show ?thesis using ram_fits_core [OF assms] by simp
qed

lemma fit_map_ram:
  assumes "fit_caller R W c"
  shows "returns (\<lambda>(r, rg, c). fit_caller R W c) (vm_map_ram c s e at n rg)"
proof -
  have "returns (\<lambda>(r, fs, c). fit_caller R W c) (alloc_pages_range c n)"
    unfolding alloc_pages_range_def
    by (rule returns_bind3 [OF fit_take_frames [of R]]) (use assms in \<open>simp_all add: fit_caller_def\<close>)
  moreover have "returns (\<lambda>(r, rg, c). fit_caller R W c) (vmap_page_range c at n fs rg)" if "fit_caller R W c" for c fs
    unfolding vmap_page_range_def Let_def by (rule returns_bind2 [OF fit_vmap_loop [OF that]]) simp
  ultimately show ?thesis unfolding vm_map_ram_def
    by (auto intro!: returns_bind3)
qed

lemma fit_inc_vma: "fit_caller R W c \<Longrightarrow> returns (\<lambda>(r, c). fit_caller R W c) (inc_vma_limit c vmaid sz)"
proof -
  assume c: "fit_caller R W c"
  have grow: "returns (\<lambda>(r, c). fit_caller R W c)
    (bindR (deref (own_mm c')) (\<lambda>mm.
       Inr (0, c'\<lparr>own_mm := Some (mm\<lparr>mmap := (mmap mm)[k := (mmap mm ! k)\<lparr>vm_end := x, sbrk := x\<rparr>]\<rparr>)\<rparr>)))"
    if "fit_caller R W c'" for c' k x
    using that by (auto simp: fit_caller_def intro!: robust_mmap)
  show ?thesis unfolding inc_vma_limit_def Let_def
    using c by (auto split: option.split intro!: returns_bind3 [OF fit_map_ram [OF c]] grow)
qed

lemma fit_free_area: "fit_caller R W c \<Longrightarrow> get_free_vmrg_area c vmaid sz = (g, c') \<Longrightarrow> fit_caller R W c'"
  by (auto simp: get_free_vmrg_area_def fit_caller_def split: option.splits if_splits intro!: robust_mmap)

lemma fit_swap_frame:
  assumes "fit_caller R W c"
  shows "returns (\<lambda>(f, c). (case f of None \<Rightarrow> True | Some f \<Rightarrow> unat f * 256 + 256 \<le> W) \<and> fit_caller R W c)
    (bindR (MEMPHY_get_freefp (active_mswp c)) (\<lambda>(f, swp). Inr (f, c\<lparr>active_mswp := swp\<rparr>)))"
proof -
  have sw: "swap_fits W (active_mswp c)" and pool: "pool_ok (active_mswp c)"
    using assms by (simp_all add: fit_caller_def swap_fits_def)
  show ?thesis
  proof (cases "free_frames (active_mswp c)")
    case Nil
    then show ?thesis using fpool.get_empty [OF pool Nil] assms by (simp add: fit_caller_def)
  next
    case (Cons f fs)
    obtain m where m: "MEMPHY_get_freefp (active_mswp c) = Inr (Some f, m)" "pool_ok m" "free_frames m = fs"
      "device_core m = device_core (active_mswp c)" using fpool.get_Cons [OF pool Cons] by blast
    then have "swap_fits W m" using sw Cons by (simp add: swap_fits_def device_core_def)
    then show ?thesis using m(1) sw Cons assms by (simp add: fit_caller_def swap_fits_def)
  qed
qed

lemma fit_swap_out:
  assumes "fit_caller R W c" and "unat vic < 8192" and "unat swp * 256 + 256 \<le> W"
  shows "returns (\<lambda>(r, c). fit_caller R W c) (mm_swap_page c vic swp)"
proof -
  have d: "ram_fits R (mram c)" "swap_fits W (active_mswp c)" using assms(1) by (simp_all add: fit_caller_def)
  have "\<exists>dst'. swap_cp_loop 256 0 (mram c) vic (active_mswp c) swp = Inr (mram c, dst')
    \<and> (\<forall>j. storage dst' ! j = (if unat swp * 256 + 0 \<le> j \<and> j < unat swp * 256 + 0 + 256
          then storage (mram c) ! (unat vic * 256 + (j - unat swp * 256)) else storage (active_mswp c) ! j))
    \<and> length (storage dst') = length (storage (active_mswp c))
    \<and> dst' = (active_mswp c)\<lparr>storage := storage dst'\<rparr>"
    by (rule swap_cp_loop_copies) (use d assms(2,3) in \<open>auto simp: ram_fits_def swap_fits_def\<close>)
  then obtain dst where "swap_cp_page (mram c) vic (active_mswp c) swp = Inr (mram c, dst)"
    "length (storage dst) = length (storage (active_mswp c))" "dst = (active_mswp c)\<lparr>storage := storage dst\<rparr>"
    unfolding swap_cp_page_def PAGING_PAGESZ_def by blast
  moreover from this(2,3) have "swap_fits W dst" using fits_storage(2) d(2) by metis
  ultimately show ?thesis using assms(1) by (simp add: mm_swap_page_def fit_caller_def)
qed

section \<open>The whole state\<close>

text \<open>The first \<open>n\<close> processes have \<open>mm_struct\<close>s of the set \<open>M\<close> (two may share one), which are all robust,
  and the running list names only these processes.  RAM and swap are devices 0 and 1, as in \<open>main\<close>;
  the kernel points to them once there is a process.\<close>

definition robust :: "nat \<Rightarrow> nat \<Rightarrow> nat \<Rightarrow> mm_ref set \<Rightarrow> os_t \<Rightarrow> bool" where
  "robust R W n M s \<longleftrightarrow>
     Suc 0 < length (devs s) \<and> ram_fits R (devs s ! 0) \<and> swap_fits W (devs s ! 1)
   \<and> (0 < n \<longrightarrow> k_mram s = Some 0 \<and> k_active_mswp s = Some 1 \<and> k_mm s \<noteq> None)
   \<and> (\<forall>m. k_mm s = Some m \<longrightarrow> m < length (mms s))
   \<and> (\<forall>m < length (mms s). length (symrgtbl (mms s ! m)) = 30)
   \<and> (\<forall>m \<in> M. m < length (mms s) \<and> robust_mm (mms s ! m))
   \<and> (\<forall>q < n. \<exists>m \<in> M. pcb_mm (pcbs s ! q) = Some m)
   \<and> (\<forall>q. Some q \<in> set (queue_items (running_list (sched s))) \<longrightarrow> q < n)"

lemma robust_kernel:
  assumes "robust R W n M s" and "p < n"
  shows "k_mram s = Some 0" and "k_active_mswp s = Some 1" and "ram_fits R (devs s ! 0)"
  using assms by (auto simp: robust_def)

lemma robust_own:
  assumes "robust R W n M s" and "p < n"
  obtains m where "pcb_mm (pcbs s ! p) = Some m" "m < length (mms s)" "proc_mm s p = Some (mms s ! m)" "robust_mm (mms s ! m)"
  using assms unfolding robust_def proc_mm_def by (metis option.simps(9) option.map(2))

lemma nth_upd: "j < length xs \<Longrightarrow> xs[i := x] ! j = (if i = j then x else xs ! j)"
  by simp

lemma robust_set_mm:
  assumes "robust R W n M s" and "robust_mm mm"
  shows "robust R W n M (set_proc_mm s p mm)"
  using assms symrgtbl_robust [OF assms(2)]
  by (fastforce simp: robust_def set_proc_mm_def nth_upd split: option.split)

lemma robust_devs:
  assumes "robust R W n M s" and "p < n" and "ram_fits R mp" and "swap_fits W sw"
  shows "robust R W n M (s\<lparr>devs := set_device (k_active_mswp s) sw (set_device (k_mram s) mp (devs s))\<rparr>)"
  using assms by (auto simp: robust_def set_device_def nth_list_update dest: Suc_lessD)

lemma robust_ram: "robust R W n M s \<Longrightarrow> ram_fits R mp \<Longrightarrow> robust R W n M (s\<lparr>devs := (devs s)[0 := mp]\<rparr>)"
  by (auto simp: robust_def nth_list_update dest: Suc_lessD)

lemma set_proc_mm_dev [simp]: "devs (set_proc_mm s p mm) = devs s" "k_mram (set_proc_mm s p mm) = k_mram s"
  "k_active_mswp (set_proc_mm s p mm) = k_active_mswp s"
  by (simp_all add: set_proc_mm_def split: option.split)

lemma robust_store:
  assumes "robust R W n M s" and "p < n" and "fit_caller R W c"
  shows "robust R W n M (store_caller s p c)"
proof -
  obtain mm where mm: "own_mm c = Some mm" "robust_mm mm" using assms(3) by (auto simp: fit_caller_def)
  have "robust R W n M (set_proc_mm s p mm)" by (rule robust_set_mm [OF assms(1) mm(2)])
  from robust_devs [OF this assms(2)] show ?thesis
    using mm assms(3) by (simp add: store_caller_def fit_caller_def Let_def)
qed

lemma robust_load: "robust R W n M s \<Longrightarrow> p < n \<Longrightarrow> fit_caller R W (load_caller s p)"
proof -
  assume s: "robust R W n M s" and p: "p < n"
  obtain mm where "proc_mm s p = Some mm" "robust_mm mm" using robust_own [OF s p] by metis
  moreover have "swap_fits W (devs s ! 1)" using s by (simp add: robust_def)
  ultimately show ?thesis using robust_kernel [OF s p] by (simp add: fit_caller_def device_def)
qed

lemma robust_on_proc:
  assumes "robust R W n M s" and "p < n"
    and "\<And>c. fit_caller R W c \<Longrightarrow> returns (\<lambda>(r, c). Q r \<and> fit_caller R W c) (f c)"
  shows "returns (\<lambda>(r, s). Q r \<and> robust R W n M s) (on_proc s p f)"
  unfolding on_proc_def
  by (rule returns_bind2 [OF assms(3) [OF robust_load [OF assms(1,2)]]]) (use robust_store [OF assms(1,2)] in simp)

lemma robust_on_proc':
  assumes "robust R W n M s" and "p < n" and "\<And>c. fit_caller R W c \<Longrightarrow> returns (\<lambda>(r, c). fit_caller R W c) (f c)"
  shows "returns (\<lambda>(r, s). robust R W n M s) (on_proc s p f)"
  using robust_on_proc [OF assms(1,2), of "\<lambda>_. True" f] assms(3) by simp

section \<open>System calls\<close>

text \<open>The system calls whose arguments cannot leave the devices.\<close>

definition call_fits :: "nat \<Rightarrow> nat \<Rightarrow> u32 \<Rightarrow> sc_regs \<Rightarrow> bool" where
  "call_fits R W nr regs \<longleftrightarrow> nr = 17 \<longrightarrow>
     (let memop = sint (ucast (a1 regs) :: i32) in
        (memop = SYSMEM_SWP_OP \<longrightarrow> unat (a2 regs) < 8192 \<and> unat (a3 regs) * 256 + 256 \<le> W)
      \<and> (memop \<in> {SYSMEM_IO_READ, SYSMEM_IO_WRITE} \<longrightarrow> unat (a2 regs) < R))"

lemma find_caller_running:
  "robust R W n M s \<Longrightarrow> find_caller s i = Some q \<Longrightarrow> q < n"
proof -
  assume s: "robust R W n M s" and "find_caller s i = Some q"
  then have "Some q \<in> set (queue_items (running_list (sched s)))"
    by (auto simp: find_caller_def find_Some_iff split: if_splits option.splits) (metis nth_mem)
  then show "q < n" using s by (simp add: robust_def)
qed

lemma robust_syscall:
  assumes "robust R W n M s" and "call_fits R W nr regs"
  shows "returns (\<lambda>(r, regs, s). robust R W n M s) (syscall s i nr regs)"
proof (cases "nr = 17 \<and> find_caller s i \<noteq> None")
  case False
  then show ?thesis using assms(1) by (auto simp: syscall_def sys_memmap_def)
next
  case True
  then obtain q where q: "find_caller s i = Some q" by auto
  note qn = find_caller_running [OF assms(1) q]
  note d = robust_kernel(1,3) [OF assms(1) qn]
  let ?op = "sint (ucast (a1 regs) :: i32)"
  have c: "returns (\<lambda>(r, regs, s). robust R W n M s) (bindR (on_proc s q f) (\<lambda>(_, s). Inr (0, regs, s)))"
    if "\<And>c. fit_caller R W c \<Longrightarrow> returns (\<lambda>(r, c). fit_caller R W c) (f c)" for f :: "caller \<Rightarrow> fault + int \<times> caller"
    by (rule returns_bind2 [OF robust_on_proc' [OF assms(1) qn that]]) simp_all
  have memset: "returns (\<lambda>(r, c). fit_caller R W c) (vmap_pgd_memset c x y)" if "fit_caller R W c" for c x y
    unfolding vmap_pgd_memset_def by (rule returns_bind [OF fit_memset_loop [OF that]]) simp
  have io: "unat (a2 regs) < length (storage (devs s ! 0))" if "?op \<in> {SYSMEM_IO_READ, SYSMEM_IO_WRITE}"
    using assms(2) True d(2) that unfolding call_fits_def ram_fits_def Let_def by auto
  have swp: "unat (a2 regs) < 8192 \<and> unat (a3 regs) * 256 + 256 \<le> W" if "?op = SYSMEM_SWP_OP"
    using assms(2) True that by (simp add: call_fits_def Let_def)
  have rd: "rdmflg (devs s ! 0) \<noteq> 0" using d(2) by (simp add: ram_fits_def)
  show ?thesis
    using True q d(1) assms(1) c [OF memset] c [OF fit_inc_vma] c [OF fit_swap_out] swp io
      robust_ram [OF assms(1)] fits_storage(1) d(2)
    by (auto simp: syscall_def sys_memmap_def Let_def MEMPHY_read_random [OF rd] MEMPHY_write_random [OF rd])
qed

section \<open>The library\<close>

lemma call_fits_ops [simp]:
  "call_fits R W 17 \<lparr>a1 = of_int SYSMEM_INC_OP, a2 = x, a3 = y\<rparr>"
  "call_fits R W 17 \<lparr>a1 = of_int SYSMEM_SWP_OP, a2 = x, a3 = y\<rparr> \<longleftrightarrow> unat x < 8192 \<and> unat y * 256 + 256 \<le> W"
  "call_fits R W 17 \<lparr>a1 = of_int SYSMEM_IO_READ, a2 = x, a3 = y\<rparr> \<longleftrightarrow> unat x < R"
  "call_fits R W 17 \<lparr>a1 = of_int SYSMEM_IO_WRITE, a2 = x, a3 = y\<rparr> \<longleftrightarrow> unat x < R"
  by (simp_all add: call_fits_def sysmem_ops)

lemma robust_deref: "robust R W n M s \<Longrightarrow> p < n \<Longrightarrow> returns robust_mm (deref (proc_mm s p))"
  by (auto elim: robust_own)

lemma unat_FPN: "unat (PAGING_FPN pte) < 8192"
  by (simp add: FPN_eq unat_take_bit)

text \<open>The steps of a library call, each with what follows it.\<close>

lemma on_proc_then:
  assumes "robust R W n M s" and "p < n" and "\<And>c. fit_caller R W c \<Longrightarrow> returns (\<lambda>(r, c). fit_caller R W c) (f c)"
    and "\<And>r s. robust R W n M s \<Longrightarrow> returns P (g (r, s))"
  shows "returns P (bindR (on_proc s p f) g)"
proof -
  have "returns (\<lambda>(r, s). robust R W n M s) (on_proc s p f)"
    by (rule robust_on_proc' [OF assms(1,2)]) (rule assms(3))
  then show ?thesis by (rule returns_bind2) (rule assms(4))
qed

lemma syscall_then:
  assumes "robust R W n M s" and "call_fits R W nr regs" and "\<And>r regs s. robust R W n M s \<Longrightarrow> returns P (g (r, regs, s))"
  shows "returns P (bindR (syscall s i nr regs) g)"
  using robust_syscall [OF assms(1,2)] by (rule returns_bind3) (rule assms(3))

lemma deref_then:
  assumes "robust R W n M s" and "p < n" and "\<And>mm. robust_mm mm \<Longrightarrow> returns P (g mm)"
  shows "returns P (bindR (deref (proc_mm s p)) g)"
  using robust_deref [OF assms(1,2)] by (rule returns_bind) (rule assms(3))

lemma get_entry_then:
  assumes "robust R W n M s" and "p < n" and "\<And>r s. entry_ok r \<Longrightarrow> robust R W n M s \<Longrightarrow> returns P (g (r, s))"
  shows "returns P (bindR (on_proc s p (\<lambda>c. pte_get_entry c q)) g)"
  by (rule returns_bind2 [OF robust_on_proc [OF assms(1,2) fit_get_entry]]) (use assms(3) in simp_all)

lemma swap_frame_then:
  assumes "robust R W n M s" and "p < n"
    and "\<And>s. robust R W n M s \<Longrightarrow> returns P (g (None, s))"
    and "\<And>f s. unat f * 256 + 256 \<le> W \<Longrightarrow> robust R W n M s \<Longrightarrow> returns P (g (Some f, s))"
  shows "returns P (bindR (on_proc s p (\<lambda>c. bindR (MEMPHY_get_freefp (active_mswp c)) (\<lambda>(f, swp).
      Inr (f, c\<lparr>active_mswp := swp\<rparr>)))) g)"
proof (rule returns_bind2 [OF robust_on_proc [OF assms(1,2) fit_swap_frame]])
  fix f s
  show "(case f of None \<Rightarrow> True | Some f \<Rightarrow> unat f * 256 + 256 \<le> W) \<and> robust R W n M s \<Longrightarrow> returns P (g (f, s))"
    using assms(3,4) by (cases f) simp_all
qed

lemmas call_steps = on_proc_then [OF _ _ fit_set_fpn] on_proc_then [OF _ _ fit_set_swap]
  get_entry_then swap_frame_then deref_then

text \<open>Bringing in a page.  The entry is 0, as that of every page that is not present.\<close>

lemma robust_page_in:
  assumes s: "robust R W n M s" and p: "p < n"
  shows "returns (\<lambda>(r, s). robust R W n M s) (page_in s p pgn 0)"
proof -
  obtain mm where mm: "proc_mm s p = Some mm" "robust_mm mm" using robust_own [OF s p] by metis
  have swap_out: "call_fits R W 17 \<lparr>a1 = of_int SYSMEM_SWP_OP, a2 = ucast (PAGING_FPN pte), a3 = f\<rparr>"
    if "unat f * 256 + 256 \<le> W" for pte f
    using that unat_FPN [of pte] by (simp add: unsigned_ucast_eq take_bit_nat_eq_self)
  show ?thesis
    unfolding page_in_def mm(1) Let_def
    using s p mm(2) swap_out
    by (auto simp: find_victim_page_def simp del: call_fits_ops
        intro!: call_steps syscall_then robust_set_mm)
qed


section \<open>Byte access\<close>

lemma robust_getpage:
  assumes s: "robust R W n M s" and p: "p < n"
  shows "returns (\<lambda>((r, f), s). (\<forall>x. f = Some x \<longrightarrow> unat x < 8192) \<and> robust R W n M s) (pg_getpage s p pgn)"
  unfolding pg_getpage_def
proof (rule get_entry_then [OF s p], simp only: prod.case, rule returns_bind2)
  fix pte s assume e: "entry_ok pte" and s: "robust R W n M s"
  show "returns (\<lambda>(r, s). robust R W n M s) (if PAGING_PAGE_PRESENT pte then Inr (0, s) else page_in s p (scast pgn) pte)"
    using robust_page_in [OF s p] e s by (auto simp: entry_ok_def)
next
  fix r :: int and s assume s: "robust R W n M s"
  show "returns (\<lambda>((r, f), s). (\<forall>x. f = Some x \<longrightarrow> unat x < 8192) \<and> robust R W n M s)
     (case (r, s) of (r, s) \<Rightarrow> if r = -1 then Inr ((-1, None), s)
       else bindR (on_proc s p (\<lambda>c. pte_get_entry c (scast pgn))) (\<lambda>(pte, s). Inr ((0, Some (PAGING_FPN pte)), s)))"
    using s p by (auto simp: unat_FPN intro!: get_entry_then)
qed

lemma unat_OFFST_less: "unat (PAGING_OFFST a) < 256"
  by (simp add: unat_OFFST)

lemma robust_access:
  assumes s: "robust R W n M s" and p: "p < n"
    and q: "\<And>f off s. unat f < 8192 \<Longrightarrow> unat off < 256 \<Longrightarrow> robust R W n M s \<Longrightarrow> unat (scast (phy_addr f off) :: u64) < R
      \<Longrightarrow> returns P (g f off s)" 
    and none: "\<And>s. robust R W n M s \<Longrightarrow> returns P (h s)"
  shows "returns P (bindR (pg_getpage s p (PAGING_PGN a)) (\<lambda>((r, frame), s).
       case frame of None \<Rightarrow> h s | Some f \<Rightarrow> g f (PAGING_OFFST a) s))"
proof (rule returns_bind [OF robust_getpage [OF s p]], clarsimp)
  fix r frame s
  assume f: "\<forall>x. frame = Some x \<longrightarrow> unat (x :: i32) < 8192" and s: "robust R W n M s"
  show "returns P (case frame of None \<Rightarrow> h s | Some f \<Rightarrow> g f (PAGING_OFFST a) s)"
  proof (cases frame)
    case (Some x)
    then have x: "unat x < 8192" using f by simp
    have "2 ^ 21 \<le> R" using s by (auto simp: robust_def ram_fits_def)
    then have "unat (scast (phy_addr x (PAGING_OFFST a)) :: u64) < R"
      using unat_phy_addr [OF x unat_OFFST_less [of a]] x unat_OFFST_less [of a] by simp
    then show ?thesis using Some q [OF x unat_OFFST_less s] by simp
  qed (simp add: none [OF s])
qed

lemma robust_getval: "robust R W n M s \<Longrightarrow> p < n \<Longrightarrow> returns (\<lambda>(r, s). robust R W n M s) (pg_getval s p a)"
  unfolding pg_getval_def by (rule robust_access) (auto simp del: call_fits_ops simp: call_fits_ops(3) intro!: syscall_then)

lemma robust_setval: "robust R W n M s \<Longrightarrow> p < n \<Longrightarrow> returns (\<lambda>(r, s). robust R W n M s) (pg_setval s p a v)"
  unfolding pg_setval_def by (rule robust_access) (auto simp del: call_fits_ops simp: call_fits_ops(4) intro!: syscall_then)

section \<open>Instructions\<close>

lemma print_then: "robust R W n M s \<Longrightarrow> p < n \<Longrightarrow> returns P m \<Longrightarrow> returns P (bindR (print_pgtbl s p) (\<lambda>_. m))"
  by (auto simp: print_pgtbl_def Let_def elim!: robust_own)

lemma symrg_slot:
  assumes "robust_mm mm" and "unat rgid \<noteq> 30" and "get_symrg_byid rgid = Some i"
  shows "i < length (symrgtbl mm)" and "i < 30"
proof -
  have "int i = sint rgid" "sint rgid \<le> 30"
    using assms(3) by (auto simp: get_symrg_byid_def PAGING_MAX_SYMTBL_SZ_def split: if_splits)
  moreover have "sint rgid \<noteq> 30"
  proof
    assume e: "sint rgid = 30"
    have "rgid = of_int (sint rgid)" by simp
    then have "rgid = 30" unfolding e by simp
    then show False using assms(2) by simp
  qed
  ultimately show "i < 30" by linarith
  then show "i < length (symrgtbl mm)" using symrgtbl_robust [OF assms(1)] by simp
qed

lemma set_symrg_robust:
  assumes "robust_mm mm" and "unat rgid < 30"
  shows "returns robust_mm (set_symrg mm rgid rg)"
proof -
  have "set_symrg mm rgid rg = Inr (mm\<lparr>symrgtbl := (symrgtbl mm)[unat rgid := rg]\<rparr>)"
    using symrgtbl_robust [OF assms(1)] assms(2) by (simp add: set_symrg_def sint_index res_simps)
  then show ?thesis using assms(1) by simp
qed

lemma enlist_robust: "robust_mm mm \<Longrightarrow> returns (\<lambda>(r, mm). robust_mm mm) (enlist_vm_freerg_list mm rg)"
  using robust_mmap [of mm "heap mm\<lparr>vm_freerg_list := rg # vm_freerg_list (heap mm)\<rparr>" 0]
  by (auto simp: enlist_vm_freerg_list_def heap_def robust_mm_def mm_ok_def)

lemma robust_alloc:
  assumes s: "robust R W n M s" and p: "p < n" and reg: "unat rgid < 30"
  shows "returns (\<lambda>(r, s). robust R W n M s) (lib_alloc s p vmaid rgid sz)"
proof -
  obtain mm where mm: "proc_mm s p = Some mm" "robust_mm mm" using robust_own [OF s p] by metis
  note fit = robust_load [OF s p]
  show ?thesis
  proof (cases "get_vma_by_num (Some mm) vmaid")
    case (Some k)
    obtain g c where g: "get_free_vmrg_area (load_caller s p) vmaid (ucast sz) = (g, c)" by (cases "get_free_vmrg_area (load_caller s p) vmaid (ucast sz)")
    have c: "fit_caller R W c" by (rule fit_free_area [OF fit g])
    then obtain mm' where mm': "own_mm c = Some mm'" "robust_mm mm'" by (auto simp: fit_caller_def)
    show ?thesis
    proof (cases g)
      case g: (Some r)
      show ?thesis using set_symrg_robust [OF mm'(2) reg, of r] robust_store [OF s p fit_caller_mm [OF c]]
        by (auto simp: lib_alloc_def mm(1) Some \<open>get_free_vmrg_area _ _ _ = _\<close> g mm'(1) intro!: returns_bind)
    next
      case None
      have tail: "returns robust_mm (if b then bindR (enlist_vm_freerg_list mm rg) (\<lambda>(_, mm). Inr mm) else Inr mm)"
        if "robust_mm mm" for b mm rg
        using that by (auto intro!: returns_bind2 [OF enlist_robust [OF that]])
      show ?thesis
        unfolding lib_alloc_def
        using robust_store [OF s p c] p
        by (auto simp: mm(1) Some g None Let_def simp del: call_fits_ops simp: call_fits_ops(1)
          intro!: syscall_then deref_then robust_set_mm returns_bind [OF set_symrg_robust [OF _ reg]] returns_bind [OF tail])
    qed
  qed (simp add: lib_alloc_def mm(1) s)
qed

lemma robust_liballoc:
  "robust R W n M s \<Longrightarrow> p < n \<Longrightarrow> unat reg < 30 \<Longrightarrow> returns (\<lambda>(r, s). robust R W n M s) (liballoc s p sz reg)"
  unfolding liballoc_def
  by (rule returns_bind [OF robust_alloc]) (auto intro!: print_then)

lemma robust_libfree:
  assumes s: "robust R W n M s" and p: "p < n" and reg: "unat reg \<noteq> 30"
  shows "returns (\<lambda>(r, s). robust R W n M s) (libfree s p reg)"
proof -
  obtain mm where mm: "proc_mm s p = Some mm" "robust_mm mm" using robust_own [OF s p] by metis
  have "returns (\<lambda>(r, s). robust R W n M s) (lib_free s p 0 reg)"
  proof (cases "get_symrg_byid reg")
    case None
    then show ?thesis using s by (auto simp: lib_free_def get_symrg_byid_def split: if_splits)
  next
    case (Some i)
    note i = symrg_slot [OF mm(2) reg Some]
    have "robust_mm (mm\<lparr>symrgtbl := (symrgtbl mm)[i := init_vm_rg 0 0]\<rparr>)" using mm(2) by simp
    note enlist = returns_bind2 [OF enlist_robust [OF this]]
    show ?thesis using s i(1) mm(1) Some robust_set_mm [OF s]
      by (auto simp: lib_free_def get_at_def intro!: enlist)
  qed
  then show ?thesis unfolding libfree_def
    by (rule returns_bind2) (use p in \<open>auto intro!: print_then\<close>)
qed

lemma robust_libwrite:
  assumes s: "robust R W n M s" and p: "p < n" and reg: "unat reg \<noteq> 30"
  shows "returns (\<lambda>(r, s). robust R W n M s) (libwrite s p v reg off)"
proof -
  obtain mm where mm: "proc_mm s p = Some mm" "robust_mm mm" using robust_own [OF s p] by metis
  have "returns (\<lambda>(r, s). robust R W n M s) (lib_write s p 0 reg off v)"
    using s mm(1) symrg_slot(1) [OF mm(2) reg]
    by (auto simp: lib_write_def get_at_def split: option.split intro!: returns_bind2 [OF robust_setval [OF s p]])
  then show ?thesis unfolding libwrite_def
    by (rule returns_bind2) (use p in \<open>auto intro!: print_then\<close>)
qed

lemma robust_libread:
  assumes s: "robust R W n M s" and p: "p < n" and reg: "unat reg \<noteq> 30"
  shows "returns (\<lambda>(r, s). robust R W n M s) (libread data0 s p reg off)"
proof -
  obtain mm where mm: "proc_mm s p = Some mm" "robust_mm mm" using robust_own [OF s p] by metis
  obtain k where k: "k_mm s = Some k" "length (symrgtbl (mms s ! k)) = 30" using s p by (auto simp: robust_def)
  have "returns (\<lambda>(r, s). robust R W n M s) (lib_read s p 0 reg off)"
    using s mm(1) k symrg_slot(2) [OF mm(2) reg]
    by (auto simp: lib_read_def get_at_def split: option.split intro!: returns_bind2 [OF robust_getval [OF s p]])
  then show ?thesis unfolding libread_def
    by (rule returns_bind2) (use p in \<open>auto intro!: print_then\<close>)
qed

text \<open>An instruction is safe when its register is in range and, for a system call, when its
  arguments stay inside the devices.  Nothing is asked of sizes and addresses.\<close>

definition safe_inst :: "nat \<Rightarrow> nat \<Rightarrow> inst_t \<Rightarrow> bool" where
  "safe_inst R W i =
     (case opcode i of
        ALLOC \<Rightarrow> unat (ucast (arg_1 i) :: u32) < 30
      | FREE \<Rightarrow> unat (ucast (arg_0 i) :: u32) \<noteq> 30
      | READ \<Rightarrow> unat (ucast (arg_0 i) :: u32) \<noteq> 30
      | WRITE \<Rightarrow> unat (ucast (arg_1 i) :: u32) \<noteq> 30
      | SYSCALL \<Rightarrow> call_fits R W (ucast (arg_0 i)) \<lparr>a1 = arg_1 i, a2 = arg_2 i, a3 = arg_3 i\<rparr>
      | _ \<Rightarrow> True)"

lemma robust_exec:
  assumes s: "robust R W n M s" and p: "p < n" and i: "safe_inst R W i"
  shows "returns (\<lambda>(r, s). robust R W n M s) (exec_inst data0 s p i)"
proof (cases "opcode i")
  case READ
  then show ?thesis using i robust_libread [OF s p] by (auto simp: exec_inst_def safe_inst_def intro!: returns_bind)
next
  case SYSCALL
  then show ?thesis using i s
    by (auto simp: exec_inst_def safe_inst_def libsyscall_def intro!: syscall_then)
qed (use i s in \<open>simp_all add: exec_inst_def safe_inst_def calc_def libkmem_malloc_def libkmem_cache_pool_create_def
   libkmem_cache_alloc_def libkmem_copy_from_user_def libkmem_copy_to_user_def
   robust_liballoc [OF s p] robust_libfree [OF s p] robust_libwrite [OF s p]\<close>)

lemma robust_pcbs: "robust R W n M s \<Longrightarrow> (\<And>q. pcb_mm (ps ! q) = pcb_mm (pcbs s ! q)) \<Longrightarrow> robust R W n M (s\<lparr>pcbs := ps\<rparr>)"
  by (simp add: robust_def)

lemma robust_run:
  assumes s: "robust R W n M s" and p: "p < n" and len: "length (code_text (code (pcbs s ! p))) = unat (code_size (code (pcbs s ! p)))"
    and i: "\<forall>i \<in> set (code_text (code (pcbs s ! p))). safe_inst R W i"
  shows "returns (\<lambda>(r, s). robust R W n M s) (run data0 s p)"
proof (cases "code_size (code (pcbs s ! p)) \<le> pc (pcbs s ! p)")
  case False
  let ?pr = "pcbs s ! p"
  have k: "unat (pc ?pr) < length (code_text (code ?pr))" using False len by (simp add: word_le_nat_alt)
  have "robust R W n M (s\<lparr>pcbs := (pcbs s)[p := ?pr\<lparr>pc := pc ?pr + 1\<rparr>]\<rparr>)"
  proof (rule robust_pcbs [OF s])
    show "pcb_mm ((pcbs s)[p := ?pr\<lparr>pc := pc ?pr + 1\<rparr>] ! q) = pcb_mm (pcbs s ! q)" for q
      by (cases "p < length (pcbs s)") (simp_all add: nth_list_update list_update_beyond)
  qed
  from robust_exec [OF this p] i k show ?thesis
    using False by (simp add: run_def Let_def fetch_def get_at_def)
qed (simp add: run_def s)

end
