(* ===== verification/OS_Timer.thy ===== *)
theory OS_Timer
  imports OS_Prelude
begin

text \<open>
  The timer of \<open>timer.c\<close>: a barrier between the device threads (CPUs and loader) and the timer
  thread.  A state holds the flags of every device, the time, where the timer thread is in its
  loop, and where every device thread is: inside a slot, inside \<open>next_slot\<close>, or detached.  Every
  section of code under one mutex is one step; \<open>tstep\<close> interleaves them.  A wait on a condition
  variable is a step that is enabled only when its loop condition has become false, so lost and
  spurious wake-ups are covered.  \<open>slots\<close> counts how often \<open>next_slot\<close> has returned; the code does
  not have it.
\<close>

section \<open>State\<close>

datatype dev_phase = In_slot | In_next | Gone

record timer_dev =
  dev_done :: bool
  dev_fsh :: bool
  dev_phase :: dev_phase
  slots :: u64

datatype timer_phase = T_top | T_wait nat nat nat | T_release nat nat nat | T_exit

record timer_t =
  dev_list :: "timer_dev list"
  time_now :: u64
  timer_started :: bool
  timer_stop :: bool
  t_phase :: timer_phase

definition timer_init :: timer_t where
  "timer_init = \<lparr>dev_list = [], time_now = 0, timer_started = False, timer_stop = False, t_phase = T_top\<rparr>"

section \<open>Calls\<close>

text \<open>\<open>attach_event\<close> is refused (\<open>NULL\<close>) once the timer runs; a new device goes to the head of
  the list.  The result says whether an id was returned.\<close>

definition attach_event :: "timer_t \<Rightarrow> bool \<times> timer_t" where
  "attach_event t =
     (if timer_started t then (False, t)
      else (True, t\<lparr>dev_list :=
        \<lparr>dev_done = False, dev_fsh = False, dev_phase = In_slot, slots = 0\<rparr> # dev_list t\<rparr>))"

definition start_timer :: "timer_t \<Rightarrow> timer_t" where
  "start_timer t = t\<lparr>timer_started := True\<rparr>"

definition current_time :: "timer_t \<Rightarrow> u64" where
  "current_time t = time_now t"

definition set_dev :: "timer_t \<Rightarrow> nat \<Rightarrow> timer_dev \<Rightarrow> timer_t" where
  "set_dev t i d = t\<lparr>dev_list := (dev_list t)[i := d]\<rparr>"

text \<open>The two halves of \<open>next_slot\<close>: announcing that the slot is done, and leaving the wait.\<close>

definition next_slot_enter :: "timer_t \<Rightarrow> nat \<Rightarrow> timer_t option" where
  "next_slot_enter t i =
     (if i < length (dev_list t) \<and> dev_phase (dev_list t ! i) = In_slot
      then Some (set_dev t i ((dev_list t ! i)\<lparr>dev_done := True, dev_phase := In_next\<rparr>)) else None)"

definition next_slot_leave :: "timer_t \<Rightarrow> nat \<Rightarrow> timer_t option" where
  "next_slot_leave t i =
     (if i < length (dev_list t) \<and> dev_phase (dev_list t ! i) = In_next \<and> \<not> dev_done (dev_list t ! i)
      then Some (set_dev t i ((dev_list t ! i)\<lparr>dev_phase := In_slot, slots := slots (dev_list t ! i) + 1\<rparr>))
      else None)"

definition detach_event :: "timer_t \<Rightarrow> nat \<Rightarrow> timer_t option" where
  "detach_event t i =
     (if i < length (dev_list t) \<and> dev_phase (dev_list t ! i) = In_slot
      then Some (set_dev t i ((dev_list t ! i)\<lparr>dev_fsh := True, dev_phase := Gone\<rparr>)) else None)"

text \<open>The timer thread: the test at the top of the loop, one device of the waiting loop (or, when
  the list is through, the new time), one device of the releasing loop (or the test whether
  all devices had finished).\<close>

definition timer_top :: "timer_t \<Rightarrow> timer_t option" where
  "timer_top t =
     (if timer_started t \<and> t_phase t = T_top
      then Some (t\<lparr>t_phase := if timer_stop t then T_exit else T_wait 0 0 0\<rparr>) else None)"

definition timer_wait :: "timer_t \<Rightarrow> timer_t option" where
  "timer_wait t =
     (case t_phase t of
        T_wait i fsh event \<Rightarrow>
          if i < length (dev_list t)
          then if dev_done (dev_list t ! i) \<or> dev_fsh (dev_list t ! i)
               then Some (t\<lparr>t_phase := T_wait (Suc i)
                       (if dev_fsh (dev_list t ! i) then Suc fsh else fsh) (Suc event)\<rparr>)
               else None
          else Some (t\<lparr>time_now := time_now t + 1, t_phase := T_release 0 fsh event\<rparr>)
      | _ \<Rightarrow> None)"

definition timer_release :: "timer_t \<Rightarrow> timer_t option" where
  "timer_release t =
     (case t_phase t of
        T_release i fsh event \<Rightarrow>
          if i < length (dev_list t)
          then Some ((set_dev t i ((dev_list t ! i)\<lparr>dev_done := False\<rparr>))\<lparr>t_phase := T_release (Suc i) fsh event\<rparr>)
          else Some (t\<lparr>t_phase := if fsh = event then T_exit else T_top\<rparr>)
      | _ \<Rightarrow> None)"

text \<open>The timer thread as a whole: one step of \<open>timer_routine\<close>, and \<open>k\<close> of them in a row.\<close>

definition timer_routine :: "timer_t \<Rightarrow> timer_t option" where
  "timer_routine t = (case t_phase t of T_top \<Rightarrow> timer_top t | T_wait i f e \<Rightarrow> timer_wait t
     | T_release i f e \<Rightarrow> timer_release t | T_exit \<Rightarrow> None)"

fun timer_run :: "nat \<Rightarrow> timer_t \<Rightarrow> timer_t option" where
  "timer_run 0 t = Some t"
| "timer_run (Suc k) t = (case timer_routine t of None \<Rightarrow> None | Some t' \<Rightarrow> timer_run k t')"

text \<open>\<open>main\<close> stops the timer after it has joined all device threads.\<close>

definition stop_timer :: "timer_t \<Rightarrow> timer_t option" where
  "stop_timer t =
     (if list_all (\<lambda>d. dev_phase d = Gone) (dev_list t) then Some (t\<lparr>timer_stop := True\<rparr>) else None)"

section \<open>Interleavings\<close>

inductive tstep :: "timer_t \<Rightarrow> timer_t \<Rightarrow> bool" where
  enter: "next_slot_enter t i = Some t' \<Longrightarrow> tstep t t'"
| leave: "next_slot_leave t i = Some t' \<Longrightarrow> tstep t t'"
| detach: "detach_event t i = Some t' \<Longrightarrow> tstep t t'"
| timer: "timer_routine t = Some t' \<Longrightarrow> tstep t t'"
| stop: "stop_timer t = Some t' \<Longrightarrow> tstep t t'"

inductive_cases tstepE: "tstep t t'"

text \<open>The states after \<open>n\<close> devices were attached and the timer was started.\<close>

definition started :: "nat \<Rightarrow> timer_t" where
  "started n = start_timer (((\<lambda>t. snd (attach_event t)) ^^ n) timer_init)"

inductive treach :: "nat \<Rightarrow> timer_t \<Rightarrow> bool" for n where
  init: "treach n (started n)"
| step: "treach n t \<Longrightarrow> tstep t t' \<Longrightarrow> treach n t'"

section \<open>The invariant\<close>

definition live :: "timer_dev \<Rightarrow> bool" where
  "live d \<longleftrightarrow> dev_phase d \<noteq> Gone"

text \<open>A device that the releasing loop has still to reach has finished the last slot; any other
  live device is in the current slot, has finished it, or is released and about to wake up.\<close>

definition unreleased :: "timer_phase \<Rightarrow> nat \<Rightarrow> bool" where
  "unreleased ph i \<longleftrightarrow> (case ph of T_release j f e \<Rightarrow> j \<le> i | _ \<Rightarrow> False)"

definition dev_ok :: "u64 \<Rightarrow> bool \<Rightarrow> timer_dev \<Rightarrow> bool" where
  "dev_ok now unrel d \<longleftrightarrow> (dev_fsh d \<longleftrightarrow> dev_phase d = Gone) \<and>
     (case dev_phase d of
        Gone \<Rightarrow> True
      | In_slot \<Rightarrow> \<not> unrel \<and> \<not> dev_done d \<and> slots d = now
      | In_next \<Rightarrow> if unrel then dev_done d \<and> slots d = now - 1
                   else slots d = (if dev_done d then now else now - 1))"

definition phase_ok :: "timer_t \<Rightarrow> bool" where
  "phase_ok t \<longleftrightarrow>
     (case t_phase t of
        T_top \<Rightarrow> True
      | T_wait i f e \<Rightarrow> i \<le> length (dev_list t) \<and> e = i \<and> f \<le> e
          \<and> (\<forall>j<i. dev_done (dev_list t ! j) \<or> dev_fsh (dev_list t ! j))
          \<and> (f = e \<longrightarrow> (\<forall>j<i. dev_fsh (dev_list t ! j)))
      | T_release i f e \<Rightarrow> i \<le> length (dev_list t) \<and> e = length (dev_list t)
          \<and> (f = e \<longrightarrow> (\<forall>j<length (dev_list t). dev_fsh (dev_list t ! j)))
      | T_exit \<Rightarrow> \<forall>d \<in> set (dev_list t). dev_phase d = Gone)
   \<and> (timer_stop t \<longrightarrow> (\<forall>d \<in> set (dev_list t). dev_phase d = Gone))"

definition barrier_ok :: "timer_t \<Rightarrow> bool" where
  "barrier_ok t \<longleftrightarrow> timer_started t \<and> phase_ok t
     \<and> (\<forall>i < length (dev_list t). dev_ok (time_now t) (unreleased (t_phase t) i) (dev_list t ! i))"

lemma barrier_ok_dev:
  "barrier_ok t \<Longrightarrow> i < length (dev_list t) \<Longrightarrow> dev_ok (time_now t) (unreleased (t_phase t) i) (dev_list t ! i)"
  by (simp add: barrier_ok_def)

lemma set_dev_simps [simp]:
  "length (dev_list (set_dev t i d)) = length (dev_list t)" "time_now (set_dev t i d) = time_now t"
  "t_phase (set_dev t i d) = t_phase t" "timer_stop (set_dev t i d) = timer_stop t"
  "timer_started (set_dev t i d) = timer_started t" "dev_list (set_dev t i d) = (dev_list t)[i := d]"
  by (simp_all add: set_dev_def)

lemma started_devs:
  "dev_list (started n) = replicate n \<lparr>dev_done = False, dev_fsh = False, dev_phase = In_slot, slots = 0\<rparr>"
  "t_phase (started n) = T_top" "timer_started (started n)" "\<not> timer_stop (started n)" "time_now (started n) = 0"
proof -
  have "((\<lambda>t. snd (attach_event t)) ^^ n) timer_init = timer_init\<lparr>dev_list :=
      replicate n \<lparr>dev_done = False, dev_fsh = False, dev_phase = In_slot, slots = 0\<rparr>\<rparr>"
    by (induction n) (simp_all add: attach_event_def timer_init_def)
  then show "dev_list (started n) = replicate n \<lparr>dev_done = False, dev_fsh = False, dev_phase = In_slot, slots = 0\<rparr>"
    "t_phase (started n) = T_top" "timer_started (started n)" "\<not> timer_stop (started n)" "time_now (started n) = 0"
    by (simp_all add: started_def start_timer_def timer_init_def)
qed

lemma barrier_ok_started: "barrier_ok (started n)"
  by (simp add: barrier_ok_def phase_ok_def started_devs unreleased_def dev_ok_def)

text \<open>A step of a device changes that device only; it keeps what the timer thread knows about the
  devices it has passed.\<close>

lemma barrier_ok_set_dev:
  assumes ok: "barrier_ok t" and i: "i < length (dev_list t)"
    and d: "dev_ok (time_now t) (unreleased (t_phase t) i) d"
    and mono: "dev_done (dev_list t ! i) \<and> \<not> unreleased (t_phase t) i \<Longrightarrow> dev_done d"
      "dev_fsh (dev_list t ! i) \<Longrightarrow> d = dev_list t ! i"
  shows "barrier_ok (set_dev t i d)"
proof -
  have gone: "\<forall>e \<in> set (dev_list t). dev_phase e = Gone \<Longrightarrow> \<forall>e \<in> set ((dev_list t)[i := d]). dev_phase e = Gone"
  proof -
    assume a: "\<forall>e \<in> set (dev_list t). dev_phase e = Gone"
    then have "dev_fsh (dev_list t ! i)" using barrier_ok_dev [OF ok i] i by (simp add: dev_ok_def)
    then show ?thesis using a mono(2) by (simp add: list_update_id)
  qed
  have upd: "P ((dev_list t)[i := d] ! k)" if "P (dev_list t ! k)" "k = i \<Longrightarrow> P (dev_list t ! i) \<Longrightarrow> P d" for P k
    using that i by (cases "k = i") simp_all
  have finished: "dev_done ((dev_list t)[i := d] ! k) \<or> dev_fsh ((dev_list t)[i := d] ! k)"
    if "dev_done (dev_list t ! k) \<or> dev_fsh (dev_list t ! k)" "\<not> unreleased (t_phase t) k" for k
    using that mono i by (cases "k = i") auto
  have fsh: "dev_fsh ((dev_list t)[i := d] ! k)" if "dev_fsh (dev_list t ! k)" for k
    using that mono(2) i by (cases "k = i") auto
  have "phase_ok (set_dev t i d)"
  proof (cases "t_phase t")
    case (T_wait j f e)
    then show ?thesis using ok gone finished fsh unfolding barrier_ok_def phase_ok_def
      by (simp add: unreleased_def)
  qed (use ok gone fsh in \<open>simp_all add: barrier_ok_def phase_ok_def\<close>)
  moreover have "dev_ok (time_now t) (unreleased (t_phase t) k) ((dev_list t)[i := d] ! k)"
    if "k < length (dev_list t)" for k
    using that d i barrier_ok_dev [OF ok that] by (cases "k = i") simp_all
  ultimately show ?thesis using ok by (simp add: barrier_ok_def)
qed

lemma barrier_ok_device_step:
  assumes ok: "barrier_ok t"
    and s: "next_slot_enter t i = Some t' \<or> next_slot_leave t i = Some t' \<or> detach_event t i = Some t'"
  shows "barrier_ok t'"
proof -
  have i: "i < length (dev_list t)"
    using s by (auto simp: next_slot_enter_def next_slot_leave_def detach_event_def split: if_splits)
  note d = barrier_ok_dev [OF ok i]
  from s d show ?thesis
    by (auto simp: next_slot_enter_def next_slot_leave_def detach_event_def dev_ok_def split: if_splits
        intro!: barrier_ok_set_dev [OF ok i])
qed

lemma barrier_ok_top: "barrier_ok t \<Longrightarrow> timer_top t = Some t' \<Longrightarrow> barrier_ok t'"
  by (auto simp: timer_top_def barrier_ok_def phase_ok_def unreleased_def split: if_splits)

lemma barrier_ok_stop: "barrier_ok t \<Longrightarrow> stop_timer t = Some t' \<Longrightarrow> barrier_ok t'"
  by (auto simp: stop_timer_def barrier_ok_def phase_ok_def list_all_iff split: if_splits timer_phase.splits)

text \<open>The waiting loop has seen every device finished or detached when the time moves on.\<close>

lemma wait_through:
  assumes ok: "barrier_ok t" and p: "t_phase t = T_wait k f e" "\<not> k < length (dev_list t)"
    and j: "j < length (dev_list t)"
  shows "dev_phase (dev_list t ! j) = Gone
       \<or> dev_phase (dev_list t ! j) = In_next \<and> dev_done (dev_list t ! j) \<and> slots (dev_list t ! j) = time_now t"
proof -
  have "dev_done (dev_list t ! j) \<or> dev_fsh (dev_list t ! j)"
    using ok p j by (auto simp: barrier_ok_def phase_ok_def)
  then show ?thesis using barrier_ok_dev [OF ok j] p
    by (cases "dev_phase (dev_list t ! j)") (auto simp: dev_ok_def unreleased_def)
qed

lemma barrier_ok_wait:
  assumes ok: "barrier_ok t" and s: "timer_wait t = Some t'"
  shows "barrier_ok t'"
proof -
  obtain k f e where p: "t_phase t = T_wait k f e"
    using s by (auto simp: timer_wait_def split: timer_phase.splits)
  have ph: "k \<le> length (dev_list t)" "e = k" "f \<le> k" "\<forall>j<k. dev_done (dev_list t ! j) \<or> dev_fsh (dev_list t ! j)"
    "f = k \<longrightarrow> (\<forall>j<k. dev_fsh (dev_list t ! j))"
    using ok p by (auto simp: barrier_ok_def phase_ok_def)
  show ?thesis
  proof (cases "k < length (dev_list t)")
    case True
    then show ?thesis using ok s p ph
      by (auto simp: timer_wait_def barrier_ok_def phase_ok_def unreleased_def less_Suc_eq split: if_splits)
  next
    case False
    have "dev_ok (time_now t + 1) True (dev_list t ! j)" if j: "j < length (dev_list t)" for j
      using wait_through [OF ok p False j] barrier_ok_dev [OF ok j]
      by (auto simp: dev_ok_def)
    then show ?thesis using ok s p ph False
      by (auto simp: timer_wait_def barrier_ok_def phase_ok_def unreleased_def)
  qed
qed

lemma barrier_ok_release:
  assumes ok: "barrier_ok t" and s: "timer_release t = Some t'"
  shows "barrier_ok t'"
proof -
  obtain k f e where p: "t_phase t = T_release k f e"
    using s by (auto simp: timer_release_def split: timer_phase.splits)
  have fsh: "dev_phase (dev_list t ! j) = Gone" if "dev_fsh (dev_list t ! j)" "j < length (dev_list t)" for j
    using that barrier_ok_dev [OF ok that(2)] by (simp add: dev_ok_def)
  show ?thesis
  proof (cases "k < length (dev_list t)")
    case True
    let ?d = "(dev_list t ! k)\<lparr>dev_done := False\<rparr>"
    have t': "t' = (set_dev t k ?d)\<lparr>t_phase := T_release (Suc k) f e\<rparr>"
      using s p True by (simp add: timer_release_def)
    have dk: "dev_ok (time_now t) False ?d"
      using barrier_ok_dev [OF ok True] p
      by (cases "dev_phase (dev_list t ! k)") (auto simp: dev_ok_def unreleased_def)
    have "dev_ok (time_now t) (Suc k \<le> j) ((dev_list t)[k := ?d] ! j)" if "j < length (dev_list t)" for j
      using barrier_ok_dev [OF ok that] p dk True that
      by (cases "j = k") (simp_all add: unreleased_def Suc_le_eq order_less_le)
    moreover have "dev_fsh ((dev_list t)[k := ?d] ! j) = dev_fsh (dev_list t ! j)" for j
      using True by (cases "j = k") simp_all
    then have "f = e \<longrightarrow> (\<forall>j<length (dev_list t). dev_fsh ((dev_list t)[k := ?d] ! j))"
      using ok p by (auto simp: barrier_ok_def phase_ok_def)
    moreover have "timer_stop t \<longrightarrow> (\<forall>d \<in> set ((dev_list t)[k := ?d]). dev_phase d = Gone)"
      using ok True by (auto simp: barrier_ok_def phase_ok_def dest: set_update_subset_insert [THEN subsetD])
    ultimately show ?thesis using ok p True
      by (simp add: t' barrier_ok_def phase_ok_def unreleased_def)
  next
    case False
    then have "t_phase t' = T_exit \<Longrightarrow> \<forall>d \<in> set (dev_list t). dev_phase d = Gone"
      using ok s p fsh by (auto simp: timer_release_def barrier_ok_def phase_ok_def all_set_conv_all_nth split: if_splits)
    then show ?thesis using ok s p False
      by (auto simp: timer_release_def barrier_ok_def phase_ok_def unreleased_def)
  qed
qed

lemma barrier_ok_timer: "barrier_ok t \<Longrightarrow> timer_routine t = Some t' \<Longrightarrow> barrier_ok t'"
  by (auto simp: timer_routine_def split: timer_phase.splits
      intro: barrier_ok_top barrier_ok_wait barrier_ok_release)

lemma barrier_ok_step: "tstep t t' \<Longrightarrow> barrier_ok t \<Longrightarrow> barrier_ok t'"
  by (erule tstepE) (auto intro: barrier_ok_device_step barrier_ok_stop barrier_ok_timer)

lemma barrier_ok_treach: "treach n t \<Longrightarrow> barrier_ok t"
  by (induction rule: treach.induct) (auto intro: barrier_ok_started barrier_ok_step)

lemma tstep_devices: "tstep t t' \<Longrightarrow> length (dev_list t') = length (dev_list t)"
  by (erule tstepE)
    (auto simp: next_slot_enter_def next_slot_leave_def detach_event_def timer_routine_def timer_top_def
      timer_wait_def timer_release_def stop_timer_def split: if_splits timer_phase.splits)

lemma treach_devices: "treach n t \<Longrightarrow> length (dev_list t) = n"
  by (induction rule: treach.induct) (simp_all add: started_devs tstep_devices)

section \<open>One round of the timer thread\<close>

lemma timer_run_add:
  "timer_run j t = Some u \<Longrightarrow> timer_run k u = r \<Longrightarrow> timer_run (j + k) t = r"
  by (induction j arbitrary: t) (auto split: option.splits)

lemma timer_run_wait:
  assumes "t_phase t = T_wait i f e" "i + k = length (dev_list t)"
    and "\<And>j. j < length (dev_list t) \<Longrightarrow> dev_done (dev_list t ! j) \<or> dev_fsh (dev_list t ! j)"
  shows "\<exists>f' e'. timer_run (Suc k) t = Some (t\<lparr>time_now := time_now t + 1, t_phase := T_release 0 f' e'\<rparr>)"
  using assms
proof (induction k arbitrary: t i f e)
  case 0
  then show ?case by (simp add: timer_routine_def timer_wait_def) blast
next
  case (Suc k)
  let ?t = "t\<lparr>t_phase := T_wait (Suc i) (if dev_fsh (dev_list t ! i) then Suc f else f) (Suc e)\<rparr>"
  have "timer_routine t = Some ?t"
    using Suc.prems by (simp add: timer_routine_def timer_wait_def)
  moreover from Suc.IH [of ?t "Suc i"] Suc.prems
  have "\<exists>f' e'. timer_run (Suc k) ?t = Some (?t\<lparr>time_now := time_now ?t + 1, t_phase := T_release 0 f' e'\<rparr>)"
    by simp
  ultimately show ?case by (simp del: timer_run.simps(2) add: timer_run.simps(2) [of "Suc k"])
qed

definition clear_from :: "nat \<Rightarrow> timer_dev list \<Rightarrow> timer_dev list" where
  "clear_from i ds = take i ds @ map (dev_done_update (\<lambda>_. False)) (drop i ds)"

lemma clear_from_step:
  "i < length ds \<Longrightarrow> clear_from (Suc i) (ds[i := (ds ! i)\<lparr>dev_done := False\<rparr>]) = clear_from i ds"
  by (simp add: clear_from_def take_Suc_conv_app_nth drop_update_cancel flip: Cons_nth_drop_Suc)

lemma timer_run_release:
  assumes "t_phase t = T_release i f e" "i + k = length (dev_list t)"
  shows "timer_run (Suc k) t = Some (t\<lparr>dev_list := clear_from i (dev_list t),
                                      t_phase := if f = e then T_exit else T_top\<rparr>)"
  using assms
proof (induction k arbitrary: t i)
  case 0
  then show ?case by (simp add: timer_routine_def timer_release_def clear_from_def)
next
  case (Suc k)
  let ?t = "(set_dev t i ((dev_list t ! i)\<lparr>dev_done := False\<rparr>))\<lparr>t_phase := T_release (Suc i) f e\<rparr>"
  have "timer_routine t = Some ?t"
    using Suc.prems by (simp add: timer_routine_def timer_release_def)
  moreover from Suc.IH [of ?t "Suc i"] Suc.prems
  have "timer_run (Suc k) ?t = Some (t\<lparr>dev_list := clear_from i (dev_list t),
                                      t_phase := if f = e then T_exit else T_top\<rparr>)"
    by (simp add: clear_from_step set_dev_def del: timer_run.simps)
  ultimately show ?case by (simp del: timer_run.simps(2) add: timer_run.simps(2) [of "Suc k"])
qed

lemma timer_run_reach: "timer_run k t = Some t' \<Longrightarrow> barrier_ok t \<Longrightarrow> barrier_ok t'"
  by (induction k arbitrary: t) (auto split: option.splits intro: barrier_ok_timer)

lemma timer_run_round:
  assumes ok: "barrier_ok t" and p: "t_phase t = T_top" and st: "\<not> timer_stop t"
    and fin: "\<And>j. j < length (dev_list t) \<Longrightarrow> dev_done (dev_list t ! j) \<or> dev_fsh (dev_list t ! j)"
  shows "\<exists>ph. timer_run (2 * length (dev_list t) + 3) t
    = Some (t\<lparr>dev_list := clear_from 0 (dev_list t), time_now := time_now t + 1, t_phase := ph\<rparr>)
      \<and> (ph = T_top \<or> ph = T_exit)"
proof -
  let ?n = "length (dev_list t)"
  have 1: "timer_run 1 t = Some (t\<lparr>t_phase := T_wait 0 0 0\<rparr>)"
    using ok p st by (simp add: timer_routine_def timer_top_def barrier_ok_def)
  obtain f e where 2: "timer_run (Suc ?n) (t\<lparr>t_phase := T_wait 0 0 0\<rparr>)
      = Some (t\<lparr>time_now := time_now t + 1, t_phase := T_release 0 f e\<rparr>)"
    using timer_run_wait [of "t\<lparr>t_phase := T_wait 0 0 0\<rparr>" 0 0 0 ?n] fin by auto
  have 3: "timer_run (Suc ?n) (t\<lparr>time_now := time_now t + 1, t_phase := T_release 0 f e\<rparr>)
      = Some (t\<lparr>dev_list := clear_from 0 (dev_list t), time_now := time_now t + 1,
                t_phase := if f = e then T_exit else T_top\<rparr>)"
    using timer_run_release [of "t\<lparr>time_now := time_now t + 1, t_phase := T_release 0 f e\<rparr>" 0 f e ?n]
    by (simp del: timer_run.simps)
  have "timer_run (1 + (Suc ?n + Suc ?n)) t = Some (t\<lparr>dev_list := clear_from 0 (dev_list t),
      time_now := time_now t + 1, t_phase := if f = e then T_exit else T_top\<rparr>)"
    by (rule timer_run_add [OF 1 timer_run_add [OF 2 3]])
  moreover have "1 + (Suc ?n + Suc ?n) = 2 * ?n + 3" by simp
  ultimately have "timer_run (2 * ?n + 3) t = Some (t\<lparr>dev_list := clear_from 0 (dev_list t),
      time_now := time_now t + 1, t_phase := if f = e then T_exit else T_top\<rparr>)" by argo
  then show ?thesis by (cases "f = e") auto
qed

section \<open>An example: two devices that have both finished slot 0\<close>

definition two_finished :: timer_t where
  "two_finished = \<lparr>dev_list = [\<lparr>dev_done = True, dev_fsh = False, dev_phase = In_next, slots = 0\<rparr>,
                                \<lparr>dev_done = True, dev_fsh = False, dev_phase = In_next, slots = 0\<rparr>],
                   time_now = 0, timer_started = True, timer_stop = False, t_phase = T_top\<rparr>"

lemma two_finished_reach: "treach 2 two_finished"
proof -
  let ?s = "the (next_slot_enter (started 2) 0)"
  have "next_slot_enter (started 2) 0 = Some ?s" "next_slot_enter ?s 1 = Some two_finished"
    by (simp_all add: started_def start_timer_def attach_event_def timer_init_def numeral_2_eq_2
        next_slot_enter_def set_dev_def two_finished_def)
  then show ?thesis using treach.init treach.step tstep.enter by metis
qed

lemma treach_run: "timer_run k t = Some t' \<Longrightarrow> treach n t \<Longrightarrow> treach n t'"
  by (induction k arbitrary: t) (auto split: option.splits intro: treach.step tstep.timer)

lemma two_finished_run:
  "timer_run 3 two_finished = Some (two_finished\<lparr>t_phase := T_wait 2 0 2\<rparr>)"
  by (simp add: numeral_3_eq_3 numeral_2_eq_2 timer_routine_def timer_top_def timer_wait_def two_finished_def)

section \<open>Properties\<close>

text \<open>C38: The slot barrier.  In every reachable state of \<open>n\<close> devices and the timer thread, a
  device that is working is in the slot of the current time, so two devices never work in different
  slots at once; a device inside \<open>next_slot\<close> has completed the current slot or
  is about to return into it; a detached device is flagged so that the timer skips it.  (\<open>slots\<close>
  counts the returns of \<open>next_slot\<close>.)\<close>

theorem timer_barrier:
  assumes "treach n t" and "i < n"
  shows "case dev_phase (dev_list t ! i) of
      In_slot \<Rightarrow> slots (dev_list t ! i) = current_time t
    | In_next \<Rightarrow> slots (dev_list t ! i) = current_time t \<and> dev_done (dev_list t ! i)
               \<or> slots (dev_list t ! i) = current_time t - 1
    | Gone \<Rightarrow> dev_fsh (dev_list t ! i)"
proof -
  have "dev_ok (time_now t) (unreleased (t_phase t) i) (dev_list t ! i)"
    using barrier_ok_dev [OF barrier_ok_treach [OF assms(1)]] assms(2) treach_devices [OF assms(1)] by simp
  then show ?thesis
    by (cases "dev_phase (dev_list t ! i)") (auto simp: dev_ok_def current_time_def split: if_splits)
qed

theorem timer_barrier_witness:
  "slots (dev_list two_finished ! 1) = current_time two_finished \<and> dev_done (dev_list two_finished ! 1)
     \<or> slots (dev_list two_finished ! 1) = current_time two_finished - 1"
  using timer_barrier [OF two_finished_reach, of 1] by (simp add: two_finished_def)

text \<open>The time advances by one at a time and only when no device is working: every
  device that is not detached waits in \<open>next_slot\<close> with its flag set, having completed exactly the
  slot that ends.  No flag changes in that step, so no device is released before the new time is
  visible.\<close>

theorem timer_advances_after_all:
  assumes "treach n t" and "tstep t t'" and "current_time t' \<noteq> current_time t"
  shows "current_time t' = current_time t + 1 \<and> dev_list t' = dev_list t
    \<and> list_all (\<lambda>d. dev_phase d = Gone
         \<or> dev_phase d = In_next \<and> dev_done d \<and> slots d = current_time t) (dev_list t)"
proof -
  obtain k f e where p: "t_phase t = T_wait k f e" "\<not> k < length (dev_list t)"
    and t': "t' = t\<lparr>time_now := time_now t + 1, t_phase := T_release 0 f e\<rparr>"
    using assms(2,3)
    by (auto simp: current_time_def next_slot_enter_def next_slot_leave_def detach_event_def timer_routine_def
        timer_top_def timer_wait_def timer_release_def stop_timer_def elim!: tstepE split: if_splits timer_phase.splits)
  show ?thesis using wait_through [OF barrier_ok_treach [OF assms(1)] p]
    by (auto simp: t' current_time_def list_all_length)
qed

theorem timer_advances_after_all_witness:
  "treach 2 (two_finished\<lparr>t_phase := T_wait 2 0 2\<rparr>)
   \<and> (\<exists>t'. tstep (two_finished\<lparr>t_phase := T_wait 2 0 2\<rparr>) t' \<and> current_time t' = 1
        \<and> list_all (\<lambda>d. dev_phase d = Gone \<or> dev_phase d = In_next \<and> dev_done d \<and> slots d = 0)
                   (dev_list t'))"
proof -
  let ?t = "two_finished\<lparr>t_phase := T_wait 2 0 2\<rparr>" and ?t' = "two_finished\<lparr>time_now := 1, t_phase := T_release 0 0 2\<rparr>"
  have r: "treach 2 ?t" by (rule treach_run [OF two_finished_run two_finished_reach])
  have s: "tstep ?t ?t'"
    by (rule tstep.timer) (simp add: timer_routine_def timer_wait_def two_finished_def)
  have c: "current_time ?t' \<noteq> current_time ?t" by (simp add: current_time_def two_finished_def)
  have "current_time ?t = 0" by (simp add: current_time_def two_finished_def)
  then show ?thesis using timer_advances_after_all [OF r s c] r s by auto
qed

text \<open>The timer cannot hang the devices.  When the timer thread is at the top of its loop and every
  device has finished its slot or detached, with one device left, then its next \<open>2 n + 3\<close> steps are never blocked
  and start the next slot: the time is one later, every waiting device can leave \<open>next_slot\<close>, nobody else
  changed, and the thread is at the top of its loop again and has not exited.\<close>

theorem timer_starts_next_slot:
  assumes r: "treach n t" and p: "t_phase t = T_top"
    and fin: "list_all (\<lambda>d. dev_phase d \<noteq> In_slot \<and> (dev_phase d = In_next \<longrightarrow> dev_done d)) (dev_list t)"
    and alive: "i < n" "dev_phase (dev_list t ! i) = In_next"
  shows "\<exists>t'. timer_run (2 * n + 3) t = Some t' \<and> t_phase t' = T_top
    \<and> current_time t' = current_time t + 1 \<and> next_slot_leave t' i \<noteq> None
    \<and> dev_list t' = map (dev_done_update (\<lambda>_. False)) (dev_list t)"
proof -
  note ok = barrier_ok_treach [OF r] and n = treach_devices [OF r]
  have st: "\<not> timer_stop t" using ok alive n by (auto simp: barrier_ok_def phase_ok_def)
  have "dev_done (dev_list t ! j) \<or> dev_fsh (dev_list t ! j)" if "j < length (dev_list t)" for j
    using fin barrier_ok_dev [OF ok that] that
    by (cases "dev_phase (dev_list t ! j)") (auto simp: list_all_length dev_ok_def)
  then obtain ph where run: "timer_run (2 * n + 3) t
      = Some (t\<lparr>dev_list := clear_from 0 (dev_list t), time_now := time_now t + 1, t_phase := ph\<rparr>)"
    and ph: "ph = T_top \<or> ph = T_exit"
    using timer_run_round [OF ok p st] n by blast
  have "ph \<noteq> T_exit"
    using timer_run_reach [OF run ok] alive n by (auto simp: barrier_ok_def phase_ok_def clear_from_def)
  then show ?thesis using run ph alive n
    by (simp add: current_time_def next_slot_leave_def clear_from_def del: timer_run.simps)
qed

theorem timer_starts_next_slot_witness:
  "\<exists>t'. timer_run 7 two_finished = Some t' \<and> current_time t' = 1 \<and> next_slot_leave t' 0 \<noteq> None"
proof -
  have "\<exists>t'. timer_run (2 * 2 + 3) two_finished = Some t' \<and> t_phase t' = T_top
    \<and> current_time t' = current_time two_finished + 1 \<and> next_slot_leave t' 0 \<noteq> None
    \<and> dev_list t' = map (dev_done_update (\<lambda>_. False)) (dev_list two_finished)"
    by (rule timer_starts_next_slot [OF two_finished_reach]) (simp_all add: two_finished_def)
  then show ?thesis by (auto simp: two_finished_def current_time_def simp del: timer_run.simps)
qed

end
