(* ===== verification/OS_Scan.thy ===== *)
theory OS_Scan
  imports OS_Prelude "HOL-Library.Char_ord"
begin

text \<open>
  The input functions of the C library that \<open>loader.c\<close> and \<open>os.c\<close> use, as functions on the
  characters that are left in the file: the conversions \<open>%u\<close>, \<open>%lu\<close>, \<open>%d\<close> and \<open>%s\<close> of \<open>fscanf\<close> and
  \<open>sscanf\<close>, white space in a format, and \<open>fgets\<close>.  A conversion that fails leaves its variable
  alone and ends the call, as the standard says; a number that its type cannot represent is
  undefined behaviour.  \<open>dec\<close> prints a number; printing and scanning are inverse.
\<close>

section \<open>Errors of the readers\<close>

text \<open>\<open>exit(1)\<close> with its reason, or undefined behaviour.\<close>

datatype load_error = Exit_no_file | Exit_opcode string | Undefined

section \<open>Scanning\<close>

definition newline :: char where
  "newline = CHR 0x0A"

definition is_space :: "char \<Rightarrow> bool" where
  "is_space c \<longleftrightarrow> c \<in> {CHR 0x20, CHR 0x09, CHR 0x0A, CHR 0x0B, CHR 0x0C, CHR 0x0D}"

definition skip_space :: "string \<Rightarrow> string" where
  "skip_space = dropWhile is_space"

definition digit_val :: "char \<Rightarrow> nat" where
  "digit_val c = of_char c - 48"

definition is_digit :: "char \<Rightarrow> bool" where
  "is_digit c \<longleftrightarrow> 48 \<le> (of_char c :: nat) \<and> (of_char c :: nat) \<le> 57"

definition num_val :: "string \<Rightarrow> nat" where
  "num_val = foldl (\<lambda>n c. 10 * n + digit_val c) 0"

fun scan_sign :: "string \<Rightarrow> bool \<times> string" where
  "scan_sign [] = (False, [])"
| "scan_sign (c # s) = (if c = CHR ''-'' then (True, s) else if c = CHR ''+'' then (False, s) else (False, c # s))"

text \<open>One integer conversion: the value, or \<open>None\<close> when there is no digit, and what is left.\<close>

definition scan_num :: "string \<Rightarrow> int option \<times> string" where
  "scan_num s =
     (let (neg, s1) = scan_sign (skip_space s);
          ds = takeWhile is_digit s1
      in (if ds = [] then None else Some (if neg then - int (num_val ds) else int (num_val ds)),
          dropWhile is_digit s1))"

text \<open>Several integer conversions separated by blanks, up to the first that fails.\<close>

fun scan_nums :: "nat \<Rightarrow> string \<Rightarrow> int list \<times> string" where
  "scan_nums 0 s = ([], s)"
| "scan_nums (Suc k) s =
     (case scan_num s of
        (None, r) \<Rightarrow> ([], r)
      | (Some v, r) \<Rightarrow> (let (vs, r') = scan_nums k r in (v # vs, r')))"

text \<open>The same with a white space directive at the end of the format.\<close>

definition scan_line :: "nat \<Rightarrow> string \<Rightarrow> int list \<times> string" where
  "scan_line k s = (let (vs, r) = scan_nums k s in (vs, if length vs = k then skip_space r else r))"

definition scan_word :: "string \<Rightarrow> string option \<times> string" where
  "scan_word s =
     (let s1 = skip_space s; w = takeWhile (\<lambda>c. \<not> is_space c) s1
      in (if w = [] then None else Some w, dropWhile (\<lambda>c. \<not> is_space c) s1))"

fun get_line :: "nat \<Rightarrow> string \<Rightarrow> string \<times> string" where
  "get_line 0 s = ([], s)"
| "get_line (Suc n) [] = ([], [])"
| "get_line (Suc n) (c # s) =
     (if c = newline then ([c], s) else let (l, r) = get_line n s in (c # l, r))"

definition fgets :: "nat \<Rightarrow> string \<Rightarrow> string option \<times> string" where
  "fgets n s = (if s = [] then (None, s) else let (l, r) = get_line (n - 1) s in (Some l, r))"

text \<open>What a string function sees of an array of characters.\<close>

definition c_str :: "string \<Rightarrow> string" where
  "c_str = takeWhile (\<lambda>c. c \<noteq> CHR 0x00)"

definition u32_of :: "int \<Rightarrow> load_error + u32" where
  "u32_of v = (if \<bar>v\<bar> < 2 ^ 32 then Inr (of_int v) else Inl Undefined)"

definition u64_of :: "int \<Rightarrow> load_error + u64" where
  "u64_of v = (if \<bar>v\<bar> < 2 ^ 64 then Inr (of_int v) else Inl Undefined)"

definition u64s_of :: "int list \<Rightarrow> load_error + u64 list" where
  "u64s_of vs = (if list_all (\<lambda>v. \<bar>v\<bar> < 2 ^ 64) vs then Inr (map of_int vs) else Inl Undefined)"

definition int_of :: "int \<Rightarrow> load_error + int" where
  "int_of v = (if - (2 ^ 31) \<le> v \<and> v < 2 ^ 31 then Inr v else Inl Undefined)"

section \<open>Printing numbers\<close>

definition digit :: "nat \<Rightarrow> char" where
  "digit n = char_of (48 + n)"

fun dec :: "nat \<Rightarrow> string" where
  "dec n = (if n < 10 then [digit n] else dec (n div 10) @ [digit (n mod 10)])"

declare dec.simps [simp del]

lemma digit_simps [simp]:
  "n < 10 \<Longrightarrow> is_digit (digit n)" "n < 10 \<Longrightarrow> digit_val (digit n) = n"
  by (simp_all add: digit_def is_digit_def digit_val_def of_char_of)

lemma digit_chars:
  "digit 0 = CHR ''0''" "digit 1 = CHR ''1''" "digit 2 = CHR ''2''" "digit 3 = CHR ''3''" "digit 4 = CHR ''4''"
  "digit 5 = CHR ''5''" "digit 6 = CHR ''6''" "digit 7 = CHR ''7''" "digit 8 = CHR ''8''" "digit 9 = CHR ''9''"
  by code_simp+

lemma is_digit_not_space: "is_digit c \<Longrightarrow> \<not> is_space c"
  by (auto simp: is_digit_def is_space_def)

lemma is_digit_not_sign: "is_digit c \<Longrightarrow> c \<noteq> CHR ''-'' \<and> c \<noteq> CHR ''+''"
  by (auto simp: is_digit_def)

lemma dec_not_Nil [simp]: "dec n \<noteq> []"
  by (subst dec.simps) simp

lemma dec_digits: "c \<in> set (dec n) \<Longrightarrow> is_digit c"
proof (induction n rule: dec.induct)
  case (1 n)
  then show ?case by (subst (asm) dec.simps) (auto split: if_splits)
qed

lemma num_val_snoc: "num_val (ds @ [c]) = 10 * num_val ds + digit_val c"
  by (simp add: num_val_def)

lemma num_val_dec [simp]: "num_val (dec n) = n"
proof (induction n rule: dec.induct)
  case (1 n)
  then show ?case by (subst dec.simps) (auto simp: num_val_snoc num_val_def)
qed

lemma length_dec: "0 < k \<Longrightarrow> n < 10 ^ k \<Longrightarrow> length (dec n) \<le> k"
proof (induction n arbitrary: k rule: dec.induct)
  case (1 n)
  show ?case
  proof (cases "n < 10")
    case True
    then show ?thesis using 1(2) by (subst dec.simps) simp
  next
    case False
    then obtain j where j: "k = Suc j" "0 < j" using 1(2,3) by (cases k; cases "k - 1") auto
    have "n div 10 < 10 ^ j" using 1(3) j by (simp add: less_mult_imp_div_less mult.commute)
    then show ?thesis using 1(1) [OF False j(2)] False j(1) by (subst dec.simps) simp
  qed
qed

section \<open>Scanning what was printed\<close>

text \<open>The next character, if any, ends a number or a word.\<close>

definition breaks :: "string \<Rightarrow> bool" where
  "breaks r \<longleftrightarrow> (case r of [] \<Rightarrow> True | c # _ \<Rightarrow> is_space c)"

lemma breaks_simps [simp]: "breaks []" "breaks (c # r) = is_space c"
  by (simp_all add: breaks_def)

lemma is_space_simps [simp]: "is_space (CHR 0x20)" "is_space newline" "is_space (CHR 0x0A)"
  by (simp_all add: is_space_def newline_def)

lemma skip_space_simps [simp]:
  "skip_space [] = []" "is_space c \<Longrightarrow> skip_space (c # r) = skip_space r"
  by (simp_all add: skip_space_def)

lemma skip_space_word: "w \<noteq> [] \<Longrightarrow> \<not> is_space (hd w) \<Longrightarrow> skip_space (w @ r) = w @ r"
  by (cases w) (simp_all add: skip_space_def)

lemma dec_hd: "is_digit (hd (dec n))"
  by (meson dec_digits dec_not_Nil list.set_sel(1))

lemma skip_space_dec [simp]: "skip_space (dec n @ r) = dec n @ r"
  by (simp add: skip_space_word is_digit_not_space dec_hd)

lemma scan_sign_dec [simp]: "scan_sign (dec n @ r) = (False, dec n @ r)"
proof -
  obtain c ds where cs: "dec n = c # ds" by (cases "dec n") auto
  then have "is_digit c" using dec_hd [of n] by simp
  then show ?thesis using is_digit_not_sign [of c] by (simp add: cs)
qed

lemma takeWhile_dec:
  "breaks r \<Longrightarrow> takeWhile is_digit (dec n @ r) = dec n"
  "breaks r \<Longrightarrow> dropWhile is_digit (dec n @ r) = r"
  using dec_digits [of _ n] is_digit_not_space
  by (cases r; force simp: takeWhile_append dropWhile_append)+

lemma scan_num_dec [simp]: "breaks r \<Longrightarrow> scan_num (dec n @ r) = (Some (int n), r)"
  by (simp add: scan_num_def takeWhile_dec)

lemma scan_num_space [simp]: "is_space c \<Longrightarrow> scan_num (c # r) = scan_num r"
  by (simp add: scan_num_def)

lemma scan_num_Nil [simp]: "scan_num [] = (None, [])"
  by (simp add: scan_num_def)

lemma scan_nums_Nil [simp]: "scan_nums k [] = ([], [])"
  by (cases k) simp_all

lemma scan_word_word:
  assumes "w \<noteq> []" and "\<And>c. c \<in> set w \<Longrightarrow> \<not> is_space c" and "breaks r"
  shows "scan_word (w @ r) = (Some w, r)"
proof -
  have "takeWhile (\<lambda>c. \<not> is_space c) (w @ r) = w" "dropWhile (\<lambda>c. \<not> is_space c) (w @ r) = r"
    using assms(2,3) by (cases r; force simp: takeWhile_append dropWhile_append)+
  then show ?thesis using assms(1,2) by (simp add: scan_word_def skip_space_word)
qed

lemma scan_word_space [simp]: "is_space c \<Longrightarrow> scan_word (c # r) = scan_word r"
  by (simp add: scan_word_def)

lemma scan_word_Nil [simp]: "scan_word [] = (None, [])"
  by (simp add: scan_word_def)

text \<open>Numbers each preceded by a blank, as the arguments of an instruction are written.\<close>

definition args_str :: "nat list \<Rightarrow> string" where
  "args_str ns = concat (map (\<lambda>n. CHR 0x20 # dec n) ns)"

lemma args_str_simps [simp]: "args_str [] = []" "args_str (n # ns) = CHR 0x20 # dec n @ args_str ns"
  by (simp_all add: args_str_def)

lemma breaks_args [simp]: "breaks r \<Longrightarrow> breaks (args_str ns @ r)"
  by (cases ns) simp_all

lemma scan_nums_args [simp]:
  "breaks r \<Longrightarrow> k = length ns \<Longrightarrow> scan_nums k (args_str ns @ r) = (map int ns, r)"
  by (induction ns arbitrary: k) simp_all

lemma scan_line_args:
  "breaks r \<Longrightarrow> scan_line (length ns) (args_str ns @ r) = (map int ns, skip_space r)"
  by (simp add: scan_line_def)

lemma args_str_chars: "c \<in> set (args_str ns) \<Longrightarrow> c = CHR 0x20 \<or> is_digit c"
  using dec_digits by (induction ns) auto

lemma args_str_no: "\<not> is_digit c \<Longrightarrow> c \<noteq> CHR 0x20 \<Longrightarrow> c \<notin> set (args_str ns)"
  using args_str_chars by blast

lemma length_args_str:
  "(\<And>n. n \<in> set ns \<Longrightarrow> n < 10 ^ k) \<Longrightarrow> 0 < k \<Longrightarrow> length (args_str ns) \<le> length ns * Suc k"
proof (induction ns)
  case (Cons n ns)
  have "length (dec n) \<le> k" using Cons.prems by (simp add: length_dec)
  then show ?case using Cons by simp
qed simp

lemma get_line_line:
  "newline \<notin> set l \<Longrightarrow> length l < n \<Longrightarrow> get_line n (l @ newline # r) = (l @ [newline], r)"
proof (induction l arbitrary: n)
  case Nil
  then show ?case by (cases n) simp_all
next
  case (Cons c l)
  then show ?case by (cases n) auto
qed

lemma fgets_line:
  "newline \<notin> set l \<Longrightarrow> length l < n - 1 \<Longrightarrow> fgets n (l @ newline # r) = (Some (l @ [newline]), r)"
  by (simp add: fgets_def get_line_line)

lemma c_str_id: "CHR 0x00 \<notin> set w \<Longrightarrow> c_str w = w"
  by (auto simp: c_str_def takeWhile_eq_all_conv)

lemma unat_of_nat_u32: "n < 2 ^ 32 \<Longrightarrow> unat (of_nat n :: u32) = n"
  by (simp add: unsigned_of_nat take_bit_nat_eq_self)

lemma u64s_of_unat: "u64s_of (map uint us) = Inr us"
proof -
  have "\<bar>uint u\<bar> < 2 ^ 64" for u :: u64 using uint_bounded [of u] by simp
  then show ?thesis by (simp add: u64s_of_def list_all_iff comp_def)
qed

end
