(* ===== verification/OS_Loader.thy ===== *)
theory OS_Loader
  imports OS_Scan OS_Confine
begin

text \<open>
  The loader of \<open>loader.c\<close>: it reads a process description (priority, number of instructions, one
  instruction per line) into a new process control block.  The file system is the argument \<open>fs\<close>.
  The contents of memory returned by \<open>malloc\<close> are arguments too (\<open>raw\<close> for the control block, \<open>mem\<close>
  for the instruction array), because the loader does not write every field.
\<close>

section \<open>Opcodes\<close>

definition get_opcode :: "string \<Rightarrow> load_error + ins_opcode_t" where
  "get_opcode opt =
     (let s = c_str opt in
      if s = ''calc'' then Inr CALC
      else if s = ''alloc'' then Inr ALLOC
      else if s = ''free'' then Inr FREE
      else if s = ''read'' then Inr READ
      else if s = ''write'' then Inr WRITE
      else if s = ''kmalloc'' then Inr KMALLOC
      else if s = ''kmem_cache_create'' then Inr KMEM_CACHE_CREATE
      else if s = ''kmem_cache_alloc'' then Inr KMEM_CACHE_ALLOC
      else if s = ''copy_from_user'' then Inr COPY_FROM_USER
      else if s = ''copy_to_user'' then Inr COPY_TO_USER
      else if s = ''syscall'' then Inr SYSCALL
      else Inl (Exit_opcode s))"

section \<open>One instruction\<close>

text \<open>The loader's local state: the rest of the file, and the buffers \<open>opcode\<close> and \<open>buf\<close> (\<open>None\<close>
  as long as nothing was written to them).\<close>

record scan_t =
  s_file :: string
  s_opcode :: "string option"
  s_buf :: "string option"

text \<open>The arguments in the order of the conversions; a conversion that failed leaves the field.\<close>

fun store_args :: "u64 list \<Rightarrow> inst_t \<Rightarrow> inst_t" where
  "store_args [] i = i"
| "store_args [a] i = i\<lparr>arg_0 := a\<rparr>"
| "store_args [a, b] i = i\<lparr>arg_0 := a, arg_1 := b\<rparr>"
| "store_args [a, b, c] i = i\<lparr>arg_0 := a, arg_1 := b, arg_2 := c\<rparr>"
| "store_args (a # b # c # d # _) i = i\<lparr>arg_0 := a, arg_1 := b, arg_2 := c, arg_3 := d\<rparr>"

text \<open>\<open>fscanf(file, "%lu ... \n", ...)\<close> with \<open>k\<close> conversions.\<close>

definition scan_args :: "nat \<Rightarrow> inst_t \<Rightarrow> scan_t \<Rightarrow> load_error + inst_t \<times> scan_t" where
  "scan_args k i st =
     (let (vs, r) = scan_line k (s_file st)
      in bindR (u64s_of vs) (\<lambda>us. Inr (store_args us i, st\<lparr>s_file := r\<rparr>)))"

text \<open>\<open>fgets\<close> into \<open>buf\<close> and \<open>sscanf\<close> of up to four numbers from it, after the arguments were
  cleared.  At the end of the file \<open>buf\<close> keeps the previous line.\<close>

definition scan_buf :: "inst_t \<Rightarrow> scan_t \<Rightarrow> load_error + inst_t \<times> scan_t" where
  "scan_buf i st =
     (let i = i\<lparr>arg_0 := 0, arg_1 := 0, arg_2 := 0, arg_3 := 0\<rparr>;
          (l, r) = fgets 200 (s_file st);
          buf = (case l of None \<Rightarrow> s_buf st | Some b \<Rightarrow> Some b)
      in case buf of
           None \<Rightarrow> Inl Undefined
         | Some b \<Rightarrow>
             bindR (u64s_of (fst (scan_nums 4 (c_str b)))) (\<lambda>us.
             Inr (store_args us i, st\<lparr>s_file := r, s_buf := buf\<rparr>)))"

text \<open>The \<open>switch\<close> on the opcode.\<close>

definition load_args :: "inst_t \<Rightarrow> scan_t \<Rightarrow> load_error + inst_t \<times> scan_t" where
  "load_args i st =
     (case opcode i of
        CALC \<Rightarrow> Inr (i, st)
      | KMEM_CACHE_ALLOC \<Rightarrow> scan_args 2 i st
      | KMALLOC \<Rightarrow> scan_args 2 i st
      | ALLOC \<Rightarrow> scan_args 2 i st
      | FREE \<Rightarrow> scan_args 1 i st
      | KMEM_CACHE_CREATE \<Rightarrow> scan_args 3 i st
      | READ \<Rightarrow> scan_args 3 i st
      | WRITE \<Rightarrow> scan_args 3 i st
      | COPY_FROM_USER \<Rightarrow> scan_buf i st
      | COPY_TO_USER \<Rightarrow> scan_buf i st
      | SYSCALL \<Rightarrow> scan_buf i st)"

text \<open>The body of the loop of \<open>load\<close>.  The buffer for the opcode has 32 bytes; when no word is left
  in the file it keeps the previous opcode.\<close>

definition load_inst :: "inst_t \<Rightarrow> scan_t \<Rightarrow> load_error + inst_t \<times> scan_t" where
  "load_inst i st =
     (let (w, r) = scan_word (s_file st);
          name = (case w of None \<Rightarrow> s_opcode st | Some w \<Rightarrow> Some w);
          st = st\<lparr>s_opcode := name, s_file := r\<rparr>
      in case name of
           None \<Rightarrow> Inl Undefined
         | Some name \<Rightarrow>
             if 32 \<le> length name then Inl Undefined
             else bindR (get_opcode name) (\<lambda>op. load_args (i\<lparr>opcode := op\<rparr>) st))"

section \<open>The whole description\<close>

fun load_loop :: "inst_t list \<Rightarrow> scan_t \<Rightarrow> load_error + inst_t list \<times> scan_t" where
  "load_loop [] st = Inr ([], st)"
| "load_loop (i # is) st =
     bindR (load_inst i st) (\<lambda>(i', st).
     bindR (load_loop is st) (\<lambda>(is', st). Inr (i' # is', st)))"

text \<open>\<open>fscanf(file, "%u %u", ...)\<close>: without both numbers the size is indeterminate.\<close>

definition load_header :: "string \<Rightarrow> load_error + (u32 \<times> u32) \<times> string" where
  "load_header s =
     (case scan_nums 2 s of
        ([p, n], r) \<Rightarrow> bindR (u32_of p) (\<lambda>p. bindR (u32_of n) (\<lambda>n. Inr ((p, n), r)))
      | _ \<Rightarrow> Inl Undefined)"

text \<open>\<open>load\<close>: the process and the next process id.\<close>

definition load :: "(string \<Rightarrow> string option) \<Rightarrow> pcb_t \<Rightarrow> (nat \<Rightarrow> inst_t) \<Rightarrow> u32 \<Rightarrow> string \<Rightarrow> load_error + pcb_t \<times> u32" where
  "load fs raw mem avail_pid path =
     (let proc = raw\<lparr>pid := avail_pid\<rparr>; avail_pid = avail_pid + 1; proc = proc\<lparr>pc := 0\<rparr>
      in case fs path of
           None \<Rightarrow> Inl Exit_no_file
         | Some file \<Rightarrow>
             bindR (load_header file) (\<lambda>((p, n), r).
             bindR (load_loop (map mem [0..<unat n]) \<lparr>s_file = r, s_opcode = None, s_buf = None\<rparr>) (\<lambda>(text, _).
             Inr (proc\<lparr>priority := p, code := \<lparr>code_text = text, code_size = n\<rparr>\<rparr>, avail_pid))))"

section \<open>Loaded code is well formed\<close>

text \<open>The number of instructions a file announces: its second number.\<close>

definition announced :: "string \<Rightarrow> int option" where
  "announced txt = (case scan_nums 2 txt of ([p, n], r) \<Rightarrow> Some n | _ \<Rightarrow> None)"

definition code_ok :: "code_seg_t \<Rightarrow> bool" where
  "code_ok c \<longleftrightarrow> length (code_text c) = unat (code_size c)"

lemma load_loop_length: "load_loop is st = Inr (is', st') \<Longrightarrow> length is' = length is"
  by (induction "is" arbitrary: st is') (auto simp: bindR_eq_Inr)

lemma load_Inr:
  assumes "load fs raw mem n path = Inr (pr, n')"
  obtains d p k r tx st where "fs path = Some d" "load_header d = Inr ((p, k), r)"
    "load_loop (map mem [0..<unat k]) \<lparr>s_file = r, s_opcode = None, s_buf = None\<rparr> = Inr (tx, st)"
    "pr = raw\<lparr>pid := n, pc := 0, priority := p, code := \<lparr>code_text = tx, code_size = k\<rparr>\<rparr>" "n' = n + 1"
  using assms by (auto simp: load_def Let_def bindR_eq_Inr split: option.splits)

lemma load_code_ok: "load fs raw mem n path = Inr (pr, n') \<Longrightarrow> code_ok (code pr)"
  by (erule load_Inr) (auto simp: code_ok_def dest: load_loop_length)

section \<open>Printing a description\<close>

text \<open>How a description is written: the name of an opcode and how many arguments it takes.\<close>

fun op_name :: "ins_opcode_t \<Rightarrow> string" where
  "op_name CALC = ''calc''"
| "op_name ALLOC = ''alloc''"
| "op_name FREE = ''free''"
| "op_name READ = ''read''"
| "op_name WRITE = ''write''"
| "op_name KMALLOC = ''kmalloc''"
| "op_name KMEM_CACHE_CREATE = ''kmem_cache_create''"
| "op_name KMEM_CACHE_ALLOC = ''kmem_cache_alloc''"
| "op_name COPY_FROM_USER = ''copy_from_user''"
| "op_name COPY_TO_USER = ''copy_to_user''"
| "op_name SYSCALL = ''syscall''"

fun op_arity :: "ins_opcode_t \<Rightarrow> nat" where
  "op_arity CALC = 0"
| "op_arity FREE = 1"
| "op_arity ALLOC = 2"
| "op_arity KMALLOC = 2"
| "op_arity KMEM_CACHE_ALLOC = 2"
| "op_arity READ = 3"
| "op_arity WRITE = 3"
| "op_arity KMEM_CACHE_CREATE = 3"
| "op_arity _ = 4"

definition inst_args :: "inst_t \<Rightarrow> u64 list" where
  "inst_args i = take (op_arity (opcode i)) [arg_0 i, arg_1 i, arg_2 i, arg_3 i]"

definition print_inst :: "inst_t \<Rightarrow> string" where
  "print_inst i = op_name (opcode i) @ args_str (map unat (inst_args i)) @ [newline]"

definition print_proc :: "u32 \<Rightarrow> inst_t list \<Rightarrow> string" where
  "print_proc p is = dec (unat p) @ CHR 0x20 # dec (length is) @ [newline] @ concat (map print_inst is)"

text \<open>The instruction as the loader stores it: fields without an argument keep what was there.\<close>

definition loaded :: "inst_t \<Rightarrow> inst_t \<Rightarrow> inst_t" where
  "loaded m i = store_args (inst_args i) (m\<lparr>opcode := opcode i\<rparr>)"

lemma get_opcode_name [simp]: "get_opcode (op_name op) = Inr op"
  by (cases op) (simp_all add: get_opcode_def c_str_def)

lemma op_name_chars:
  "op_name op \<noteq> []" "c \<in> set (op_name op) \<Longrightarrow> \<not> is_space c" "length (op_name op) < 32"
  by (cases op; auto simp: is_space_def)+

lemma scan_word_name: "breaks r \<Longrightarrow> scan_word (op_name op @ r) = (Some (op_name op), r)"
  by (rule scan_word_word) (simp_all add: op_name_chars)

lemma breaks_tail [simp]: "breaks (args_str ns @ newline # r)"
  by simp

lemma length_inst_args: "length (inst_args i) = op_arity (opcode i)"
  by (cases "opcode i") (simp_all add: inst_args_def)

lemma skip_space_idem [simp]: "skip_space (skip_space r) = skip_space r"
  by (simp add: skip_space_def dropWhile_idem)

lemma scan_word_skip [simp]: "scan_word (skip_space r) = scan_word r"
  by (simp add: scan_word_def)

section \<open>Loading what was printed\<close>

lemma scan_word_cong: "skip_space s = skip_space t \<Longrightarrow> scan_word s = scan_word t"
  by (simp add: scan_word_def)

lemma print_inst_space: "skip_space (print_inst i @ r) = print_inst i @ r"
  using op_name_chars(1) [of "opcode i"] op_name_chars(2) [of _ "opcode i"]
  by (cases "op_name (opcode i)") (auto simp: print_inst_def skip_space_def)

lemma scan_buf_args:
  assumes "length us = 4"
  shows "scan_buf m (st\<lparr>s_file := args_str (map unat us) @ newline # r\<rparr>)
    = Inr (store_args us m, st\<lparr>s_file := r, s_buf := Some (args_str (map unat us) @ [newline])\<rparr>)"
proof -
  let ?l = "args_str (map unat us)"
  have small: "unat u < 10 ^ 20" for u :: u64
  proof -
    have "unat u < 2 ^ 64" using unsigned_less [of u] by simp
    then show ?thesis by simp
  qed
  have "length ?l \<le> 4 * Suc 20" using length_args_str [of "map unat us" 20] small assms by auto
  moreover have nl: "newline \<notin> set ?l" "CHR 0x00 \<notin> set ?l"
    by (simp_all add: newline_def is_digit_def args_str_no)
  ultimately have g: "fgets 200 (?l @ newline # r) = (Some (?l @ [newline]), r)"
    by (simp add: fgets_line)
  have c: "c_str (?l @ [newline]) = ?l @ [newline]"
    using nl by (simp add: c_str_id newline_def)
  have u: "u64s_of (fst (scan_nums 4 (?l @ [newline]))) = Inr us"
    using assms u64s_of_unat [of us] by (simp add: comp_def)
  have z: "store_args us (m\<lparr>arg_0 := 0, arg_1 := 0, arg_2 := 0, arg_3 := 0\<rparr>) = store_args us m"
    using assms by (auto simp: length_Suc_conv numeral_eq_Suc)
  show ?thesis by (simp add: scan_buf_def g c u z)
qed

lemma scan_args_line:
  assumes "k = length us"
  shows "scan_args k m (st\<lparr>s_file := args_str (map unat us) @ newline # r\<rparr>)
    = Inr (store_args us m, st\<lparr>s_file := skip_space r\<rparr>)"
proof -
  show ?thesis
    using scan_line_args [of "newline # r" "map unat us"] assms u64s_of_unat [of us]
    by (simp add: scan_args_def comp_def)
qed

text \<open>What the buffers hold after instruction \<open>i\<close>.\<close>

definition left_by :: "inst_t \<Rightarrow> scan_t \<Rightarrow> bool" where
  "left_by i st \<longleftrightarrow> s_opcode st = Some (op_name (opcode i))
     \<and> (op_arity (opcode i) = 4 \<longrightarrow> s_buf st = Some (args_str (map unat (inst_args i)) @ [newline]))"

lemma load_inst_print:
  assumes "skip_space (s_file st) = skip_space (print_inst i @ r)"
  shows "\<exists>st'. load_inst m st = Inr (loaded m i, st') \<and> skip_space (s_file st') = skip_space r \<and> left_by i st'"
proof -
  let ?as = "args_str (map unat (inst_args i))"
  let ?st = "st\<lparr>s_opcode := Some (op_name (opcode i))\<rparr>"
  have w: "scan_word (s_file st) = (Some (op_name (opcode i)), ?as @ newline # r)"
    using scan_word_cong [OF assms] by (simp add: print_inst_def scan_word_name)
  note l = length_inst_args [of i] and nm = op_name_chars(3) [of "opcode i"]
  have "load_inst m st = load_args (m\<lparr>opcode := opcode i\<rparr>) (?st\<lparr>s_file := ?as @ newline # r\<rparr>)"
    using nm by (simp add: load_inst_def w Let_def)
  then show ?thesis
    using l by (cases "opcode i")
      (simp_all add: load_args_def scan_args_line scan_buf_args loaded_def left_by_def)
qed

lemma load_loop_print:
  assumes "skip_space (s_file st) = skip_space (concat (map print_inst is) @ r)" and "length ms = length is"
  shows "\<exists>st'. load_loop ms st = Inr (map2 loaded ms is, st') \<and> skip_space (s_file st') = skip_space r
    \<and> (is \<noteq> [] \<longrightarrow> left_by (last is) st')"
  using assms
proof (induction "is" arbitrary: ms st)
  case (Cons i "is")
  then obtain m ms' where ms: "ms = m # ms'" by (cases ms) auto
  obtain st1 where 1: "load_inst m st = Inr (loaded m i, st1)"
    "skip_space (s_file st1) = skip_space (concat (map print_inst is) @ r)" "left_by i st1"
    using load_inst_print [of st i "concat (map print_inst is) @ r" m] Cons.prems(1) by auto
  obtain st' where 2: "load_loop ms' st1 = Inr (map2 loaded ms' is, st')" "skip_space (s_file st') = skip_space r"
    "is \<noteq> [] \<longrightarrow> left_by (last is) st'"
    using Cons.IH [OF 1(2), of ms'] Cons.prems(2) ms by auto
  have "left_by (last (i # is)) st'"
  proof (cases "is = []")
    case True
    then have "st' = st1" using 2(1) Cons.prems(2) ms by simp
    then show ?thesis using True 1(3) by simp
  qed (use 2(3) in simp)
  then show ?case using 1(1) 2(1,2) by (simp add: ms)
qed simp

lemma load_header_print:
  assumes "n < 2 ^ 32"
  shows "load_header (dec (unat p) @ CHR 0x20 # dec n @ newline # r) = Inr ((p, of_nat n), newline # r)"
proof -
  have "scan_nums 2 (dec (unat p) @ CHR 0x20 # dec n @ newline # r) = ([uint p, int n], newline # r)"
    by (simp add: numeral_2_eq_2)
  moreover have "\<bar>uint p\<bar> < 2 ^ 32" using uint_bounded [of p] by simp
  ultimately show ?thesis using assms by (simp add: load_header_def u32_of_def)
qed

section \<open>At the end of the file\<close>

text \<open>What an iteration stores when the file is exhausted: the previous opcode again, and its
  arguments only if they came through \<open>buf\<close>.\<close>

definition again :: "inst_t \<Rightarrow> inst_t \<Rightarrow> inst_t" where
  "again i m = (if op_arity (opcode i) = 4 then loaded m i else m\<lparr>opcode := opcode i\<rparr>)"

lemma scan_word_end: "skip_space s = [] \<Longrightarrow> scan_word s = (None, [])"
  by (simp add: scan_word_def)

lemma scan_buf_end:
  assumes "length us = 4" and "s_buf st = Some (args_str (map unat us) @ [newline])"
  shows "scan_buf m (st\<lparr>s_file := []\<rparr>) = Inr (store_args us m, st\<lparr>s_file := []\<rparr>)"
proof -
  have c: "c_str (args_str (map unat us) @ [newline]) = args_str (map unat us) @ [newline]"
    by (simp add: c_str_id newline_def is_digit_def args_str_no)
  have "scan_nums 4 (args_str (map unat us) @ [newline]) = (map int (map unat us), [newline])"
    using assms(1) by simp
  moreover have "store_args us (m\<lparr>arg_0 := 0, arg_1 := 0, arg_2 := 0, arg_3 := 0\<rparr>) = store_args us m"
    using assms(1) by (auto simp: length_Suc_conv numeral_eq_Suc)
  moreover have "st\<lparr>s_file := [], s_buf := s_buf st\<rparr> = st\<lparr>s_file := []\<rparr>" by simp
  ultimately show ?thesis
    using assms u64s_of_unat [of us] by (simp add: scan_buf_def fgets_def c comp_def)
qed

lemma load_inst_end:
  assumes "skip_space (s_file st) = []" and "left_by i st"
  shows "load_inst m st = Inr (again i m, st\<lparr>s_file := []\<rparr>)"
proof -
  let ?st = "st\<lparr>s_file := []\<rparr>"
  have st: "st\<lparr>s_opcode := Some (op_name (opcode i)), s_file := []\<rparr> = ?st"
    using assms(2) by (simp add: left_by_def)
  have "load_inst m st = load_args (m\<lparr>opcode := opcode i\<rparr>) ?st"
    using assms(2) op_name_chars(3) [of "opcode i"]
    by (simp add: load_inst_def scan_word_end [OF assms(1)] left_by_def st Let_def)
  moreover have "scan_args k m ?st = Inr (m, ?st)" for k m
    by (simp add: scan_args_def scan_line_def u64s_of_def)
  moreover have "op_arity (opcode i) = 4 \<Longrightarrow> scan_buf m ?st = Inr (store_args (inst_args i) m, ?st)" for m
    using assms(2) by (intro scan_buf_end) (simp_all add: left_by_def length_inst_args)
  ultimately show ?thesis
    by (cases "opcode i") (simp_all add: load_args_def again_def loaded_def)
qed

lemma load_loop_end:
  "skip_space (s_file st) = [] \<Longrightarrow> left_by i st \<Longrightarrow> \<exists>st'. load_loop ms st = Inr (map (again i) ms, st')"
proof (induction ms arbitrary: st)
  case (Cons m ms)
  have "\<exists>st'. load_loop ms (st\<lparr>s_file := []\<rparr>) = Inr (map (again i) ms, st')"
    using Cons.prems(2) by (intro Cons.IH) (simp_all add: left_by_def)
  then show ?case by (auto simp: load_inst_end [OF Cons.prems])
qed simp

lemma load_loop_append:
  "load_loop (xs @ ys) st = bindR (load_loop xs st) (\<lambda>(is, st1).
     bindR (load_loop ys st1) (\<lambda>(js, st2). Inr (is @ js, st2)))"
proof (induction xs arbitrary: st)
  case Nil
  show ?case by (cases "load_loop ys st") auto
next
  case (Cons a xs)
  show ?case by (cases "load_inst a st") (auto simp: Cons.IH bindR_def split: sum.splits)
qed

section \<open>Loaded instructions act like the described ones\<close>

lemma loaded_simps: "opcode (loaded m i) = opcode i" "inst_args (loaded m i) = inst_args i"
  by (cases "opcode i"; simp add: loaded_def inst_args_def numeral_eq_Suc)+

lemma exec_loaded: "exec_inst data0 s p (loaded m i) = exec_inst data0 s p i"
  by (cases "opcode i") (simp_all add: exec_inst_def loaded_def inst_args_def numeral_eq_Suc)

section \<open>Properties\<close>

definition nop :: inst_t where
  "nop = \<lparr>opcode = CALC, arg_0 = 0, arg_1 = 0, arg_2 = 0, arg_3 = 0\<rparr>"

text \<open>A description that announces \<open>n\<close> instructions and lists those of \<open>is\<close>.\<close>

definition describe :: "u32 \<Rightarrow> nat \<Rightarrow> inst_t list \<Rightarrow> string" where
  "describe p n is = dec (unat p) @ CHR 0x20 # dec n @ newline # concat (map print_inst is)"

lemma print_proc_describe: "print_proc p is = describe p (length is) is"
  by (simp add: print_proc_def describe_def)

lemma load_describe:
  assumes "fs path = Some (describe p n is)" and "length is \<le> n" and "n < 2 ^ 32"
    and "is = [] \<Longrightarrow> n = 0"
  shows "\<exists>st. load fs raw mem i path = Inr (raw\<lparr>pid := i, pc := 0, priority := p,
      code := \<lparr>code_text = map2 loaded (map mem [0..<length is]) is @ map (again (last is)) (map mem [length is..<n]),
               code_size = of_nat n\<rparr>\<rparr>, i + 1)"
proof -
  let ?st = "\<lparr>s_file = newline # concat (map print_inst is), s_opcode = None, s_buf = None\<rparr>"
  obtain st1 where 1: "load_loop (map mem [0..<length is]) ?st = Inr (map2 loaded (map mem [0..<length is]) is, st1)"
    "skip_space (s_file st1) = []" "is \<noteq> [] \<longrightarrow> left_by (last is) st1"
    using load_loop_print [of ?st "is" "[]" "map mem [0..<length is]"] by auto
  have "\<exists>st2. load_loop (map mem [length is..<n]) st1 = Inr (map (again (last is)) (map mem [length is..<n]), st2)"
  proof (cases "is = []")
    case True
    then show ?thesis using assms(4) by simp
  qed (use 1 load_loop_end in blast)
  then obtain st2 where 2: "load_loop (map mem [length is..<n]) st1 = Inr (map (again (last is)) (map mem [length is..<n]), st2)" ..
  have "[0..<n] = [0..<length is] @ [length is..<n]" using assms(2) by (metis le_iff_add upt_add_eq_append zero_le)
  then have "load_loop (map mem [0..<n]) ?st
      = Inr (map2 loaded (map mem [0..<length is]) is @ map (again (last is)) (map mem [length is..<n]), st2)"
    using 1(1) 2 by (simp add: load_loop_append)
  moreover have "unat (of_nat n :: u32) = n" using assms(3) by (rule unat_of_nat_u32)
  ultimately show ?thesis
    using assms(1,3) by (simp add: load_def describe_def load_header_print Let_def)
qed

text \<open>C17: Loading a printed description gives back the program: priority, number of instructions, and
  instructions with the same opcode and arguments, which the CPU executes exactly as the described
  ones, in every state and for every process, whatever the allocated memory held before.\<close>

theorem load_roundtrip:
  assumes "fs path = Some (print_proc p is)" and "length is < 2 ^ 32"
  shows "\<exists>pr. load fs raw mem i path = Inr (pr, i + 1) \<and> pid pr = i \<and> pc pr = 0 \<and> priority pr = p
    \<and> unat (code_size (code pr)) = length is \<and> length (code_text (code pr)) = length is
    \<and> (\<forall>k < length is. opcode (code_text (code pr) ! k) = opcode (is ! k)
        \<and> inst_args (code_text (code pr) ! k) = inst_args (is ! k)
        \<and> (\<forall>data0 s q. exec_inst data0 s q (code_text (code pr) ! k) = exec_inst data0 s q (is ! k)))"
proof -
  have "unat (of_nat (length is) :: u32) = length is" using assms(2) by (rule unat_of_nat_u32)
  then show ?thesis
    using load_describe [of fs path p "length is" "is" raw mem i] assms
    by (simp add: print_proc_describe loaded_simps exec_loaded)
qed

theorem load_roundtrip_witness:
  "let is = [\<lparr>opcode = ALLOC, arg_0 = 300, arg_1 = 4, arg_2 = 0, arg_3 = 0\<rparr>,
             \<lparr>opcode = SYSCALL, arg_0 = 101, arg_1 = 1, arg_2 = 2, arg_3 = 3\<rparr>]
   in \<exists>pr. load (\<lambda>_. Some (print_proc 7 is)) (small_pcb 0 []) (\<lambda>_. is ! 0) 1 ''p0'' = Inr (pr, 2)
        \<and> priority pr = 7 \<and> inst_args (code_text (code pr) ! 1) = [101, 1, 2, 3]"
proof -
  let ?is = "[\<lparr>opcode = ALLOC, arg_0 = 300, arg_1 = 4, arg_2 = 0, arg_3 = 0\<rparr>,
              \<lparr>opcode = SYSCALL, arg_0 = 101, arg_1 = 1, arg_2 = 2, arg_3 = 3\<rparr>]"
  obtain pr where "load (\<lambda>_. Some (print_proc 7 ?is)) (small_pcb 0 []) (\<lambda>_. ?is ! 0) 1 ''p0'' = Inr (pr, 1 + 1)"
    "priority pr = 7" "\<forall>k < length ?is. inst_args (code_text (code pr) ! k) = inst_args (?is ! k)"
    using load_roundtrip [of "\<lambda>_. Some (print_proc 7 ?is)" "''p0''" 7 ?is "small_pcb 0 []" "\<lambda>_. ?is ! 0" 1]
    by (simp del: add_0_right nth_Cons_0 One_nat_def) metis
  then show ?thesis by (auto simp: Let_def inst_args_def numeral_eq_Suc)
qed

text \<open>C23: A description with fewer instructions than announced is not refused: every missing
  instruction gets the opcode of the last one.  Its arguments are what the allocated memory
  happened to hold, except after \<open>syscall\<close>, \<open>copy_from_user\<close> and \<open>copy_to_user\<close>, where the last line is
  executed again and again.\<close>

theorem load_short_description:
  assumes "fs path = Some (describe p n is)" and "is \<noteq> []" and "length is \<le> n" and "n < 2 ^ 32"
  shows "\<exists>pr. load fs raw mem i path = Inr (pr, i + 1) \<and> length (code_text (code pr)) = n
    \<and> unat (code_size (code pr)) = n
    \<and> (\<forall>k. length is \<le> k \<and> k < n \<longrightarrow>
         code_text (code pr) ! k = (mem k)\<lparr>opcode := opcode (last is)\<rparr>
         \<or> op_arity (opcode (last is)) = 4 \<and>
           (\<forall>data0 s q. exec_inst data0 s q (code_text (code pr) ! k) = exec_inst data0 s q (last is)))"
proof -
  have n: "unat (of_nat n :: u32) = n" using assms(4) by (rule unat_of_nat_u32)
  have "(map2 loaded (map mem [0..<length is]) is @ map (again (last is)) (map mem [length is..<n])) ! k
      = again (last is) (mem k)" if "length is \<le> k" "k < n" for k
    using that by (simp add: nth_append)
  then show ?thesis
    using load_describe [of fs path p n "is" raw mem i] assms n by (auto simp: again_def exec_loaded)
qed

theorem load_short_description_witness:
  "let is = [\<lparr>opcode = FREE, arg_0 = 3, arg_1 = 0, arg_2 = 0, arg_3 = 0\<rparr>];
       junk = \<lparr>opcode = CALC, arg_0 = 9, arg_1 = 9, arg_2 = 9, arg_3 = 9\<rparr>
   in \<exists>pr. load (\<lambda>_. Some (describe 0 2 is)) (small_pcb 0 []) (\<lambda>_. junk) 1 ''p0'' = Inr (pr, 2)
        \<and> code_text (code pr) ! 1 = \<lparr>opcode = FREE, arg_0 = 9, arg_1 = 9, arg_2 = 9, arg_3 = 9\<rparr>"
proof -
  let ?is = "[\<lparr>opcode = FREE, arg_0 = 3, arg_1 = 0, arg_2 = 0, arg_3 = 0\<rparr>]"
    and ?junk = "\<lparr>opcode = CALC, arg_0 = 9, arg_1 = 9, arg_2 = 9, arg_3 = 9\<rparr>"
  obtain pr where "load (\<lambda>_. Some (describe 0 2 ?is)) (small_pcb 0 []) (\<lambda>_. ?junk) 1 ''p0'' = Inr (pr, 1 + 1)"
    "code_text (code pr) ! 1 = ?junk\<lparr>opcode := FREE\<rparr>"
    using load_short_description [of "\<lambda>_. Some (describe 0 2 ?is)" "''p0''" 0 2 ?is "small_pcb 0 []" "\<lambda>_. ?junk" 1]
    by auto
  then show ?thesis by (auto simp: Let_def)
qed

text \<open>C21: Loaded code is well formed: when the loader returns, the file starts with two numbers, and the
  instruction array has exactly as many elements as the second one announces, which is also the
  size the process is given.  The CPU can fetch at a program counter exactly when it is below that
  number, and gets the instruction at this place.  The process starts at the first instruction with
  the process id the loader handed out.\<close>

theorem load_code_fetches:
  assumes "fs path = Some txt" and "load fs raw mem i path = Inr (pr, j)"
  shows "\<exists>n. announced txt = Some n \<and> \<bar>n\<bar> < 2 ^ 32 \<and> code_size (code pr) = of_int n
    \<and> int (length (code_text (code pr))) = n mod 2 ^ 32
    \<and> (\<forall>k. fetch (pr\<lparr>pc := k\<rparr>) = (if uint k < n mod 2 ^ 32 then Inr (code_text (code pr) ! unat k) else Inl Out_of_bounds))
    \<and> pid pr = i \<and> j = i + 1 \<and> pc pr = 0"
proof -
  obtain p k r tx st where l: "load_header txt = Inr ((p, k), r)" "pr = raw\<lparr>pid := i, pc := 0, priority := p,
      code := \<lparr>code_text = tx, code_size = k\<rparr>\<rparr>" "j = i + 1"
    using assms by (auto elim!: load_Inr)
  then obtain n where n: "announced txt = Some n" "u32_of n = Inr k"
    by (auto simp: load_header_def announced_def bindR_eq_Inr split: list.splits prod.splits)
  then have k: "k = of_int n" "\<bar>n\<bar> < 2 ^ 32" by (auto simp: u32_of_def split: if_splits)
  have len: "length tx = unat k" using load_code_ok [OF assms(2)] l(2) by (simp add: code_ok_def)
  have m: "int (length tx) = n mod 2 ^ 32" unfolding len by (simp add: k(1) uint_word_of_int)
  have "uint q < n mod 2 ^ 32 \<longleftrightarrow> unat q < length tx" for q :: u32
    unfolding m [symmetric] by (metis of_nat_less_iff uint_nat)
  then have f: "fetch (pr\<lparr>pc := q\<rparr>) = (if uint q < n mod 2 ^ 32 then Inr (code_text (code pr) ! unat q) else Inl Out_of_bounds)" for q
    using l(2) by (simp add: fetch_def get_at_def)
  show ?thesis using l(2,3) n(1) k m f by simp
qed

text \<open>A process of two instructions.\<close>

theorem load_code_fetches_witness:
  "\<exists>pr. load (\<lambda>_. Some (''1 2'' @ newline # ''calc'' @ newline # ''free 4'' @ [newline])) (small_pcb 0 []) (\<lambda>_. nop) 5 ''p0'' = Inr (pr, 6)
     \<and> code_size (code pr) = 2 \<and> length (code_text (code pr)) = 2
     \<and> fetch (pr\<lparr>pc := 1\<rparr>) = Inr (nop\<lparr>opcode := FREE, arg_0 := 4\<rparr>) \<and> fetch (pr\<lparr>pc := 2\<rparr>) = Inl Out_of_bounds"
proof -
  let ?txt = "''1 2'' @ newline # ''calc'' @ newline # ''free 4'' @ [newline]"
  let ?pr = "(small_pcb 0 [])\<lparr>pid := 5, pc := 0, priority := 1,
      code := \<lparr>code_text = [nop, nop\<lparr>opcode := FREE, arg_0 := 4\<rparr>], code_size = 2\<rparr>\<rparr>"
  have l: "load (\<lambda>_. Some ?txt) (small_pcb 0 []) (\<lambda>_. nop) 5 ''p0'' = Inr (?pr, 6)" by code_simp
  from load_code_fetches [OF refl l] have f: "fetch (?pr\<lparr>pc := 1\<rparr>) = Inr (nop\<lparr>opcode := FREE, arg_0 := 4\<rparr>)"
      "fetch (?pr\<lparr>pc := 2\<rparr>) = Inl Out_of_bounds" by auto
  show ?thesis using l f by (intro exI [of _ ?pr]) simp
qed

text \<open>C22: Errors while reading: the first word that is no opcode, after any number of well-formed
  instructions, ends the simulator with that word, and a word of 32 or more characters
  overruns the buffer \<open>opcode\<close> before it is looked at.\<close>

theorem load_bad_opcode:
  assumes "fs path = Some (describe p n is @ w @ newline # r)" and "length is < n" and "n < 2 ^ 32"
    and "w \<noteq> []" and "\<forall>c \<in> set w. \<not> is_space c" and "get_opcode w = Inl e"
  shows "load fs raw mem i path = Inl (if 32 \<le> length w then Undefined else e)"
proof -
  let ?st = "\<lparr>s_file = newline # concat (map print_inst is) @ w @ newline # r, s_opcode = None, s_buf = None\<rparr>"
  have n: "unat (of_nat n :: u32) = n" using assms(3) by (rule unat_of_nat_u32)
  obtain st1 where 1: "load_loop (map mem [0..<length is]) ?st = Inr (map2 loaded (map mem [0..<length is]) is, st1)"
    "skip_space (s_file st1) = skip_space (w @ newline # r)"
    using load_loop_print [of ?st "is" "w @ newline # r" "map mem [0..<length is]"] by auto
  have w: "scan_word (s_file st1) = (Some w, newline # r)"
    using scan_word_cong [OF 1(2)] scan_word_word [of w "newline # r"] assms(4,5) by simp
  have "load_inst m st1 = Inl (if 32 \<le> length w then Undefined else e)" for m
    using assms(6) by (simp add: load_inst_def w Let_def)
  moreover have "[0..<n] = [0..<length is] @ length is # [Suc (length is)..<n]"
    using assms(2) by (metis le_add1 le_add_same_cancel1 less_imp_le_nat upt_add_eq_append upt_conv_Cons le_iff_add zero_le)
  ultimately have "load_loop (map mem [0..<n]) ?st = Inl (if 32 \<le> length w then Undefined else e)"
    using 1(1) by (simp add: load_loop_append)
  then show ?thesis
    using assms(1,3) n by (simp add: load_def describe_def load_header_print Let_def)
qed

theorem load_bad_opcode_witness:
  "load (\<lambda>_. Some (describe 0 1 [] @ ''halt'' @ newline # [])) (small_pcb 0 []) (\<lambda>_. nop) 1 ''p0''
     = Inl (Exit_opcode ''halt'')"
proof -
  have "get_opcode ''halt'' = Inl (Exit_opcode ''halt'')" by (simp add: get_opcode_def c_str_def)
  then show ?thesis
    using load_bad_opcode [of "\<lambda>_. Some (describe 0 1 [] @ ''halt'' @ newline # [])" "''p0''" 0 1 "[]" "''halt''" "[]"]
    by (simp add: is_space_def)
qed

end
