(* ===== verification/OS_Config.thy ===== *)
theory OS_Config
  imports OS_Scan
begin

text \<open>
  \<open>read_config\<close> of \<open>os.c\<close>: the configuration file gives time slot, number of CPUs and number of
  processes, optionally a line with the sizes of RAM and swap, and one line per process with start
  time, file name and priority.  The file is the argument \<open>desc\<close>; \<open>prio0\<close> is what the array of
  priorities held before.
\<close>

section \<open>State\<close>

definition PAGING_MAX_MMSWP :: nat where
  "PAGING_MAX_MMSWP = 4"

record ld_proc =
  ld_path :: string
  ld_start :: u64
  ld_prio :: u64

record config_t =
  time_slot :: int
  num_cpus :: int
  num_processes :: int
  memramsz :: u64
  memswpsz :: "u64 list"
  ld_processes :: "ld_proc list"

definition zero_config :: config_t where
  "zero_config = \<lparr>time_slot = 0, num_cpus = 0, num_processes = 0, memramsz = 0,
     memswpsz = replicate PAGING_MAX_MMSWP 0, ld_processes = []\<rparr>"

section \<open>Reading\<close>

text \<open>The first line; numbers that are missing leave the statics at 0.\<close>

definition read_counts :: "config_t \<Rightarrow> string \<Rightarrow> load_error + config_t \<times> string" where
  "read_counts cf s =
     (let (vs, r) = scan_line 3 s
      in if list_all (\<lambda>v. - (2 ^ 31) \<le> v \<and> v < 2 ^ 31) vs
         then Inr (case vs of
             [] \<Rightarrow> cf
           | [a] \<Rightarrow> cf\<lparr>time_slot := a\<rparr>
           | [a, b] \<Rightarrow> cf\<lparr>time_slot := a, num_cpus := b\<rparr>
           | a # b # c # _ \<Rightarrow> cf\<lparr>time_slot := a, num_cpus := b, num_processes := c\<rparr>, r)
         else Inl Undefined)"

text \<open>The memory line: if it has not five numbers, it is read again as the first process and the
  default sizes apply.  \<open>fgets\<close> fails at the end of the file and leaves \<open>line\<close> indeterminate.\<close>

definition read_memory :: "config_t \<Rightarrow> string \<Rightarrow> load_error + config_t \<times> string" where
  "read_memory cf s =
     (case fgets 256 s of
        (None, _) \<Rightarrow> Inl Undefined
      | (Some line, r) \<Rightarrow>
          bindR (u64s_of (fst (scan_nums 5 (c_str line)))) (\<lambda>vs.
          Inr (case vs of
              [a, b, c, d, e] \<Rightarrow>
                (cf\<lparr>memramsz := a, memswpsz := [b, c, d, e] @ replicate (PAGING_MAX_MMSWP - 4) 0\<rparr>, r)
            | _ \<Rightarrow>
                (cf\<lparr>memramsz := 16777216, memswpsz := 16777216 # replicate (PAGING_MAX_MMSWP - 1) 0\<rparr>, s))))"

text \<open>One process line.  \<open>proc\<close> and \<open>path\<close> are arrays of 100 characters.\<close>

definition read_proc :: "u64 \<Rightarrow> string \<Rightarrow> load_error + ld_proc \<times> string" where
  "read_proc prio0 s =
     (case scan_num s of
        (None, _) \<Rightarrow> Inl Undefined
      | (Some t, r1) \<Rightarrow>
          bindR (u64_of t) (\<lambda>t.
          case scan_word r1 of
            (None, _) \<Rightarrow> Inl Undefined
          | (Some w, r2) \<Rightarrow>
              if 100 \<le> length w \<or> 100 \<le> length (''input/proc/'' @ c_str w) then Inl Undefined
              else (case scan_num r2 of
                  (None, r3) \<Rightarrow> Inr (\<lparr>ld_path = ''input/proc/'' @ c_str w, ld_start = t, ld_prio = prio0\<rparr>, r3)
                | (Some p, r3) \<Rightarrow>
                    bindR (u64_of p) (\<lambda>p.
                    Inr (\<lparr>ld_path = ''input/proc/'' @ c_str w, ld_start = t, ld_prio = p\<rparr>, skip_space r3)))))"

fun read_procs :: "(nat \<Rightarrow> u64) \<Rightarrow> nat \<Rightarrow> nat \<Rightarrow> string \<Rightarrow> load_error + ld_proc list" where
  "read_procs prio0 i 0 s = Inr []"
| "read_procs prio0 i (Suc k) s =
     bindR (read_proc (prio0 i) s) (\<lambda>(pr, r).
     bindR (read_procs prio0 (Suc i) k r) (\<lambda>prs. Inr (pr # prs)))"

definition read_config :: "string option \<Rightarrow> (nat \<Rightarrow> u64) \<Rightarrow> load_error + config_t" where
  "read_config desc prio0 =
     (case desc of
        None \<Rightarrow> Inl Exit_no_file
      | Some s \<Rightarrow>
          bindR (read_counts zero_config s) (\<lambda>(cf, r).
          bindR (read_memory cf r) (\<lambda>(cf, r).
          bindR (read_procs prio0 0 (nat (num_processes cf)) r) (\<lambda>prs.
          Inr (cf\<lparr>ld_processes := prs\<rparr>)))))"

section \<open>Printing a configuration\<close>

definition proc_line :: "u64 \<times> string \<times> u64 \<Rightarrow> string" where
  "proc_line = (\<lambda>(t, w, p). dec (unat t) @ CHR 0x20 # w @ CHR 0x20 # dec (unat p) @ [newline])"

definition mem_line :: "u64 list \<Rightarrow> string" where
  "mem_line ms = dec (unat (hd ms)) @ args_str (map unat (tl ms)) @ [newline]"

definition print_config :: "nat \<Rightarrow> nat \<Rightarrow> u64 list option \<Rightarrow> (u64 \<times> string \<times> u64) list \<Rightarrow> string" where
  "print_config ts cpus mem prs =
     dec ts @ CHR 0x20 # dec cpus @ CHR 0x20 # dec (length prs) @ newline #
     (case mem of None \<Rightarrow> [] | Some ms \<Rightarrow> mem_line ms) @ concat (map proc_line prs)"

definition file_name :: "string \<Rightarrow> bool" where
  "file_name w \<longleftrightarrow> w \<noteq> [] \<and> length w < 89 \<and> (\<forall>c \<in> set w. \<not> is_space c \<and> c \<noteq> CHR 0x00)"

definition ld_of :: "u64 \<times> string \<times> u64 \<Rightarrow> ld_proc" where
  "ld_of = (\<lambda>(t, w, p). \<lparr>ld_path = ''input/proc/'' @ w, ld_start = t, ld_prio = p\<rparr>)"

section \<open>Reading what was printed\<close>

lemma u64_of_unat [simp]: "u64_of (uint u) = Inr u"
proof -
  have "\<bar>uint u\<bar> < 2 ^ 64" using uint_bounded [of u] by simp
  then show ?thesis by (simp add: u64_of_def)
qed

lemma scan_num_skip [simp]: "scan_num (skip_space s) = scan_num s"
  by (simp add: scan_num_def skip_space_def dropWhile_idem)

lemma scan_num_cong: "skip_space s = skip_space t \<Longrightarrow> scan_num s = scan_num t"
  by (metis scan_num_skip)

lemma read_proc_line:
  assumes "skip_space s = skip_space (proc_line x @ r)" and "file_name (fst (snd x))"
  shows "read_proc p0 s = Inr (ld_of x, skip_space r)"
proof -
  obtain t w p where x: "x = (t, w, p)" by (cases x)
  have n: "scan_num s = (Some (uint t), CHR 0x20 # w @ CHR 0x20 # dec (unat p) @ newline # r)"
    using scan_num_cong [OF assms(1)] by (simp add: x proc_line_def)
  have w: "w \<noteq> []" "length w < 89" "\<And>c. c \<in> set w \<Longrightarrow> \<not> is_space c" "c_str w = w"
    using assms(2) by (auto simp: x file_name_def intro: c_str_id)
  have "scan_word (w @ CHR 0x20 # dec (unat p) @ newline # r) = (Some w, CHR 0x20 # dec (unat p) @ newline # r)"
    by (rule scan_word_word) (use w in simp_all)
  then show ?thesis using w by (simp add: read_proc_def n x ld_of_def)
qed

text \<open>Lines after the announced number of processes are not read.\<close>

lemma read_procs_rest:
  "skip_space s = skip_space (concat (map proc_line prs) @ r) \<Longrightarrow> \<forall>x \<in> set prs. file_name (fst (snd x))
   \<Longrightarrow> read_procs prio0 i (length prs) s = Inr (map ld_of prs)"
proof (induction prs arbitrary: s i)
  case (Cons x prs)
  have "read_proc (prio0 i) s = Inr (ld_of x, skip_space (concat (map proc_line prs) @ r))"
    using Cons.prems by (intro read_proc_line) simp_all
  moreover have "read_procs prio0 (Suc i) (length prs) (skip_space (concat (map proc_line prs) @ r)) = Inr (map ld_of prs)"
    using Cons.prems(2) by (intro Cons.IH) (simp_all add: skip_space_def dropWhile_idem)
  ultimately show ?case by simp
qed simp

lemma dec_u64_length: "length (dec (unat (u :: u64))) \<le> 20"
proof -
  have "unat u < 2 ^ 64" using unsigned_less [of u] by simp
  then have "unat u < 10 ^ 20" by simp
  then show ?thesis by (intro length_dec) simp_all
qed

lemma dec_no: "\<not> is_digit c \<Longrightarrow> c \<notin> set (dec n)"
  using dec_digits by blast

lemma skip_space_concat:
  "skip_space (concat (map proc_line prs)) = concat (map proc_line prs)"
  by (cases prs) (auto simp: proc_line_def)

lemma skip_space_mem: "skip_space (mem_line ms @ r) = mem_line ms @ r"
  by (simp add: mem_line_def)

lemma read_counts_print:
  assumes "ts < 2 ^ 31" and "cpus < 2 ^ 31" and "n < 2 ^ 31"
  shows "read_counts cf (dec ts @ CHR 0x20 # dec cpus @ CHR 0x20 # dec n @ newline # r)
    = Inr (cf\<lparr>time_slot := int ts, num_cpus := int cpus, num_processes := int n\<rparr>, skip_space r)"
  using assms by (simp add: read_counts_def scan_line_def numeral_3_eq_3)

lemma read_memory_line:
  assumes "length ms = 5"
  shows "read_memory cf (mem_line ms @ r) = Inr (cf\<lparr>memramsz := hd ms, memswpsz := tl ms\<rparr>, r)"
proof -
  obtain a b c d e where ms: "ms = [a, b, c, d, e]" using assms by (auto simp: length_Suc_conv numeral_eq_Suc)
  let ?l = "dec (unat a) @ args_str (map unat [b, c, d, e])"
  have "length ?l < 255" using dec_u64_length [of a] dec_u64_length [of b] dec_u64_length [of c]
      dec_u64_length [of d] dec_u64_length [of e] by simp
  moreover have no: "newline \<notin> set ?l" "CHR 0x00 \<notin> set ?l"
    by (simp_all add: newline_def is_digit_def dec_no)
  ultimately have g: "fgets 256 (?l @ newline # r) = (Some (?l @ [newline]), r)"
    by (intro fgets_line) simp_all
  have c: "c_str (?l @ [newline]) = ?l @ [newline]" using no by (intro c_str_id) (simp add: newline_def)
  have n: "fst (scan_nums 5 (?l @ [newline])) = map uint [a, b, c, d, e]"
    by (simp add: numeral_eq_Suc)
  have "read_memory cf (?l @ newline # r) = Inr (cf\<lparr>memramsz := a,
      memswpsz := [b, c, d, e] @ replicate (PAGING_MAX_MMSWP - 4) 0\<rparr>, r)"
    by (simp only: read_memory_def g c n u64s_of_unat prod.case option.case) simp
  then have "read_memory cf (?l @ newline # r) = Inr (cf\<lparr>memramsz := a, memswpsz := [b, c, d, e]\<rparr>, r)"
    by (simp add: PAGING_MAX_MMSWP_def)
  then show ?thesis by (simp add: ms mem_line_def)
qed

text \<open>Without a memory line, the line read is that of the first process: its name does not start
  like a number, so only one conversion succeeds.\<close>

definition plain_name :: "string \<Rightarrow> bool" where
  "plain_name w \<longleftrightarrow> file_name w \<and> \<not> is_digit (hd w) \<and> hd w \<notin> {CHR ''+'', CHR ''-''}"

lemma scan_num_name:
  assumes "plain_name w"
  shows "fst (scan_num (w @ r)) = None"
proof -
  obtain c w' where w: "w = c # w'" using assms by (cases w) (auto simp: plain_name_def file_name_def)
  then have "\<not> is_space c" "\<not> is_digit c" "c \<noteq> CHR ''+''" "c \<noteq> CHR ''-''"
    using assms by (auto simp: plain_name_def file_name_def)
  then show ?thesis by (simp add: w scan_num_def skip_space_def)
qed

lemma read_memory_default:
  assumes "plain_name (fst (snd x))"
  shows "read_memory cf (proc_line x @ r)
    = Inr (cf\<lparr>memramsz := 16777216, memswpsz := [16777216, 0, 0, 0]\<rparr>, proc_line x @ r)"
proof -
  obtain t w p where x: "x = (t, w, p)" by (cases x)
  let ?l = "dec (unat t) @ CHR 0x20 # w @ CHR 0x20 # dec (unat p)"
  have w: "length w < 89" "newline \<notin> set w" "CHR 0x00 \<notin> set w"
    using assms by (auto simp: x plain_name_def file_name_def newline_def is_space_def)
  have no: "newline \<notin> set ?l" "CHR 0x00 \<notin> set ?l"
    using w by (auto simp: newline_def is_digit_def dec_no)
  have "length ?l < 256 - 1" using w dec_u64_length [of t] dec_u64_length [of p] by simp
  then have g: "fgets 256 (?l @ newline # r) = (Some (?l @ [newline]), r)" using no by (intro fgets_line) simp_all
  have c: "c_str (?l @ [newline]) = ?l @ [newline]" using no by (intro c_str_id) (simp add: newline_def)
  obtain z where "scan_num (w @ CHR 0x20 # dec (unat p) @ [newline]) = (None, z)"
    using scan_num_name [of w] assms by (metis fst_conv snd_conv x prod.collapse)
  then have n: "fst (scan_nums 5 (?l @ [newline])) = [uint t]" by (simp add: numeral_eq_Suc)
  have "read_memory cf (?l @ newline # r) = Inr (cf\<lparr>memramsz := 16777216,
      memswpsz := 16777216 # replicate (PAGING_MAX_MMSWP - 1) 0\<rparr>, ?l @ newline # r)"
    using u64s_of_unat [of "[t]"] by (simp only: read_memory_def g c n prod.case option.case) simp
  then show ?thesis by (simp add: x proc_line_def PAGING_MAX_MMSWP_def numeral_eq_Suc)
qed

lemma read_config_print:
  assumes "ts < 2 ^ 31" and "cpus < 2 ^ 31" and "length prs < 2 ^ 31"
    and "\<forall>x \<in> set prs. file_name (fst (snd x))"
    and "case mem of Some ms \<Rightarrow> length ms = 5 | None \<Rightarrow> prs \<noteq> [] \<and> plain_name (fst (snd (hd prs)))"
  shows "read_config (Some (print_config ts cpus mem prs)) prio0 = Inr
    \<lparr>time_slot = int ts, num_cpus = int cpus, num_processes = int (length prs),
     memramsz = (case mem of Some ms \<Rightarrow> hd ms | None \<Rightarrow> 16777216),
     memswpsz = (case mem of Some ms \<Rightarrow> tl ms | None \<Rightarrow> [16777216, 0, 0, 0]),
     ld_processes = map ld_of prs\<rparr>"
proof -
  let ?ps = "concat (map proc_line prs)"
  have procs: "read_procs prio0 0 (length prs) ?ps = Inr (map ld_of prs)"
    using assms(4) by (intro read_procs_rest [where r = "[]"]) simp_all
  show ?thesis
  proof (cases mem)
    case None
    then obtain x xs where prs: "prs = x # xs" and x: "plain_name (fst (snd x))"
      using assms(5) by (cases prs) auto
    have "read_memory cf ?ps = Inr (cf\<lparr>memramsz := 16777216, memswpsz := [16777216, 0, 0, 0]\<rparr>, ?ps)" for cf
      using read_memory_default [OF x, of cf "concat (map proc_line xs)"] by (simp add: prs)
    then show ?thesis using assms(1-3) procs None
      by (simp add: read_config_def print_config_def read_counts_print skip_space_concat zero_config_def)
  next
    case (Some ms)
    then show ?thesis using assms(1-3,5) procs
      by (simp add: read_config_def print_config_def read_counts_print skip_space_mem read_memory_line zero_config_def)
  qed
qed

section \<open>Properties\<close>

text \<open>C20: Reading a printed configuration gives its contents back: time slot, number of CPUs, the processes
  in their order with start time, path below \<open>input/proc/\<close> and priority, and the memory sizes;
  when the memory line is left out, the sizes are 16 MB of RAM and 16 MB of swap, and the
  first process line is not lost although it was read as the memory line.\<close>

theorem read_config_roundtrip:
  assumes "ts < 2 ^ 31" and "cpus < 2 ^ 31" and "length prs < 2 ^ 31"
    and "\<forall>x \<in> set prs. file_name (fst (snd x))"
    and "case mem of Some ms \<Rightarrow> length ms = 5 | None \<Rightarrow> prs \<noteq> [] \<and> plain_name (fst (snd (hd prs)))"
  shows "read_config (Some (print_config ts cpus mem prs)) prio0 = Inr
    \<lparr>time_slot = int ts, num_cpus = int cpus, num_processes = int (length prs),
     memramsz = (case mem of Some ms \<Rightarrow> hd ms | None \<Rightarrow> 16777216),
     memswpsz = (case mem of Some ms \<Rightarrow> tl ms | None \<Rightarrow> [16777216, 0, 0, 0]),
     ld_processes = map ld_of prs\<rparr>"
  using assms by (rule read_config_print)

theorem read_config_roundtrip_witness:
  "read_config (Some (print_config 2 1 (Some [2048, 16777216, 0, 0, 0]) [(1, ''sc2'', 15)])) (\<lambda>_. 0)
     = Inr \<lparr>time_slot = 2, num_cpus = 1, num_processes = 1, memramsz = 2048, memswpsz = [16777216, 0, 0, 0],
            ld_processes = [\<lparr>ld_path = ''input/proc/sc2'', ld_start = 1, ld_prio = 15\<rparr>]\<rparr>
   \<and> (\<exists>cf. read_config (Some (print_config 2 1 None [(1, ''sc2'', 15)])) (\<lambda>_. 0) = Inr cf
        \<and> memramsz cf = 16777216)"
proof -
  have p: "plain_name ''sc2''" by (simp add: plain_name_def file_name_def is_space_def is_digit_def)
  then have f: "file_name ''sc2''" by (simp add: plain_name_def)
  note r = read_config_roundtrip [of 2 1 "[(1, ''sc2'', 15)]"]
  show ?thesis
    using r [of "Some [2048, 16777216, 0, 0, 0]" "\<lambda>_. 0"] r [of None "\<lambda>_. 0"] p f
    by (simp add: ld_of_def)
qed

end
