(* ===== verification/OS_System.thy ===== *)
theory OS_System
  imports OS_Timer OS_Loader OS_Config
begin

text \<open>
  The program as a whole (\<open>os.c\<close>): \<open>main\<close> sets up timer, devices and scheduler and starts one thread per
  CPU (\<open>cpu_routine\<close>) and the loader (\<open>ld_routine\<close>), which share the kernel state, the flag \<open>done\<close> and
  the timer.  Each routine is a machine whose phases are the points between its calls;
  \<open>sys_step\<close> interleaves one step of one thread at a time.  A call into scheduler or timer,
  an access to the shared pointer \<open>krnl->mm\<close> and the execution of one instruction are one step each.
  A fault or an \<open>exit(1)\<close> of the loader has no step: the theorems speak of the states reached without
  one.
\<close>

section \<open>CPU threads\<close>

datatype cpu_phase = C_check | C_idle | C_get | C_recheck | C_switch | C_run | C_slot | C_wait | C_detach | C_exit

record cpu_t =
  cpu_proc :: "pcb_ref option"
  time_left :: int
  cpu_at :: cpu_phase

definition cpu_start :: cpu_t where
  "cpu_start = \<lparr>cpu_proc = None, time_left = 0, cpu_at = C_check\<rparr>"

text \<open>The status check at the top of the loop, up to and including its first scheduler call.\<close>

definition cpu_check :: "os_t \<Rightarrow> cpu_t \<Rightarrow> fault + os_t \<times> cpu_t" where
  "cpu_check s c =
     (case cpu_proc c of
        None \<Rightarrow>
          let (p, s) = k_get_proc s
          in Inr (s, c\<lparr>cpu_proc := p, cpu_at := if p = None then C_idle else C_recheck\<rparr>)
      | Some p \<Rightarrow>
          if pc (pcbs s ! p) = code_size (code (pcbs s ! p))
          then Inr (k_remove_proc s p, c\<lparr>time_left := 0, cpu_at := C_get\<rparr>)
          else if time_left c = 0
          then bindR (k_put_proc s p) (\<lambda>s. Inr (s, c\<lparr>cpu_at := C_get\<rparr>))
          else Inr (s, c\<lparr>cpu_at := C_recheck\<rparr>))"

text \<open>No process came: leave when \<open>done\<close> is set, else skip the slot.\<close>

definition cpu_idle :: "bool \<Rightarrow> cpu_t \<Rightarrow> cpu_t" where
  "cpu_idle fin c = c\<lparr>cpu_at := if fin then C_detach else C_slot\<rparr>"

text \<open>\<open>proc = get_proc()\<close> after the old process was removed or put back.\<close>

definition cpu_get :: "os_t \<Rightarrow> cpu_t \<Rightarrow> os_t \<times> cpu_t" where
  "cpu_get s c = (let (p, s) = k_get_proc s in (s, c\<lparr>cpu_proc := p, cpu_at := C_recheck\<rparr>))"

definition cpu_recheck :: "config_t \<Rightarrow> bool \<Rightarrow> cpu_t \<Rightarrow> cpu_t" where
  "cpu_recheck cf fin c =
     (if cpu_proc c = None then c\<lparr>cpu_at := if fin then C_detach else C_slot\<rparr>
      else c\<lparr>time_left := if time_left c = 0 then time_slot cf else time_left c, cpu_at := C_switch\<rparr>)"

text \<open>\<open>krnl->mm\<close>, which all threads share, is pointed to the memory of the process; the instruction is a
  step of its own, so another thread may move the pointer in between.\<close>

definition cpu_switch :: "os_t \<Rightarrow> cpu_t \<Rightarrow> fault + os_t \<times> cpu_t" where
  "cpu_switch s c =
     bindR (deref (cpu_proc c)) (\<lambda>p.
     Inr (case pcb_mm (pcbs s ! p) of None \<Rightarrow> s | Some m \<Rightarrow> s\<lparr>k_mm := Some m\<rparr>, c\<lparr>cpu_at := C_run\<rparr>))"

definition cpu_run :: "u8 \<Rightarrow> os_t \<Rightarrow> cpu_t \<Rightarrow> fault + os_t \<times> cpu_t" where
  "cpu_run data0 s c =
     bindR (deref (cpu_proc c)) (\<lambda>p.
     bindR (run data0 s p) (\<lambda>(_, s). Inr (s, c\<lparr>time_left := time_left c - 1, cpu_at := C_slot\<rparr>)))"

text \<open>One step of \<open>cpu_routine\<close> outside the timer; \<open>None\<close> in the phases that call the timer.\<close>

definition cpu_routine :: "config_t \<Rightarrow> bool \<Rightarrow> u8 \<Rightarrow> os_t \<Rightarrow> cpu_t \<Rightarrow> (fault + os_t \<times> cpu_t) option" where
  "cpu_routine cf fin data0 s c =
     (case cpu_at c of
        C_check \<Rightarrow> Some (cpu_check s c)
      | C_idle \<Rightarrow> Some (Inr (s, cpu_idle fin c))
      | C_get \<Rightarrow> Some (Inr (cpu_get s c))
      | C_recheck \<Rightarrow> Some (Inr (s, cpu_recheck cf fin c))
      | C_switch \<Rightarrow> Some (cpu_switch s c)
      | C_run \<Rightarrow> Some (cpu_run data0 s c)
      | _ \<Rightarrow> None)"

section \<open>The loader thread\<close>

datatype ld_phase = L_load | L_time | L_tslot | L_twait | L_init | L_mm | L_own | L_add | L_slot | L_wait
  | L_detach | L_exit

record ld_t =
  ld_i :: nat
  ld_cur :: pcb_ref
  ld_at :: ld_phase

definition ld_begin :: ld_t where
  "ld_begin = \<lparr>ld_i = 0, ld_cur = 0, ld_at = L_load\<rparr>"

text \<open>The loop test and \<open>load\<close>: the new control block gets the priority of the configuration.
  \<open>raw\<close> and \<open>mem\<close> are the contents of allocated memory.\<close>

definition ld_load ::
  "config_t \<Rightarrow> (string \<Rightarrow> string option) \<Rightarrow> pcb_t \<Rightarrow> (nat \<Rightarrow> inst_t) \<Rightarrow> u32 \<Rightarrow> os_t \<Rightarrow> ld_t
   \<Rightarrow> load_error + os_t \<times> u32 \<times> ld_t" where
  "ld_load cf fs raw mem avail s l =
     (let ld = ld_processes cf ! ld_i l
      in bindR (load fs raw mem avail (ld_path ld)) (\<lambda>(pr, avail).
         Inr (s\<lparr>pcbs := pcbs s @ [pr\<lparr>prio := ucast (ld_prio ld)\<rparr>]\<rparr>, avail,
              l\<lparr>ld_cur := length (pcbs s), ld_at := L_time\<rparr>)))"

definition ld_time :: "config_t \<Rightarrow> u64 \<Rightarrow> ld_t \<Rightarrow> ld_t" where
  "ld_time cf now l = l\<lparr>ld_at := if now < ld_start (ld_processes cf ! ld_i l) then L_tslot else L_init\<rparr>"

text \<open>The new process gets its \<open>mm_struct\<close> (on top of the memory \<open>mm0\<close>) by way of \<open>krnl->mm\<close>, in three steps:
  \<open>krnl->mm = malloc(...)\<close>, \<open>init_mm(krnl->mm, proc)\<close>, and \<open>proc->own_mm = krnl->mm\<close> with the assignments of
  RAM and swap (devices 0 and 1 of \<open>main\<close>).  A CPU may point \<open>krnl->mm\<close> elsewhere in between.\<close>

definition ld_init :: "mm \<Rightarrow> os_t \<Rightarrow> ld_t \<Rightarrow> os_t \<times> ld_t" where
  "ld_init mm0 s l = (s\<lparr>mms := mms s @ [mm0], k_mm := Some (length (mms s))\<rparr>, l\<lparr>ld_at := L_mm\<rparr>)"

definition ld_mm :: "os_t \<Rightarrow> ld_t \<Rightarrow> fault + os_t \<times> ld_t" where
  "ld_mm s l =
     bindR (deref (k_mm s)) (\<lambda>m.
     Inr (s\<lparr>mms := (mms s)[m := init_mm (mms s ! m)]\<rparr>, l\<lparr>ld_at := L_own\<rparr>))"

definition ld_own :: "os_t \<Rightarrow> ld_t \<Rightarrow> os_t \<times> ld_t" where
  "ld_own s l =
     (s\<lparr>pcbs := (pcbs s)[ld_cur l := (pcbs s ! ld_cur l)\<lparr>pcb_mm := k_mm s\<rparr>],
        k_mram := Some 0, k_active_mswp := Some 1\<rparr>,
      l\<lparr>ld_at := L_add\<rparr>)"

definition ld_setup :: "mm \<Rightarrow> os_t \<Rightarrow> ld_t \<Rightarrow> (fault + os_t \<times> ld_t) option" where
  "ld_setup mm0 s l =
     (case ld_at l of
        L_init \<Rightarrow> Some (Inr (ld_init mm0 s l))
      | L_mm \<Rightarrow> Some (ld_mm s l)
      | L_own \<Rightarrow> Some (Inr (ld_own s l))
      | _ \<Rightarrow> None)"

definition ld_add :: "os_t \<Rightarrow> ld_t \<Rightarrow> fault + os_t \<times> ld_t" where
  "ld_add s l =
     bindR (k_add_proc s (ld_cur l)) (\<lambda>s. Inr (s, l\<lparr>ld_i := ld_i l + 1, ld_at := L_slot\<rparr>))"

section \<open>The system\<close>

text \<open>\<open>main\<close> joins the CPU threads and the loader, stops the timer and joins its thread, and returns.\<close>

datatype main_phase = M_join | M_stop | M_return

record sys_t =
  s_os :: os_t
  s_timer :: timer_t
  s_cpus :: "cpu_t list"
  s_ld :: ld_t
  s_done :: bool
  s_pid :: u32
  s_main :: main_phase

text \<open>\<open>attach_event\<close> puts a device at the head of the list, so the loader, attached last, is device 0 and
  CPU \<open>i\<close> of \<open>n\<close> is device \<open>n - i\<close>.\<close>

definition dev_of :: "sys_t \<Rightarrow> nat \<Rightarrow> nat" where
  "dev_of S i = length (s_cpus S) - i"

text \<open>\<open>main\<close> up to the creation of the threads; \<open>mp0\<close> is the uninitialised device memory.\<close>

definition main_init :: "config_t \<Rightarrow> memphy \<Rightarrow> sys_t" where
  "main_init cf mp0 =
     \<lparr>s_os = \<lparr>pcbs = [], mms = [],
        devs = map (\<lambda>sz. snd (init_memphy mp0 sz 1)) (memramsz cf # memswpsz cf),
        k_mm = None, k_mram = None, k_active_mswp = None, k_running = False,
        sched = init_scheduler zero_sched\<rparr>,
      s_timer = started (Suc (nat (num_cpus cf))),
      s_cpus = replicate (nat (num_cpus cf)) cpu_start,
      s_ld = ld_begin, s_done = False, s_pid = 1, s_main = M_join\<rparr>"

definition set_cpu :: "sys_t \<Rightarrow> nat \<Rightarrow> cpu_t \<Rightarrow> sys_t" where
  "set_cpu S i c = S\<lparr>s_cpus := (s_cpus S)[i := c]\<rparr>"

text \<open>The steps.  The memory that \<open>malloc\<close> returns (\<open>raw\<close>, \<open>mem\<close>, \<open>mm0\<close>) and the indeterminate byte \<open>data0\<close> are
  arbitrary.\<close>

inductive sys_step :: "config_t \<Rightarrow> (string \<Rightarrow> string option) \<Rightarrow> sys_t \<Rightarrow> sys_t \<Rightarrow> bool" for cf fs where
  cpu: "i < length (s_cpus S) \<Longrightarrow> cpu_routine cf (s_done S) data0 (s_os S) (s_cpus S ! i) = Some (Inr (s, c))
    \<Longrightarrow> sys_step cf fs S (set_cpu (S\<lparr>s_os := s\<rparr>) i c)"
| cpu_slot: "i < length (s_cpus S) \<Longrightarrow> cpu_at (s_cpus S ! i) = C_slot
    \<Longrightarrow> next_slot_enter (s_timer S) (dev_of S i) = Some t
    \<Longrightarrow> sys_step cf fs S (set_cpu (S\<lparr>s_timer := t\<rparr>) i ((s_cpus S ! i)\<lparr>cpu_at := C_wait\<rparr>))"
| cpu_wait: "i < length (s_cpus S) \<Longrightarrow> cpu_at (s_cpus S ! i) = C_wait
    \<Longrightarrow> next_slot_leave (s_timer S) (dev_of S i) = Some t
    \<Longrightarrow> sys_step cf fs S (set_cpu (S\<lparr>s_timer := t\<rparr>) i ((s_cpus S ! i)\<lparr>cpu_at := C_check\<rparr>))"
| cpu_detach: "i < length (s_cpus S) \<Longrightarrow> cpu_at (s_cpus S ! i) = C_detach
    \<Longrightarrow> detach_event (s_timer S) (dev_of S i) = Some t
    \<Longrightarrow> sys_step cf fs S (set_cpu (S\<lparr>s_timer := t\<rparr>) i ((s_cpus S ! i)\<lparr>cpu_at := C_exit\<rparr>))"
| load: "ld_at (s_ld S) = L_load \<Longrightarrow> int (ld_i (s_ld S)) < num_processes cf
    \<Longrightarrow> ld_load cf fs raw mem (s_pid S) (s_os S) (s_ld S) = Inr (s, avail, l)
    \<Longrightarrow> sys_step cf fs S (S\<lparr>s_os := s, s_pid := avail, s_ld := l\<rparr>)"
| finish: "ld_at (s_ld S) = L_load \<Longrightarrow> \<not> int (ld_i (s_ld S)) < num_processes cf
    \<Longrightarrow> sys_step cf fs S (S\<lparr>s_done := True, s_ld := (s_ld S)\<lparr>ld_at := L_detach\<rparr>\<rparr>)"
| time: "ld_at (s_ld S) = L_time
    \<Longrightarrow> sys_step cf fs S (S\<lparr>s_ld := ld_time cf (current_time (s_timer S)) (s_ld S)\<rparr>)"
| init_mm: "length (symrgtbl mm0) = PAGING_MAX_SYMTBL_SZ
    \<Longrightarrow> ld_setup mm0 (s_os S) (s_ld S) = Some (Inr (s, l)) \<Longrightarrow> sys_step cf fs S (S\<lparr>s_os := s, s_ld := l\<rparr>)"
| add: "ld_at (s_ld S) = L_add \<Longrightarrow> ld_add (s_os S) (s_ld S) = Inr (s, l)
    \<Longrightarrow> sys_step cf fs S (S\<lparr>s_os := s, s_ld := l\<rparr>)"
| ld_slot: "(ld_at (s_ld S), ph) \<in> {(L_tslot, L_twait), (L_slot, L_wait)}
    \<Longrightarrow> next_slot_enter (s_timer S) 0 = Some t
    \<Longrightarrow> sys_step cf fs S (S\<lparr>s_timer := t, s_ld := (s_ld S)\<lparr>ld_at := ph\<rparr>\<rparr>)"
| ld_wait: "(ld_at (s_ld S), ph) \<in> {(L_twait, L_time), (L_wait, L_load)}
    \<Longrightarrow> next_slot_leave (s_timer S) 0 = Some t
    \<Longrightarrow> sys_step cf fs S (S\<lparr>s_timer := t, s_ld := (s_ld S)\<lparr>ld_at := ph\<rparr>\<rparr>)"
| ld_detach: "ld_at (s_ld S) = L_detach \<Longrightarrow> detach_event (s_timer S) 0 = Some t
    \<Longrightarrow> sys_step cf fs S (S\<lparr>s_timer := t, s_ld := (s_ld S)\<lparr>ld_at := L_exit\<rparr>\<rparr>)"
| timer: "timer_routine (s_timer S) = Some t \<Longrightarrow> sys_step cf fs S (S\<lparr>s_timer := t\<rparr>)"
| stop: "s_main S = M_join \<Longrightarrow> list_all (\<lambda>c. cpu_at c = C_exit) (s_cpus S) \<Longrightarrow> ld_at (s_ld S) = L_exit
    \<Longrightarrow> stop_timer (s_timer S) = Some t \<Longrightarrow> sys_step cf fs S (S\<lparr>s_timer := t, s_main := M_stop\<rparr>)"
| main_return: "s_main S = M_stop \<Longrightarrow> t_phase (s_timer S) = T_exit \<Longrightarrow> sys_step cf fs S (S\<lparr>s_main := M_return\<rparr>)"

inductive_cases sys_stepE: "sys_step cf fs S S'"

inductive sys_reach :: "config_t \<Rightarrow> (string \<Rightarrow> string option) \<Rightarrow> sys_t \<Rightarrow> bool" for cf fs where
  main: "sys_reach cf fs (main_init cf mp0)"
| step: "sys_reach cf fs S \<Longrightarrow> sys_step cf fs S S' \<Longrightarrow> sys_reach cf fs S'"

end
