(* ===== verification/OS_Sim.thy ===== *)
theory OS_Sim
  imports OS_System
begin

text \<open>
  Invariants of the whole program: every thread agrees with its device in the timer; a process is
  in one ready queue or held by one CPU; a process is only lost from both when it has executed all
  its instructions; CPUs leave only when nothing is left to do.  Each part of the invariant is a
  definition with a lemma that every step keeps it.
\<close>

section \<open>Threads and their timer devices\<close>

fun cpu_dev :: "cpu_phase \<Rightarrow> dev_phase" where
  "cpu_dev C_wait = In_next"
| "cpu_dev C_exit = Gone"
| "cpu_dev _ = In_slot"

fun ld_dev :: "ld_phase \<Rightarrow> dev_phase" where
  "ld_dev L_twait = In_next"
| "ld_dev L_wait = In_next"
| "ld_dev L_exit = Gone"
| "ld_dev _ = In_slot"

definition devices :: "sys_t \<Rightarrow> timer_dev list" where
  "devices S = dev_list (s_timer S)"

definition timer_link :: "sys_t \<Rightarrow> bool" where
  "timer_link S \<longleftrightarrow> barrier_ok (s_timer S) \<and> length (devices S) = Suc (length (s_cpus S))
     \<and> dev_phase (devices S ! 0) = ld_dev (ld_at (s_ld S))
     \<and> (\<forall>i < length (s_cpus S). dev_phase (devices S ! dev_of S i) = cpu_dev (cpu_at (s_cpus S ! i)))"

lemma set_cpu_simps [simp]:
  "s_cpus (set_cpu S i c) = (s_cpus S)[i := c]" "s_timer (set_cpu S i c) = s_timer S"
  "s_os (set_cpu S i c) = s_os S" "s_ld (set_cpu S i c) = s_ld S" "s_done (set_cpu S i c) = s_done S"
  "s_pid (set_cpu S i c) = s_pid S" "s_main (set_cpu S i c) = s_main S"
  by (simp_all add: set_cpu_def)

lemma dev_of_simps [simp]:
  "dev_of (set_cpu S i c) j = dev_of S j" "dev_of (S\<lparr>s_timer := t\<rparr>) j = dev_of S j"
  "dev_of (S\<lparr>s_os := s\<rparr>) j = dev_of S j" "dev_of (S\<lparr>s_ld := l\<rparr>) j = dev_of S j"
  "dev_of (S\<lparr>s_done := b\<rparr>) j = dev_of S j" "dev_of (S\<lparr>s_pid := a\<rparr>) j = dev_of S j"
  "dev_of (S\<lparr>s_main := m\<rparr>) j = dev_of S j"
  by (simp_all add: dev_of_def)

lemma devices_simps [simp]:
  "devices (set_cpu S i c) = devices S" "devices (S\<lparr>s_timer := t\<rparr>) = dev_list t"
  "devices (S\<lparr>s_os := s\<rparr>) = devices S" "devices (S\<lparr>s_ld := l\<rparr>) = devices S"
  "devices (S\<lparr>s_done := b\<rparr>) = devices S" "devices (S\<lparr>s_pid := a\<rparr>) = devices S"
  "devices (S\<lparr>s_main := m\<rparr>) = devices S"
  by (simp_all add: devices_def)

lemma dev_of_less: "i < length (s_cpus S) \<Longrightarrow> 0 < dev_of S i \<and> dev_of S i < Suc (length (s_cpus S))"
  by (auto simp: dev_of_def)

lemma dev_of_inj: "i < length (s_cpus S) \<Longrightarrow> j < length (s_cpus S) \<Longrightarrow> dev_of S i = dev_of S j \<longleftrightarrow> i = j"
  by (auto simp: dev_of_def)

text \<open>A call of one device moves that device to the phase the thread goes to, and no other.\<close>

lemma device_call:
  assumes "next_slot_enter t d = Some t' \<and> ph = In_next \<or> next_slot_leave t d = Some t' \<and> ph = In_slot
    \<or> detach_event t d = Some t' \<and> ph = Gone"
  shows "length (dev_list t') = length (dev_list t)" "d < length (dev_list t)" "time_now t' = time_now t"
    "dev_phase (dev_list t' ! e) = (if e = d then ph else dev_phase (dev_list t ! e))"
    "e \<noteq> d \<Longrightarrow> dev_list t' ! e = dev_list t ! e"
    "barrier_ok t \<Longrightarrow> barrier_ok t'"
proof -
  show d: "d < length (dev_list t)"
    using assms by (auto simp: next_slot_enter_def next_slot_leave_def detach_event_def split: if_splits)
  show "length (dev_list t') = length (dev_list t)" "time_now t' = time_now t"
    "dev_phase (dev_list t' ! e) = (if e = d then ph else dev_phase (dev_list t ! e))"
    "e \<noteq> d \<Longrightarrow> dev_list t' ! e = dev_list t ! e"
    using assms d by (auto simp: next_slot_enter_def next_slot_leave_def detach_event_def split: if_splits)
  show "barrier_ok t \<Longrightarrow> barrier_ok t'"
    using assms by (auto intro: barrier_ok_device_step)
qed

lemma timer_thread:
  assumes "timer_routine t = Some t' \<or> stop_timer t = Some t'"
  shows "length (dev_list t') = length (dev_list t)" "dev_phase (dev_list t' ! e) = dev_phase (dev_list t ! e)"
    "slots (dev_list t' ! e) = slots (dev_list t ! e)" "barrier_ok t \<Longrightarrow> barrier_ok t'"
proof -
  show "length (dev_list t') = length (dev_list t)" "dev_phase (dev_list t' ! e) = dev_phase (dev_list t ! e)"
    "slots (dev_list t' ! e) = slots (dev_list t ! e)"
    using assms by (auto simp: timer_routine_def timer_top_def timer_wait_def timer_release_def stop_timer_def
        nth_list_update set_dev_def split: timer_phase.splits if_splits)
  show "barrier_ok t \<Longrightarrow> barrier_ok t'" using assms by (auto intro: barrier_ok_timer barrier_ok_stop)
qed

lemma cpu_routine_slot:
  "cpu_routine cf fin data0 s c = Some (Inr (s', c')) \<Longrightarrow> cpu_dev (cpu_at c) = In_slot \<and> cpu_dev (cpu_at c') = In_slot"
  by (cases "cpu_at c")
    (auto simp: cpu_routine_def cpu_check_def cpu_idle_def cpu_get_def cpu_recheck_def cpu_switch_def cpu_run_def bindR_eq_Inr Let_def
      split: option.splits if_splits prod.splits)

lemma timer_link_cpu:
  assumes "timer_link S" and "i < length (s_cpus S)"
    and "next_slot_enter (s_timer S) (dev_of S i) = Some t \<and> cpu_at c = C_wait
      \<or> next_slot_leave (s_timer S) (dev_of S i) = Some t \<and> cpu_at c = C_check
      \<or> detach_event (s_timer S) (dev_of S i) = Some t \<and> cpu_at c = C_exit"
  shows "timer_link (set_cpu (S\<lparr>s_timer := t\<rparr>) i c)"
proof -
  note d = device_call [of "s_timer S" "dev_of S i" t "cpu_dev (cpu_at c)"]
  have "0 \<noteq> dev_of S i" using dev_of_less [OF assms(2)] by simp
  moreover have "dev_of S j = dev_of S i \<longleftrightarrow> j = i" if "j < length (s_cpus S)" for j
    using dev_of_inj [OF that assms(2)] .
  moreover have "next_slot_enter (s_timer S) (dev_of S i) = Some t \<and> cpu_dev (cpu_at c) = In_next
      \<or> next_slot_leave (s_timer S) (dev_of S i) = Some t \<and> cpu_dev (cpu_at c) = In_slot
      \<or> detach_event (s_timer S) (dev_of S i) = Some t \<and> cpu_dev (cpu_at c) = Gone"
    using assms(3) by auto
  ultimately show ?thesis
    using assms(1,2) d by (auto simp: timer_link_def devices_def nth_list_update)
qed

lemma timer_link_ld:
  assumes "timer_link S"
    and "next_slot_enter (s_timer S) 0 = Some t \<and> ld_dev ph = In_next
      \<or> next_slot_leave (s_timer S) 0 = Some t \<and> ld_dev ph = In_slot
      \<or> detach_event (s_timer S) 0 = Some t \<and> ld_dev ph = Gone"
  shows "timer_link (S\<lparr>s_timer := t, s_ld := (s_ld S)\<lparr>ld_at := ph\<rparr>\<rparr>)"
proof -
  note d = device_call [OF assms(2)]
  have "dev_of S i \<noteq> 0" if "i < length (s_cpus S)" for i using dev_of_less [OF that] by simp
  then show ?thesis using assms(1) d by (auto simp: timer_link_def devices_def)
qed

text \<open>The three steps in which the loader gives a process its memory leave the scheduler, the programs
  and the other loader variables alone.\<close>

lemma nth_list_update_same_field: "f x = f (xs ! k) \<Longrightarrow> f (xs[k := x] ! p) = f (xs ! p)"
  by (cases "k < length xs"; cases "p = k") (simp_all add: list_update_beyond)

lemma ld_setup_cases:
  assumes "ld_setup mm0 s l = Some (Inr (s', l'))"
  obtains "ld_at l = L_init" "s' = s\<lparr>mms := mms s @ [mm0], k_mm := Some (length (mms s))\<rparr>" "l' = l\<lparr>ld_at := L_mm\<rparr>"
  | m where "ld_at l = L_mm" "k_mm s = Some m" "s' = s\<lparr>mms := (mms s)[m := init_mm (mms s ! m)]\<rparr>" "l' = l\<lparr>ld_at := L_own\<rparr>"
  | "ld_at l = L_own" "s' = s\<lparr>pcbs := (pcbs s)[ld_cur l := (pcbs s ! ld_cur l)\<lparr>pcb_mm := k_mm s\<rparr>],
      k_mram := Some 0, k_active_mswp := Some 1\<rparr>" "l' = l\<lparr>ld_at := L_add\<rparr>"
  using assms
  by (cases "ld_at l") (auto simp: ld_setup_def ld_init_def ld_mm_def ld_own_def bindR_eq_Inr deref_Inr)

lemma ld_setup_facts:
  assumes "ld_setup mm0 s l = Some (Inr (s', l'))"
  shows "sched s' = sched s" "k_running s' = k_running s" "length (pcbs s') = length (pcbs s)"
    "pc (pcbs s' ! p) = pc (pcbs s ! p)" "code (pcbs s' ! p) = code (pcbs s ! p)" "pid (pcbs s' ! p) = pid (pcbs s ! p)"
    "ld_i l' = ld_i l" "ld_cur l' = ld_cur l"
    "ld_at l = L_init \<and> ld_at l' = L_mm \<or> ld_at l = L_mm \<and> ld_at l' = L_own \<or> ld_at l = L_own \<and> ld_at l' = L_add"
proof -
  show "sched s' = sched s" "k_running s' = k_running s" "length (pcbs s') = length (pcbs s)"
    "ld_i l' = ld_i l" "ld_cur l' = ld_cur l"
    "ld_at l = L_init \<and> ld_at l' = L_mm \<or> ld_at l = L_mm \<and> ld_at l' = L_own \<or> ld_at l = L_own \<and> ld_at l' = L_add"
    using assms by (cases rule: ld_setup_cases; simp)+
  show "pc (pcbs s' ! p) = pc (pcbs s ! p)" using assms by (cases rule: ld_setup_cases) (simp_all add: nth_list_update_same_field)
  show "code (pcbs s' ! p) = code (pcbs s ! p)" using assms by (cases rule: ld_setup_cases) (simp_all add: nth_list_update_same_field)
  show "pid (pcbs s' ! p) = pid (pcbs s ! p)" using assms by (cases rule: ld_setup_cases) (simp_all add: nth_list_update_same_field)
qed

lemma timer_link_step: "sys_step cf fs S S' \<Longrightarrow> timer_link S \<Longrightarrow> timer_link S'"
proof (induction rule: sys_step.induct)
  case (cpu i S data0 s c)
  then show ?case using cpu_routine_slot [OF cpu(2)] by (auto simp: timer_link_def nth_list_update)
next
  case (load S raw mem s avail l)
  then show ?case by (auto simp: timer_link_def ld_load_def Let_def bindR_eq_Inr)
next
  case (init_mm mm0 S s l)
  then show ?case using ld_setup_facts(9) [OF init_mm(2)] by (auto simp: timer_link_def)
next
  case (timer S t)
  then show ?case using timer_thread [of "s_timer S" t] by (auto simp: timer_link_def devices_def)
next
  case (stop S t)
  then show ?case using timer_thread [of "s_timer S" t] by (auto simp: timer_link_def devices_def)
qed (auto intro!: timer_link_cpu timer_link_ld, auto simp: timer_link_def ld_time_def ld_add_def Let_def bindR_eq_Inr)

lemma timer_link_reach: "sys_reach cf fs S \<Longrightarrow> timer_link S"
proof (induction rule: sys_reach.induct)
  case (main mp0)
  show ?case by (auto simp: timer_link_def main_init_def barrier_ok_started devices_def started_devs cpu_start_def
        ld_begin_def dev_of_def simp del: replicate_Suc)
qed (rule timer_link_step)

section \<open>What one step of a CPU does to processes and queues\<close>

text \<open>A process in the hands of a CPU.  Between the removal of the old process and the assignment of
  the new one the variable \<open>proc\<close> is stale.\<close>

definition owns :: "cpu_t \<Rightarrow> pcb_ref list" where
  "owns c = (if cpu_at c = C_get then [] else case cpu_proc c of None \<Rightarrow> [] | Some p \<Rightarrow> [p])"

definition held :: "cpu_t list \<Rightarrow> pcb_ref list" where
  "held cs = concat (map owns cs)"

definition finished :: "os_t \<Rightarrow> pcb_ref \<Rightarrow> bool" where
  "finished s p \<longleftrightarrow> pc (pcbs s ! p) = code_size (code (pcbs s ! p))"

lemma mset_held_update:
  "i < length cs \<Longrightarrow> mset (held (cs[i := c])) + mset (owns (cs ! i)) = mset (held cs) + mset (owns c)"
proof -
  assume i: "i < length cs"
  then have "held cs = held (take i cs) @ owns (cs ! i) @ held (drop (Suc i) cs)"
    by (subst id_take_nth_drop [OF i]) (simp add: held_def)
  moreover have "held (cs[i := c]) = held (take i cs) @ owns c @ held (drop (Suc i) cs)"
    using i by (simp add: held_def upd_conv_take_nth_drop)
  ultimately show ?thesis by simp
qed

lemma run_keeps:
  assumes "run data0 s p = Inr (r, s')"
  shows "sched s' = sched s"
    and "pcbs s' = (if code_size (code (pcbs s ! p)) \<le> pc (pcbs s ! p) then pcbs s
                    else (pcbs s)[p := (pcbs s ! p)\<lparr>pc := pc (pcbs s ! p) + 1\<rparr>])"
    and "k_mm s' = k_mm s" and "length (mms s') = length (mms s)"
proof -
  let ?fin = "code_size (code (pcbs s ! p)) \<le> pc (pcbs s ! p)"
  let ?s1 = "s\<lparr>pcbs := (pcbs s)[p := (pcbs s ! p)\<lparr>pc := pc (pcbs s ! p) + 1\<rparr>]\<rparr>"
  have "s' = s \<and> ?fin \<or> procs_kept ?s1 s' \<and> \<not> ?fin"
  proof (cases ?fin)
    case True
    then show ?thesis using assms by (simp add: run_def)
  next
    case False
    then obtain ins where e: "exec_inst data0 ?s1 p ins = Inr (r, s')"
      using assms by (auto simp: run_def Let_def bindR_eq_Inr)
    have "procs_kept ?s1 ?s1" by (simp add: procs_kept_def)
    then have "stays (procs_kept ?s1) (exec_inst data0 ?s1 p ins)" by (rule kept.stays_exec)
    then show ?thesis using e False by (simp add: stays_def)
  qed
  then show "sched s' = sched s"
    "pcbs s' = (if ?fin then pcbs s else (pcbs s)[p := (pcbs s ! p)\<lparr>pc := pc (pcbs s ! p) + 1\<rparr>])"
    "k_mm s' = k_mm s" "length (mms s') = length (mms s)"
    by (auto simp: procs_kept_def)
qed

lemma cpu_switch_Inr:
  assumes "cpu_switch s c = Inr (s', c')"
  obtains p where "cpu_proc c = Some p" "c' = c\<lparr>cpu_at := C_run\<rparr>" "pcbs s' = pcbs s" "sched s' = sched s"
    "mms s' = mms s" "k_running s' = k_running s"
  using assms by (auto simp: cpu_switch_def bindR_eq_Inr deref_Inr split: option.splits)

lemma run_finished:
  assumes "run data0 s p = Inr (r, s')"
  shows "length (pcbs s') = length (pcbs s)" and "finished s q \<Longrightarrow> finished s' q"
  using run_keeps(2) [OF assms] by (cases "q = p"; auto simp: finished_def nth_list_update)+

lemma put_mlq_proc_ready:
  assumes inv: "sched_inv s" and put: "put_mlq_proc s pr r = Inr t"
  shows "ready_mset t = (if length (level s (unat pr)) < MAX_QUEUE_SIZE then add_mset r (ready_mset s) else ready_mset s)"
proof (cases "length (level s (unat pr)) < MAX_QUEUE_SIZE")
  case True
  then show ?thesis using put_mlq_proc_conserves [OF inv put] by simp
next
  case False
  then have "level t q = level s q" for q using put_mlq_proc_Inr(5) [OF inv put, of q] by auto
  then show ?thesis using False by (simp add: ready_mset_def)
qed

lemma put_ready:
  assumes "sched_inv (sched s)" and "k_put_proc s p = Inr s' \<or> k_add_proc s p = Inr s'"
  shows "sched_inv (sched s')" and "pcbs s' = pcbs s"
    and "ready_mset (sched s') \<subseteq># add_mset p (ready_mset (sched s))"
    and "size (ready_mset (sched s)) < MAX_QUEUE_SIZE \<Longrightarrow> ready_mset (sched s') = add_mset p (ready_mset (sched s))"
proof -
  obtain t where t: "put_mlq_proc (sched s) (prio (pcbs s ! p)) p = Inr t" and s': "s' = s\<lparr>k_running := True, sched := t\<rparr>"
    using assms(2) by (auto simp: k_put_proc_def k_add_proc_def sched_ops bindR_eq_Inr)
  note r = put_mlq_proc_ready [OF assms(1) t] and i = put_mlq_proc_Inr [OF assms(1) t]
  show "sched_inv (sched s')" "pcbs s' = pcbs s" using i(2) by (simp_all add: s')
  show "ready_mset (sched s') \<subseteq># add_mset p (ready_mset (sched s))" by (simp add: s' r)
  show "size (ready_mset (sched s)) < MAX_QUEUE_SIZE \<Longrightarrow> ready_mset (sched s') = add_mset p (ready_mset (sched s))"
    using level_size_ready [OF i(1), of "sched s"] by (simp add: s' r)
qed

lemma get_ready:
  assumes "sched_inv (sched s)" and "k_get_proc s = (q, s')"
  shows "sched_inv (sched s')" and "pcbs s' = pcbs s"
    and "ready_mset (sched s) = mset (case q of None \<Rightarrow> [] | Some r \<Rightarrow> [r]) + ready_mset (sched s')"
    and "q = None \<Longrightarrow> ready_mset (sched s') = {#}"
proof -
  obtain t where g: "get_mlq_proc (sched s) = (q, t)" and s': "s' = s\<lparr>sched := t\<rparr>"
    using assms(2) by (auto simp: k_get_proc_def get_proc_def split: prod.splits)
  show "sched_inv (sched s')" "pcbs s' = pcbs s" using get_mlq_proc_inv [OF assms(1)] g by (simp_all add: s')
  show "ready_mset (sched s) = mset (case q of None \<Rightarrow> [] | Some r \<Rightarrow> [r]) + ready_mset (sched s')"
    using get_mlq_proc_conserves [OF assms(1)] g by (simp add: s')
  show "ready_mset (sched s') = {#}" if "q = None"
  proof -
    have "sched_choice (sched s) = None" using g that get_mlq_proc_eq [OF assms(1)]
      by (auto split: option.splits prod.splits)
    then show ?thesis using g get_mlq_proc_eq [OF assms(1)] sched_choice_None [OF assms(1)]
      by (simp add: s' ready_mset_def)
  qed
qed

text \<open>One step of a CPU: processes move between the queues and the CPU; none appears twice, and one that
  disappears has finished, unless the queues overflow.\<close>

lemma cpu_routine_effect:
  assumes inv: "sched_inv (sched s)" and st: "cpu_routine cf fin data0 s c = Some (Inr (s', c'))"
  shows "sched_inv (sched s')" and "length (pcbs s') = length (pcbs s)"
    and "ready_mset (sched s') + mset (owns c') \<subseteq># ready_mset (sched s) + mset (owns c)"
    and "finished s q \<Longrightarrow> finished s' q"
    and "size (ready_mset (sched s) + mset (owns c)) \<le> MAX_QUEUE_SIZE \<Longrightarrow> q \<in># ready_mset (sched s) + mset (owns c)
      \<Longrightarrow> q \<in># ready_mset (sched s') + mset (owns c') \<or> finished s' q"
proof -
  have "sched_inv (sched s') \<and> length (pcbs s') = length (pcbs s)
    \<and> ready_mset (sched s') + mset (owns c') \<subseteq># ready_mset (sched s) + mset (owns c)
    \<and> (\<forall>q. finished s q \<longrightarrow> finished s' q)
    \<and> (\<forall>q. size (ready_mset (sched s) + mset (owns c)) \<le> MAX_QUEUE_SIZE
      \<longrightarrow> q \<in># ready_mset (sched s) + mset (owns c)
      \<longrightarrow> q \<in># ready_mset (sched s') + mset (owns c') \<or> finished s' q)"
  proof (cases "cpu_at c")
    case C_check
    show ?thesis
    proof (cases "cpu_proc c")
      case None
      obtain p t where g: "k_get_proc s = (p, t)" by (cases "k_get_proc s")
      then show ?thesis using st C_check None get_ready [OF inv g]
        by (auto simp: cpu_routine_def cpu_check_def owns_def finished_def split: option.splits)
    next
      case (Some p)
      consider "finished s p" | "\<not> finished s p" "time_left c = 0" | "\<not> finished s p" "time_left c \<noteq> 0" by blast
      then show ?thesis
      proof cases
        case 1
        then show ?thesis using st C_check Some inv remove_proc_facts [OF inv, of p]
          by (auto simp: cpu_routine_def cpu_check_def owns_def finished_def k_remove_proc_def ready_mset_def)
      next
        case 2
        then have "k_put_proc s p = Inr s'" "c' = c\<lparr>cpu_at := C_get\<rparr>"
          using st C_check Some by (auto simp: cpu_routine_def cpu_check_def finished_def bindR_eq_Inr)
        then show ?thesis using put_ready [OF inv, of p s'] C_check Some
          by (auto simp: owns_def finished_def)
      next
        case 3
        then show ?thesis using st C_check Some inv
          by (auto simp: cpu_routine_def cpu_check_def owns_def finished_def)
      qed
    qed
  next
    case C_get
    obtain p t where g: "k_get_proc s = (p, t)" by (cases "k_get_proc s")
    then show ?thesis using st C_get get_ready [OF inv g]
      by (auto simp: cpu_routine_def cpu_get_def owns_def finished_def split: option.splits)
  next
    case C_run
    obtain p r where p: "cpu_proc c = Some p" and c': "c' = c\<lparr>time_left := time_left c - 1, cpu_at := C_slot\<rparr>"
      and r: "run data0 s p = Inr (r, s')"
      using st C_run by (auto simp: cpu_routine_def cpu_run_def bindR_eq_Inr deref_Inr)
    then show ?thesis using run_keeps(1) [OF r] run_finished [OF r] inv C_run by (auto simp: owns_def)
  next
    case C_switch
    then show ?thesis using st inv
      by (auto simp: cpu_routine_def cpu_switch_def owns_def finished_def bindR_eq_Inr deref_Inr split: option.splits)
  qed (use st inv in \<open>auto simp: cpu_routine_def cpu_idle_def cpu_recheck_def owns_def split: if_splits\<close>)
  then show "sched_inv (sched s')" "length (pcbs s') = length (pcbs s)"
    "ready_mset (sched s') + mset (owns c') \<subseteq># ready_mset (sched s) + mset (owns c)"
    "finished s q \<Longrightarrow> finished s' q"
    "size (ready_mset (sched s) + mset (owns c)) \<le> MAX_QUEUE_SIZE \<Longrightarrow> q \<in># ready_mset (sched s) + mset (owns c)
      \<Longrightarrow> q \<in># ready_mset (sched s') + mset (owns c') \<or> finished s' q"
    by blast+
qed

section \<open>Processes are never duplicated and never lost\<close>

text \<open>Everything that is ready or held by a CPU.\<close>

definition active :: "sys_t \<Rightarrow> pcb_ref multiset" where
  "active S = ready_mset (sched (s_os S)) + mset (held (s_cpus S))"

fun loading :: "ld_phase \<Rightarrow> bool" where
  "loading L_load = False"
| "loading L_slot = False"
| "loading L_wait = False"
| "loading L_detach = False"
| "loading L_exit = False"
| "loading _ = True"

definition proc_ok :: "config_t \<Rightarrow> sys_t \<Rightarrow> bool" where
  "proc_ok cf S \<longleftrightarrow> sched_inv (sched (s_os S))
     \<and> active S \<subseteq># mset [0..<ld_i (s_ld S)]
     \<and> length (pcbs (s_os S)) = ld_i (s_ld S) + (if loading (ld_at (s_ld S)) then 1 else 0)
     \<and> (loading (ld_at (s_ld S)) \<longrightarrow> ld_cur (s_ld S) = ld_i (s_ld S))
     \<and> length (pcbs (s_os S)) \<le> nat (num_processes cf)"

definition nothing_lost :: "config_t \<Rightarrow> sys_t \<Rightarrow> bool" where
  "nothing_lost cf S \<longleftrightarrow> (num_processes cf \<le> int MAX_QUEUE_SIZE \<longrightarrow>
     (\<forall>p < ld_i (s_ld S). p \<in># active S \<or> finished (s_os S) p))"

lemma active_simps [simp]:
  "active (S\<lparr>s_timer := t\<rparr>) = active S" "active (S\<lparr>s_ld := l\<rparr>) = active S"
  "active (S\<lparr>s_done := b\<rparr>) = active S" "active (S\<lparr>s_pid := a\<rparr>) = active S"
  "active (S\<lparr>s_main := m\<rparr>) = active S"
  by (simp_all add: active_def)

lemma active_set_cpu:
  assumes "i < length (s_cpus S)"
  shows "active (set_cpu (S\<lparr>s_os := s\<rparr>) i c) + (ready_mset (sched (s_os S)) + mset (owns (s_cpus S ! i)))
    = active S + (ready_mset (sched s) + mset (owns c))"
  using mset_held_update [OF assms, of c] by (simp add: active_def ac_simps)

lemma active_same_owner:
  assumes "i < length (s_cpus S)" and "owns c = owns (s_cpus S ! i)"
  shows "active (set_cpu (S\<lparr>s_timer := t\<rparr>) i c) = active S"
  using mset_held_update [OF assms(1), of c] assms(2) by (simp add: active_def)

lemma size_active: "proc_ok cf S \<Longrightarrow> size (active S) \<le> nat (num_processes cf)"
  unfolding proc_ok_def by (auto dest!: size_mset_mono split: if_splits)

lemma owned_part: "i < length cs \<Longrightarrow> mset (owns (cs ! i)) \<subseteq># mset (held cs)"
proof -
  assume i: "i < length cs"
  let ?c = "\<lparr>cpu_proc = None, time_left = 0, cpu_at = C_get\<rparr>"
  have "mset (owns ?c) = {#}" by (simp add: owns_def)
  then have "mset (held cs) = mset (held (cs[i := ?c])) + mset (owns (cs ! i))"
    using mset_held_update [OF i, of ?c] by simp
  then show ?thesis by simp
qed

lemma cpu_step_active:
  assumes "proc_ok cf S" and "i < length (s_cpus S)"
    and "cpu_routine cf fin data0 (s_os S) (s_cpus S ! i) = Some (Inr (s, c))"
  shows "active (set_cpu (S\<lparr>s_os := s\<rparr>) i c) \<subseteq># active S"
    and "num_processes cf \<le> int MAX_QUEUE_SIZE \<Longrightarrow> q \<in># active S
      \<Longrightarrow> q \<in># active (set_cpu (S\<lparr>s_os := s\<rparr>) i c) \<or> finished s q"
proof -
  let ?old = "ready_mset (sched (s_os S)) + mset (owns (s_cpus S ! i))"
  let ?new = "ready_mset (sched s) + mset (owns c)"
  let ?act = "active (set_cpu (S\<lparr>s_os := s\<rparr>) i c)"
  have inv: "sched_inv (sched (s_os S))" using assms(1) by (simp add: proc_ok_def)
  note e = cpu_routine_effect [OF inv assms(3)]
  note a = active_set_cpu [OF assms(2), of s c]
  have part: "?old \<subseteq># active S"
    using owned_part [OF assms(2)] by (simp add: active_def)
  show "?act \<subseteq># active S"
  proof -
    have "?act + ?old \<subseteq># active S + ?old" unfolding a by (rule subset_mset.add_left_mono [OF e(3)])
    then show ?thesis by simp
  qed
  show "q \<in># ?act \<or> finished s q" if "num_processes cf \<le> int MAX_QUEUE_SIZE" "q \<in># active S"
  proof (cases "q \<in># ?old")
    case True
    have "size ?old \<le> MAX_QUEUE_SIZE"
      using size_mset_mono [OF part] size_active [OF assms(1)] that(1) by linarith
    then have "q \<in># ?new \<or> finished s q" using e(5) True by blast
    moreover have "q \<in># ?act" if "q \<in># ?new"
    proof -
      have "count ?act q + count ?old q = count (active S) q + count ?new q" using a by (metis count_union)
      moreover have "count ?old q \<le> count (active S) q" using part by (rule mset_subset_eq_count)
      moreover have "0 < count ?new q" using that by simp
      ultimately have "0 < count ?act q" by linarith
      then show ?thesis by simp
    qed
    ultimately show ?thesis by blast
  next
    case False
    have "count ?act q + count ?old q = count (active S) q + count ?new q" using a by (metis count_union)
    moreover have "count ?old q = 0" using False by (simp add: count_eq_zero_iff)
    moreover have "0 < count (active S) q" using that(2) by simp
    ultimately have "0 < count ?act q" by linarith
    then show ?thesis by simp
  qed
qed

lemma size_upt_mset: "M \<subseteq># mset [0..<n] \<Longrightarrow> size M \<le> n"
  by (drule size_mset_mono) simp

lemma upt_Suc_mset: "mset [0..<Suc n] = add_mset n (mset [0..<n])"
  by simp

lemma ld_add_effect:
  assumes "sched_inv (sched s)" and "ld_add s l = Inr (s', l')"
  shows "sched_inv (sched s')" "pcbs s' = pcbs s" "l' = l\<lparr>ld_i := ld_i l + 1, ld_at := L_slot\<rparr>"
    "ready_mset (sched s') \<subseteq># add_mset (ld_cur l) (ready_mset (sched s))"
    "size (ready_mset (sched s)) < MAX_QUEUE_SIZE \<Longrightarrow> ready_mset (sched s') = add_mset (ld_cur l) (ready_mset (sched s))"
  using assms put_ready [OF assms(1), of "ld_cur l" s'] by (auto simp: ld_add_def bindR_eq_Inr)

lemma ld_setup_finished: "ld_setup mm0 s l = Some (Inr (s', l')) \<Longrightarrow> finished s' = finished s"
  using ld_setup_facts(4,5) by (simp add: finished_def fun_eq_iff)

lemma proc_ok_step: "sys_step cf fs S S' \<Longrightarrow> proc_ok cf S \<Longrightarrow> proc_ok cf S'"
proof (induction rule: sys_step.induct)
  case (cpu i S data0 s c)
  have inv: "sched_inv (sched (s_os S))" using cpu(3) by (simp add: proc_ok_def)
  note e = cpu_routine_effect [OF inv cpu(2)] and a = cpu_step_active(1) [OF cpu(3,1,2)]
  show ?case using cpu(3) e(1,2) subset_mset.order_trans [OF a] by (simp add: proc_ok_def)
next
  case (cpu_slot i S t)
  have "owns ((s_cpus S ! i)\<lparr>cpu_at := C_wait\<rparr>) = owns (s_cpus S ! i)" using cpu_slot by (simp add: owns_def)
  then show ?case using cpu_slot active_same_owner [OF cpu_slot(1)] by (simp add: proc_ok_def)
next
  case (cpu_wait i S t)
  have "owns ((s_cpus S ! i)\<lparr>cpu_at := C_check\<rparr>) = owns (s_cpus S ! i)" using cpu_wait by (simp add: owns_def)
  then show ?case using cpu_wait active_same_owner [OF cpu_wait(1)] by (simp add: proc_ok_def)
next
  case (cpu_detach i S t)
  have "owns ((s_cpus S ! i)\<lparr>cpu_at := C_exit\<rparr>) = owns (s_cpus S ! i)" using cpu_detach by (simp add: owns_def)
  then show ?case using cpu_detach active_same_owner [OF cpu_detach(1)] by (simp add: proc_ok_def)
next
  case (load S raw mem s avail l)
  then show ?case
    by (auto simp: proc_ok_def ld_load_def Let_def bindR_eq_Inr active_def)
next
  case (init_mm mm0 S s l)
  note f = ld_setup_facts [OF init_mm(2)]
  have "active (S\<lparr>s_os := s, s_ld := l\<rparr>) = active S" using f(1) by (simp add: active_def)
  moreover have "loading (ld_at l)" "loading (ld_at (s_ld S))" using f(9) by auto
  ultimately show ?case using init_mm(3) f(1,3,7,8) by (simp add: proc_ok_def)
next
  case (add S s l)
  have inv: "sched_inv (sched (s_os S))" using add(3) by (simp add: proc_ok_def)
  note e = ld_add_effect [OF inv add(2)]
  have "active (S\<lparr>s_os := s, s_ld := l\<rparr>) \<subseteq># add_mset (ld_i (s_ld S)) (active S)"
    using e(4) add(1,3) by (simp add: active_def proc_ok_def)
  moreover have "add_mset (ld_i (s_ld S)) (active S) \<subseteq># mset [0..<Suc (ld_i (s_ld S))]"
    using add(3) by (simp add: proc_ok_def)
  ultimately show ?case using add(1,3) e(1-3)
    by (auto simp: proc_ok_def intro: subset_mset.order_trans)
qed (auto simp: proc_ok_def ld_time_def)

text \<open>The only step that brings in a process is the loader's call of \<open>add_proc\<close>.\<close>

lemma active_enters:
  assumes "sys_step cf fs S S'" and "proc_ok cf S" and "q \<in># active S'" and "q \<notin># active S"
  shows "ld_at (s_ld S) = L_add \<and> q = ld_i (s_ld S) \<and> q \<in># ready_mset (sched (s_os S'))"
  using assms
proof (induction rule: sys_step.induct)
  case (cpu i S data0 s c)
  then show ?case using mset_subset_eqD [OF cpu_step_active(1) [OF cpu(3,1,2)]] by blast
next
  case (cpu_slot i S t)
  have "owns ((s_cpus S ! i)\<lparr>cpu_at := C_wait\<rparr>) = owns (s_cpus S ! i)" using cpu_slot by (simp add: owns_def)
  then show ?case using cpu_slot active_same_owner [OF cpu_slot(1)] by simp
next
  case (cpu_wait i S t)
  have "owns ((s_cpus S ! i)\<lparr>cpu_at := C_check\<rparr>) = owns (s_cpus S ! i)" using cpu_wait by (simp add: owns_def)
  then show ?case using cpu_wait active_same_owner [OF cpu_wait(1)] by simp
next
  case (cpu_detach i S t)
  have "owns ((s_cpus S ! i)\<lparr>cpu_at := C_exit\<rparr>) = owns (s_cpus S ! i)" using cpu_detach by (simp add: owns_def)
  then show ?case using cpu_detach active_same_owner [OF cpu_detach(1)] by simp
next
  case (load S raw mem s avail l)
  then show ?case by (auto simp: ld_load_def Let_def bindR_eq_Inr active_def)
next
  case (init_mm mm0 S s l)
  then show ?case using ld_setup_facts(1) [OF init_mm(2)] by (simp add: active_def)
next
  case (add S s l)
  have "sched_inv (sched (s_os S))" using add(3) by (simp add: proc_ok_def)
  from ld_add_effect(4) [OF this add(2)] add show ?case
    by (auto simp: active_def proc_ok_def dest: mset_subset_eqD)
qed simp_all

lemma proc_ok_init: "proc_ok cf (main_init cf mp0)"
proof -
  have "held (replicate k cpu_start) = []" for k
    by (simp add: held_def cpu_start_def owns_def)
  then show ?thesis
    by (simp add: proc_ok_def main_init_def sched_inv_init active_def ready_mset_def init_scheduler_facts
        ld_begin_def)
qed

lemma proc_ok_reach: "sys_reach cf fs S \<Longrightarrow> proc_ok cf S"
  by (induction rule: sys_reach.induct) (auto intro: proc_ok_init proc_ok_step)

lemma nothing_lost_step: "sys_step cf fs S S' \<Longrightarrow> proc_ok cf S \<Longrightarrow> nothing_lost cf S \<Longrightarrow> nothing_lost cf S'"
proof (induction rule: sys_step.induct)
  case (cpu i S data0 s c)
  have inv: "sched_inv (sched (s_os S))" using cpu(3) by (simp add: proc_ok_def)
  show ?case using cpu(4) cpu_step_active(2) [OF cpu(3,1,2)] cpu_routine_effect(4) [OF inv cpu(2)]
    by (auto simp: nothing_lost_def)
next
  case (cpu_slot i S t)
  have "owns ((s_cpus S ! i)\<lparr>cpu_at := C_wait\<rparr>) = owns (s_cpus S ! i)" using cpu_slot by (simp add: owns_def)
  then show ?case using cpu_slot active_same_owner [OF cpu_slot(1)] by (simp add: nothing_lost_def)
next
  case (cpu_wait i S t)
  have "owns ((s_cpus S ! i)\<lparr>cpu_at := C_check\<rparr>) = owns (s_cpus S ! i)" using cpu_wait by (simp add: owns_def)
  then show ?case using cpu_wait active_same_owner [OF cpu_wait(1)] by (simp add: nothing_lost_def)
next
  case (cpu_detach i S t)
  have "owns ((s_cpus S ! i)\<lparr>cpu_at := C_exit\<rparr>) = owns (s_cpus S ! i)" using cpu_detach by (simp add: owns_def)
  then show ?case using cpu_detach active_same_owner [OF cpu_detach(1)] by (simp add: nothing_lost_def)
next
  case (load S raw mem s avail l)
  then show ?case
    by (auto simp: nothing_lost_def proc_ok_def ld_load_def Let_def bindR_eq_Inr active_def finished_def nth_append)
next
  case (init_mm mm0 S s l)
  then show ?case using ld_setup_facts [OF init_mm(2)] ld_setup_finished [OF init_mm(2)]
    by (auto simp: nothing_lost_def active_def)
next
  case (add S s l)
  have inv: "sched_inv (sched (s_os S))" using add(3) by (simp add: proc_ok_def)
  note e = ld_add_effect [OF inv add(2)]
  have len: "length (pcbs (s_os S)) = Suc (ld_i (s_ld S))" "ld_cur (s_ld S) = ld_i (s_ld S)"
    using add(1,3) by (simp_all add: proc_ok_def)
  show ?case unfolding nothing_lost_def
  proof (intro impI allI)
    fix p
    assume n: "num_processes cf \<le> int MAX_QUEUE_SIZE"
      and p: "p < ld_i (s_ld (S\<lparr>s_os := s, s_ld := l\<rparr>))"
    have "size (active S) \<le> ld_i (s_ld S)" using add(3) by (auto simp: proc_ok_def intro: size_upt_mset)
    moreover have "Suc (ld_i (s_ld S)) \<le> nat (num_processes cf)" using len(1) add(3) by (simp add: proc_ok_def)
    moreover have "nat (num_processes cf) \<le> MAX_QUEUE_SIZE" using n by simp
    ultimately have "size (ready_mset (sched (s_os S))) < MAX_QUEUE_SIZE" by (simp add: active_def)
    then have "active (S\<lparr>s_os := s, s_ld := l\<rparr>) = add_mset (ld_i (s_ld S)) (active S)"
      using e(5) len(2) by (simp add: active_def)
    moreover have "finished s q = finished (s_os S) q" for q using e(2) by (simp add: finished_def)
    moreover have "p < ld_i (s_ld S) \<or> p = ld_i (s_ld S)" using p e(3) by auto
    ultimately show "p \<in># active (S\<lparr>s_os := s, s_ld := l\<rparr>) \<or> finished (s_os (S\<lparr>s_os := s, s_ld := l\<rparr>)) p"
      using add(4) n by (auto simp: nothing_lost_def)
  qed
qed (auto simp: nothing_lost_def ld_time_def)

lemma nothing_lost_reach: "sys_reach cf fs S \<Longrightarrow> nothing_lost cf S"
proof (induction rule: sys_reach.induct)
  case (main mp0)
  show ?case by (simp add: nothing_lost_def main_init_def ld_begin_def)
next
  case (step S S')
  then show ?case using nothing_lost_step proc_ok_reach by blast
qed

section \<open>Leaving the loops\<close>

text \<open>\<open>live c\<close>: the CPU has a process, or will ask the scheduler again before it can leave.\<close>

definition live_cpu :: "cpu_t \<Rightarrow> bool" where
  "live_cpu c \<longleftrightarrow> owns c \<noteq> [] \<or> cpu_at c \<in> {C_check, C_get, C_slot, C_wait}"

definition flags_ok :: "config_t \<Rightarrow> sys_t \<Rightarrow> bool" where
  "flags_ok cf S \<longleftrightarrow> (s_done S \<longleftrightarrow> ld_at (s_ld S) \<in> {L_detach, L_exit})
     \<and> (s_done S \<longrightarrow> num_processes cf \<le> int (ld_i (s_ld S)))
     \<and> (\<forall>i < length (s_cpus S). (cpu_at (s_cpus S ! i) \<in> {C_detach, C_exit} \<longrightarrow> s_done S)
          \<and> (cpu_at (s_cpus S ! i) \<in> {C_idle, C_detach, C_exit} \<longrightarrow> cpu_proc (s_cpus S ! i) = None))"

text \<open>Ready processes are seen by some CPU, except from \<open>add_proc\<close> to the end of that slot: the loader
  has not left \<open>next_slot\<close> yet, so the CPUs that found nothing will not find \<open>done\<close> either.\<close>

definition seen_ok :: "sys_t \<Rightarrow> bool" where
  "seen_ok S \<longleftrightarrow> ld_at (s_ld S) = L_slot
     \<or> ld_at (s_ld S) = L_wait \<and> slots (devices S ! 0) = time_now (s_timer S)
     \<or> ready_mset (sched (s_os S)) = {#}
     \<or> (\<exists>i < length (s_cpus S). live_cpu (s_cpus S ! i))"

lemma cpu_routine_flags:
  assumes "cpu_routine cf fin data0 s c = Some (Inr (s', c'))"
    and "cpu_at c \<in> {C_idle, C_detach, C_exit} \<longrightarrow> cpu_proc c = None"
  shows "(cpu_at c' \<in> {C_detach, C_exit} \<longrightarrow> fin)
    \<and> (cpu_at c' \<in> {C_idle, C_detach, C_exit} \<longrightarrow> cpu_proc c' = None)"
  using assms
  by (cases "cpu_at c")
    (auto simp: cpu_routine_def cpu_check_def cpu_idle_def cpu_get_def cpu_recheck_def cpu_switch_def cpu_run_def bindR_eq_Inr Let_def
      split: option.splits if_splits prod.splits)

lemma flags_ok_step: "sys_step cf fs S S' \<Longrightarrow> flags_ok cf S \<Longrightarrow> flags_ok cf S'"
proof (induction rule: sys_step.induct)
  case (cpu i S data0 s c)
  then show ?case using cpu_routine_flags [OF cpu(2)] by (auto simp: flags_ok_def nth_list_update)
next
  case (load S raw mem s avail l)
  then show ?case by (auto simp: flags_ok_def ld_load_def Let_def bindR_eq_Inr)
next
  case (init_mm mm0 S s l)
  then show ?case using ld_setup_facts(7,9) [OF init_mm(2)] by (auto simp: flags_ok_def)
qed (auto simp: flags_ok_def nth_list_update ld_time_def ld_add_def Let_def bindR_eq_Inr)

lemma flags_ok_reach: "sys_reach cf fs S \<Longrightarrow> flags_ok cf S"
proof (induction rule: sys_reach.induct)
  case (main mp0)
  show ?case by (auto simp: flags_ok_def main_init_def ld_begin_def cpu_start_def)
qed (rule flags_ok_step)

lemma cpu_routine_live:
  assumes "sched_inv (sched s)" and "cpu_routine cf fin data0 s c = Some (Inr (s', c'))"
    and "cpu_at c = C_idle \<longrightarrow> cpu_proc c = None"
  shows "live_cpu c \<Longrightarrow> live_cpu c' \<or> ready_mset (sched s') = {#}"
    and "\<not> live_cpu c \<Longrightarrow> s' = s"
proof -
  have "(live_cpu c \<longrightarrow> live_cpu c' \<or> ready_mset (sched s') = {#}) \<and> (\<not> live_cpu c \<longrightarrow> s' = s)"
  proof (cases "cpu_at c")
    case C_check
    obtain p t where g: "k_get_proc s = (p, t)" by (cases "k_get_proc s")
    show ?thesis using assms(2) C_check get_ready(4) [OF assms(1) g] g
      by (auto simp: cpu_routine_def cpu_check_def live_cpu_def owns_def Let_def bindR_eq_Inr split: option.splits if_splits)
  next
    case C_get
    obtain p t where g: "k_get_proc s = (p, t)" by (cases "k_get_proc s")
    show ?thesis using assms(2) C_get get_ready(4) [OF assms(1) g] g
      by (auto simp: cpu_routine_def cpu_get_def live_cpu_def owns_def split: option.splits)
  qed (use assms(2,3) in \<open>auto simp: cpu_routine_def cpu_idle_def cpu_recheck_def cpu_switch_def cpu_run_def live_cpu_def owns_def
      bindR_eq_Inr deref_Inr Let_def split: option.splits if_splits\<close>)
  then show "live_cpu c \<Longrightarrow> live_cpu c' \<or> ready_mset (sched s') = {#}" "\<not> live_cpu c \<Longrightarrow> s' = s"
    by blast+
qed

text \<open>While the timer moves the time on, every CPU that has not left is inside \<open>next_slot\<close>.\<close>

lemma time_step_waiting:
  assumes "timer_link S" and "timer_routine (s_timer S) = Some t" and "time_now t \<noteq> time_now (s_timer S)"
    and "j < length (devices S)"
  shows "dev_phase (devices S ! j) = Gone \<or> dev_phase (devices S ! j) = In_next"
proof -
  obtain k f e where "t_phase (s_timer S) = T_wait k f e" "\<not> k < length (dev_list (s_timer S))"
    using assms(2,3) by (auto simp: timer_routine_def timer_top_def timer_wait_def timer_release_def
        split: timer_phase.splits if_splits)
  then show ?thesis using wait_through [of "s_timer S" k f e j] assms(1,4) by (auto simp: timer_link_def devices_def)
qed

lemma seen_ok_timer:
  assumes "timer_link S" and "flags_ok cf S" and "seen_ok S" and "0 < length (s_cpus S)"
    and "timer_routine (s_timer S) = Some t"
  shows "seen_ok (S\<lparr>s_timer := t\<rparr>)"
proof (cases "ld_at (s_ld S) = L_wait \<and> time_now t \<noteq> time_now (s_timer S)")
  case True
  then have "\<not> s_done S" using assms(2) by (auto simp: flags_ok_def)
  then have "cpu_at (s_cpus S ! 0) \<noteq> C_exit" using assms(2,4) by (auto simp: flags_ok_def)
  moreover have "dev_phase (devices S ! dev_of S 0) = cpu_dev (cpu_at (s_cpus S ! 0))"
    "dev_of S 0 < length (devices S)" using assms(1,4) by (auto simp: timer_link_def dev_of_def)
  ultimately have "cpu_at (s_cpus S ! 0) = C_wait"
    using time_step_waiting [OF assms(1,5), of "dev_of S 0"] True by (cases "cpu_at (s_cpus S ! 0)") auto
  then show ?thesis using assms(4) by (auto simp: seen_ok_def live_cpu_def)
next
  case False
  then show ?thesis using assms(3) timer_thread [of "s_timer S" t] assms(5)
    by (auto simp: seen_ok_def devices_def)
qed

lemma seen_ok_cpu:
  assumes "proc_ok cf S" and "flags_ok cf S" and "seen_ok S" and i: "i < length (s_cpus S)"
    and st: "cpu_routine cf fin data0 (s_os S) (s_cpus S ! i) = Some (Inr (s, c))"
  shows "seen_ok (set_cpu (S\<lparr>s_os := s\<rparr>) i c)"
proof -
  have inv: "sched_inv (sched (s_os S))" using assms(1) by (simp add: proc_ok_def)
  have "cpu_at (s_cpus S ! i) = C_idle \<longrightarrow> cpu_proc (s_cpus S ! i) = None"
    using assms(2) i by (auto simp: flags_ok_def)
  note live = cpu_routine_live [OF inv st this]
  have upd: "\<exists>k < length (s_cpus S). live_cpu ((s_cpus S)[i := c] ! k)"
    if "live_cpu c \<or> j < length (s_cpus S) \<and> j \<noteq> i \<and> live_cpu (s_cpus S ! j)" for j
    using that i by (metis nth_list_update_eq nth_list_update_neq)
  show ?thesis
  proof (cases "live_cpu (s_cpus S ! i)")
    case True
    then show ?thesis using live(1) upd by (auto simp: seen_ok_def)
  next
    case False
    then have s: "s = s_os S" by (rule live(2))
    from assms(3) consider "ld_at (s_ld S) = L_slot" | "ld_at (s_ld S) = L_wait \<and> slots (devices S ! 0) = time_now (s_timer S)"
      | "ready_mset (sched (s_os S)) = {#}" | j where "j < length (s_cpus S)" "live_cpu (s_cpus S ! j)"
      unfolding seen_ok_def by blast
    then show ?thesis
    proof cases
      case 4
      then have "j \<noteq> i" using False by blast
      then show ?thesis using upd [of j] 4 by (simp add: seen_ok_def)
    qed (simp_all add: seen_ok_def s)
  qed
qed

lemma seen_ok_keep:
  assumes "seen_ok S" and "i < length (s_cpus S)" and "live_cpu (s_cpus S ! i) \<longrightarrow> live_cpu c"
    and "slots (dev_list t ! 0) = slots (devices S ! 0)" and "time_now t = time_now (s_timer S)"
  shows "seen_ok (set_cpu (S\<lparr>s_timer := t\<rparr>) i c)"
proof -
  have "\<exists>k < length (s_cpus S). live_cpu ((s_cpus S)[i := c] ! k)"
    if "j < length (s_cpus S)" "live_cpu (s_cpus S ! j)" for j
    using that assms(2,3) by (cases "j = i") (metis nth_list_update_eq, metis nth_list_update_neq)
  then show ?thesis using assms(1,4,5) by (auto simp: seen_ok_def)
qed

lemma ld_device:
  assumes "timer_link S"
  shows "dev_ok (time_now (s_timer S)) (unreleased (t_phase (s_timer S)) 0) (devices S ! 0)"
    and "dev_phase (devices S ! 0) = ld_dev (ld_at (s_ld S))"
  using assms barrier_ok_dev [of "s_timer S" 0] by (auto simp: timer_link_def devices_def)

lemma seen_ok_step:
  "sys_step cf fs S S' \<Longrightarrow> timer_link S \<Longrightarrow> proc_ok cf S \<Longrightarrow> flags_ok cf S \<Longrightarrow> 0 < length (s_cpus S)
   \<Longrightarrow> seen_ok S \<Longrightarrow> seen_ok S'"
proof (induction rule: sys_step.induct)
  case (cpu i S data0 s c)
  then show ?case by (intro seen_ok_cpu) auto
next
  case (cpu_slot i S t)
  have "dev_of S i \<noteq> 0" using cpu_slot(1) by (simp add: dev_of_def)
  then show ?case using cpu_slot device_call [of "s_timer S" "dev_of S i" t In_next]
    by (intro seen_ok_keep) (auto simp: devices_def live_cpu_def)
next
  case (cpu_wait i S t)
  have "dev_of S i \<noteq> 0" using cpu_wait(1) by (simp add: dev_of_def)
  then show ?case using cpu_wait device_call [of "s_timer S" "dev_of S i" t In_slot]
    by (intro seen_ok_keep) (auto simp: devices_def live_cpu_def)
next
  case (cpu_detach i S t)
  have "dev_of S i \<noteq> 0" "cpu_proc (s_cpus S ! i) = None"
    using cpu_detach(1,2,6) by (auto simp: dev_of_def flags_ok_def)
  then show ?case using cpu_detach device_call [of "s_timer S" "dev_of S i" t Gone]
    by (intro seen_ok_keep) (auto simp: devices_def live_cpu_def owns_def)
next
  case (load S raw mem s avail l)
  then show ?case by (auto simp: seen_ok_def ld_load_def Let_def bindR_eq_Inr)
next
  case (init_mm mm0 S s l)
  then show ?case using ld_setup_facts(1,9) [OF init_mm(2)] by (auto simp: seen_ok_def)
next
  case (add S s l)
  have inv: "sched_inv (sched (s_os S))" using add(4) by (simp add: proc_ok_def)
  show ?case using ld_add_effect(3) [OF inv add(2)] by (simp add: seen_ok_def)
next
  case (ld_slot S ph t)
  have d: "slots (dev_list t ! 0) = slots (devices S ! 0)" "time_now t = time_now (s_timer S)"
    using ld_slot(2) by (auto simp: next_slot_enter_def devices_def split: if_splits)
  have "slots (devices S ! 0) = time_now (s_timer S)"
    using ld_device [OF ld_slot(3)] ld_slot(1) by (auto simp: dev_ok_def)
  then show ?case using ld_slot(1,7) d by (auto simp: seen_ok_def)
next
  case (ld_wait S ph t)
  have "\<not> dev_done (devices S ! 0)" using ld_wait(2) by (auto simp: next_slot_leave_def devices_def split: if_splits)
  then have "slots (devices S ! 0) \<noteq> time_now (s_timer S)"
    using ld_device [OF ld_wait(3)] ld_wait(1) by (auto simp: dev_ok_def split: if_splits)
  then show ?case using ld_wait(1,7) by (auto simp: seen_ok_def)
next
  case (timer S t)
  then show ?case by (intro seen_ok_timer) auto
next
  case (stop S t)
  then show ?case by (auto simp: seen_ok_def stop_timer_def devices_def split: if_splits)
qed (auto simp: seen_ok_def ld_time_def Let_def)

lemma cpus_kept: "sys_step cf fs S S' \<Longrightarrow> length (s_cpus S') = length (s_cpus S)"
  by (induction rule: sys_step.induct) simp_all

lemma cpus_reach: "sys_reach cf fs S \<Longrightarrow> length (s_cpus S) = nat (num_cpus cf)"
  by (induction rule: sys_reach.induct) (simp_all add: main_init_def cpus_kept)

lemma seen_ok_reach: "sys_reach cf fs S \<Longrightarrow> 0 < num_cpus cf \<Longrightarrow> seen_ok S"
proof (induction rule: sys_reach.induct)
  case (main mp0)
  have "ready_mset (init_scheduler zero_sched) = {#}" by (simp add: ready_mset_def init_scheduler_facts)
  then show ?case by (simp add: seen_ok_def main_init_def)
next
  case (step S S')
  then show ?case
    using seen_ok_step timer_link_reach proc_ok_reach flags_ok_reach cpus_reach by fastforce
qed

section \<open>Start times and quanta\<close>

definition start_ok :: "config_t \<Rightarrow> sys_t \<Rightarrow> bool" where
  "start_ok cf S \<longleftrightarrow> (ld_at (s_ld S) \<in> {L_init, L_mm, L_own, L_add} \<longrightarrow>
     ld_start (ld_processes cf ! ld_i (s_ld S)) \<le> time_now (s_timer S))"

lemma start_ok_step: "sys_step cf fs S S' \<Longrightarrow> timer_link S \<Longrightarrow> start_ok cf S \<Longrightarrow> start_ok cf S'"
proof (induction rule: sys_step.induct)
  case (timer S t)
  have "time_now t = time_now (s_timer S)" if "ld_at (s_ld S) \<in> {L_init, L_mm, L_own, L_add}"
  proof (rule ccontr)
    assume "time_now t \<noteq> time_now (s_timer S)"
    moreover have "0 < length (devices S)" using timer(2) by (simp add: timer_link_def)
    ultimately show False
      using time_step_waiting [OF timer(2,1), of 0] ld_device(2) [OF timer(2)] that by auto
  qed
  then show ?case using timer(3) by (simp add: start_ok_def)
next
  case (cpu_slot i S t)
  then show ?case using device_call(3) [of "s_timer S" "dev_of S i" t In_next] by (auto simp: start_ok_def)
next
  case (cpu_wait i S t)
  then show ?case using device_call(3) [of "s_timer S" "dev_of S i" t In_slot] by (auto simp: start_ok_def)
next
  case (cpu_detach i S t)
  then show ?case using device_call(3) [of "s_timer S" "dev_of S i" t Gone] by (auto simp: start_ok_def)
next
  case (init_mm mm0 S s l)
  then show ?case using ld_setup_facts(7,9) [OF init_mm(2)] by (auto simp: start_ok_def)
next
  case (stop S t)
  then show ?case by (auto simp: start_ok_def stop_timer_def split: if_splits)
qed (auto simp: start_ok_def ld_load_def ld_time_def ld_add_def current_time_def Let_def bindR_eq_Inr)

lemma start_ok_reach: "sys_reach cf fs S \<Longrightarrow> start_ok cf S"
proof (induction rule: sys_reach.induct)
  case (main mp0)
  show ?case by (simp add: start_ok_def main_init_def ld_begin_def)
next
  case (step S S')
  then show ?case using start_ok_step timer_link_reach by blast
qed

definition quantum_ok :: "config_t \<Rightarrow> cpu_t \<Rightarrow> bool" where
  "quantum_ok cf c \<longleftrightarrow> 0 \<le> time_left c \<and> time_left c \<le> time_slot cf \<and> (cpu_at c \<in> {C_switch, C_run} \<longrightarrow> 0 < time_left c)"

lemma quantum_ok_routine:
  "cpu_routine cf fin data0 s c = Some (Inr (s', c')) \<Longrightarrow> 0 < time_slot cf \<Longrightarrow> quantum_ok cf c \<Longrightarrow> quantum_ok cf c'"
  by (cases "cpu_at c")
    (auto simp: quantum_ok_def cpu_routine_def cpu_check_def cpu_idle_def cpu_get_def cpu_recheck_def cpu_switch_def cpu_run_def
      bindR_eq_Inr Let_def split: option.splits if_splits prod.splits)

lemma quantum_ok_step:
  "sys_step cf fs S S' \<Longrightarrow> 0 < time_slot cf \<Longrightarrow> \<forall>i < length (s_cpus S). quantum_ok cf (s_cpus S ! i)
   \<Longrightarrow> \<forall>i < length (s_cpus S'). quantum_ok cf (s_cpus S' ! i)"
proof (induction rule: sys_step.induct)
  case (cpu i S data0 s c)
  then show ?case using quantum_ok_routine [OF cpu(2)] by (auto simp: nth_list_update)
qed (auto simp: nth_list_update quantum_ok_def)

lemma quantum_ok_reach:
  "sys_reach cf fs S \<Longrightarrow> 0 < time_slot cf \<Longrightarrow> \<forall>i < length (s_cpus S). quantum_ok cf (s_cpus S ! i)"
proof (induction rule: sys_reach.induct)
  case (main mp0)
  then show ?case by (simp add: main_init_def quantum_ok_def cpu_start_def)
next
  case (step S S')
  then show ?case using quantum_ok_step by blast
qed

lemma owned_two:
  assumes "i < length cs" and "j < length cs" and "i \<noteq> j"
  shows "mset (owns (cs ! i)) + mset (owns (cs ! j)) \<subseteq># mset (held cs)"
proof -
  let ?c = "\<lparr>cpu_proc = None, time_left = 0, cpu_at = C_get\<rparr>"
  have "mset (owns ?c) = {#}" by (simp add: owns_def)
  then have "mset (held cs) = mset (held (cs[i := ?c])) + mset (owns (cs ! i))"
    using mset_held_update [OF assms(1), of ?c] by simp
  moreover have "mset (owns (cs ! j)) \<subseteq># mset (held (cs[i := ?c]))"
    using owned_part [of j "cs[i := ?c]"] assms by simp
  ultimately show ?thesis by (simp add: ac_simps)
qed

lemma active_once: "proc_ok cf S \<Longrightarrow> count (active S) q \<le> 1"
proof -
  assume "proc_ok cf S"
  then have "count (active S) q \<le> count (mset [0..<ld_i (s_ld S)]) q"
    unfolding proc_ok_def by (intro mset_subset_eq_count) blast
  also have "\<dots> \<le> 1" using distinct_count_atmost_1 [THEN iffD1, OF distinct_upt, of 0 "ld_i (s_ld S)"] by simp
  finally show ?thesis .
qed

text \<open>When the CPUs have left, nothing is active any more.\<close>

lemma finished_when_left:
  assumes "sys_reach cf fs S" and "0 < num_cpus cf" and "num_processes cf \<le> int MAX_QUEUE_SIZE"
    and "\<forall>c \<in> set (s_cpus S). cpu_at c = C_exit"
  shows "length (pcbs (s_os S)) = nat (num_processes cf)
    \<and> (\<forall>p < length (pcbs (s_os S)). pc (pcbs (s_os S) ! p) = code_size (code (pcbs (s_os S) ! p)))"
proof -
  note ok = proc_ok_reach [OF assms(1)] and fl = flags_ok_reach [OF assms(1)]
  have n: "0 < length (s_cpus S)" using cpus_reach [OF assms(1)] assms(2) by simp
  have exit: "cpu_at (s_cpus S ! i) = C_exit" "cpu_proc (s_cpus S ! i) = None" if "i < length (s_cpus S)" for i
    using fl assms(4) that by (auto simp: flags_ok_def)
  have "s_done S" using fl exit(1) [OF n] n by (auto simp: flags_ok_def)
  then have at: "ld_at (s_ld S) \<in> {L_detach, L_exit}" "num_processes cf \<le> int (ld_i (s_ld S))"
    using fl by (auto simp: flags_ok_def)
  have dead: "\<not> live_cpu (s_cpus S ! i)" if "i < length (s_cpus S)" for i
    using exit [OF that] by (simp add: live_cpu_def owns_def)
  then have "ready_mset (sched (s_os S)) = {#}"
    using seen_ok_reach [OF assms(1,2)] at(1) by (auto simp: seen_ok_def)
  moreover have "mset (held (s_cpus S)) = {#}"
    using exit by (auto simp: held_def owns_def in_set_conv_nth)
  ultimately have "active S = {#}" by (simp add: active_def)
  then have "\<forall>p < ld_i (s_ld S). finished (s_os S) p"
    using nothing_lost_reach [OF assms(1)] assms(3) by (simp add: nothing_lost_def)
  moreover have "length (pcbs (s_os S)) = ld_i (s_ld S)" "length (pcbs (s_os S)) \<le> nat (num_processes cf)"
    using ok at(1) by (auto simp: proc_ok_def)
  ultimately show ?thesis using at(2) by (auto simp: finished_def)
qed

section \<open>Properties\<close>

text \<open>C8: No process is ever in two places.  In every reachable state of the whole program, for any
  number of CPUs and any interleaving, the process a CPU works on is on no ready queue and in
  the hands of no other CPU, and no process is queued twice.\<close>

theorem sys_mutual_exclusion:
  assumes "sys_reach cf fs S" and "i < length (s_cpus S)"
    and "cpu_proc (s_cpus S ! i) = Some p" and "cpu_at (s_cpus S ! i) \<noteq> C_get"
  shows "(\<forall>j < length (s_cpus S). j \<noteq> i \<longrightarrow> cpu_at (s_cpus S ! j) \<noteq> C_get \<longrightarrow> cpu_proc (s_cpus S ! j) \<noteq> Some p)
    \<and> (\<forall>k < MAX_PRIO. p \<notin> set (level (sched (s_os S)) k)) \<and> p < length (pcbs (s_os S))
    \<and> (\<forall>q. count (ready_mset (sched (s_os S))) q \<le> 1)"
proof -
  have ok: "proc_ok cf S" using proc_ok_reach [OF assms(1)] .
  note once = active_once [OF ok]
  have own: "owns (s_cpus S ! i) = [p]" using assms(3,4) by (simp add: owns_def)
  have part: "{#p#} \<subseteq># mset (held (s_cpus S))" using owned_part [OF assms(2)] own by simp
  have "p \<notin># ready_mset (sched (s_os S))"
  proof
    assume "p \<in># ready_mset (sched (s_os S))"
    then have "0 < count (ready_mset (sched (s_os S))) p" by simp
    moreover have "0 < count (mset (held (s_cpus S))) p" using part by simp
    ultimately show False using once [of p] unfolding active_def count_union by linarith
  qed
  moreover have "set (level (sched (s_os S)) k) \<subseteq> set_mset (ready_mset (sched (s_os S)))" if "k < MAX_PRIO" for k
    using that by (auto simp: ready_mset_def sum.remove [of _ k])
  moreover have "cpu_proc (s_cpus S ! j) \<noteq> Some p"
    if "j < length (s_cpus S)" "j \<noteq> i" "cpu_at (s_cpus S ! j) \<noteq> C_get" for j
  proof
    assume "cpu_proc (s_cpus S ! j) = Some p"
    then have "{#p, p#} \<subseteq># mset (held (s_cpus S))"
      using owned_two [OF assms(2) that(1)] own that(2,3) by (simp add: owns_def)
    then have "count {#p, p#} p \<le> count (active S) p"
      by (intro mset_subset_eq_count) (simp add: active_def subset_mset.add_increasing)
    then show False using once [of p] by simp
  qed
  moreover have "p \<in># mset [0..<ld_i (s_ld S)]"
    using ok part unfolding proc_ok_def active_def
    by (meson insert_subset_eq_iff mset_subset_eqD mset_subset_eq_add_right subset_mset.order_trans union_single_eq_member single_subset_iff)
  moreover have "count (ready_mset (sched (s_os S))) q \<le> 1" for q using once [of q] by (simp add: active_def)
  ultimately show ?thesis using ok by (auto simp: proc_ok_def split: if_splits)
qed

text \<open>C6: The simulator never stops early.  With at most 50 processes and at least one CPU, when all CPU
  threads have left their loops, every process of the configuration was loaded and has
  executed all its instructions.  (The loader sets \<open>done\<close> one slot after the last \<open>add_proc\<close>, and the
  barrier of the timer keeps a CPU that saw empty queues before it from seeing the flag.)\<close>

theorem sys_all_processes_finish:
  assumes "sys_reach cf fs S" and "0 < num_cpus cf" and "num_processes cf \<le> int MAX_QUEUE_SIZE"
    and "\<forall>c \<in> set (s_cpus S). cpu_at c = C_exit"
  shows "length (pcbs (s_os S)) = nat (num_processes cf)
    \<and> (\<forall>p < length (pcbs (s_os S)). pc (pcbs (s_os S) ! p) = code_size (code (pcbs (s_os S) ! p)))"
  by (rule finished_when_left [OF assms])

text \<open>C18: A process never enters the ready queues before its start time.  Whenever, in any execution from
  \<open>main\<close> on, process \<open>q\<close> is in a ready queue, there was an earlier step that put it there: until
  then no ready queue held \<open>q\<close> and no CPU ran it, the step was the loader's \<open>add_proc\<close> for \<open>q\<close>, and the
  clock then showed at least the start time of the configuration.\<close>

theorem sys_start_times:
  assumes "f 0 = main_init cf mp0" and "\<And>k. k < n \<Longrightarrow> sys_step cf fs (f k) (f (Suc k))"
    and "q \<in># ready_mset (sched (s_os (f n)))"
  shows "\<exists>m < n. (\<forall>k \<le> m. q \<notin># ready_mset (sched (s_os (f k))) \<and> q \<notin> set (held (s_cpus (f k))))
    \<and> ld_at (s_ld (f m)) = L_add \<and> q = ld_i (s_ld (f m))
    \<and> ld_start (ld_processes cf ! q) \<le> current_time (s_timer (f m))
    \<and> q \<in># ready_mset (sched (s_os (f (Suc m))))"
proof -
  have reach: "sys_reach cf fs (f k)" if "k \<le> n" for k
    using that by (induction k) (auto intro: sys_reach.intros simp: assms(1,2))
  have act: "q \<in># active (f n)" using assms(3) by (simp add: active_def)
  have none: "q \<notin># active (f 0)"
    using proc_ok_reach [OF reach [of 0]] mset_subset_eqD [of "active (f 0)"] by (fastforce simp: assms(1) proc_ok_def main_init_def ld_begin_def)
  define m where "m = (LEAST m. q \<in># active (f m)) - 1"
  have "(LEAST m. q \<in># active (f m)) \<noteq> 0" using none act by (metis (no_types, lifting) LeastI)
  then have Least: "(LEAST m. q \<in># active (f m)) = Suc m" by (simp add: m_def)
  have m: "q \<in># active (f (Suc m))" "m < n" "\<forall>k \<le> m. q \<notin># active (f k)"
    using LeastI [of "\<lambda>m. q \<in># active (f m)" n, OF act] Least_le [of "\<lambda>m. q \<in># active (f m)" n, OF act]
      not_less_Least [of _ "\<lambda>m. q \<in># active (f m)"] unfolding Least by (simp_all add: less_Suc_eq_le)
  note r = reach [of m] and e = active_enters [OF assms(2) [OF m(2)] proc_ok_reach m(1)]
  from m(2,3) e r start_ok_reach [OF r] show ?thesis
    by (intro exI [of _ m]) (auto simp: active_def start_ok_def current_time_def)
qed

text \<open>C19: The time slice.  With a positive time slot, a CPU executes an instruction only while its
  budget is positive, the budget never exceeds the time slot and never becomes negative, and every
  executed instruction costs one unit, so a process executes at most \<open>time_slot\<close> instructions
  before its CPU puts it back or it has finished.\<close>

theorem sys_quantum:
  assumes "sys_reach cf fs S" and "0 < time_slot cf" and "i < length (s_cpus S)"
  shows "0 \<le> time_left (s_cpus S ! i) \<and> time_left (s_cpus S ! i) \<le> time_slot cf
    \<and> (cpu_at (s_cpus S ! i) = C_run \<longrightarrow> 0 < time_left (s_cpus S ! i)
        \<and> (\<forall>data0 s c. cpu_run data0 (s_os S) (s_cpus S ! i) = Inr (s, c)
             \<longrightarrow> time_left c = time_left (s_cpus S ! i) - 1 \<and> cpu_proc c = cpu_proc (s_cpus S ! i)))"
  using quantum_ok_reach [OF assms(1,2)] assms(3)
  by (auto simp: quantum_ok_def cpu_switch_def cpu_run_def bindR_eq_Inr Let_def)

end
