(* ===== verification/OS_Demo.thy ===== *)
theory OS_Demo
  imports OS_Sim
begin

text \<open>
  An executable reading of \<open>sys_step\<close>: \<open>sys_do\<close> performs the step an event names, \<open>sys_exec\<close> a list of
  them.  A complete run of the program on one CPU and a process of one instruction is
  evaluated with it, from \<open>main\<close> to the end of all threads; it shows that the properties of
  \<open>OS_Sim\<close> speak of real runs.
\<close>

section \<open>Executing steps\<close>

datatype event = Ev_cpu nat | Ev_slot nat | Ev_wait nat | Ev_detach nat | Ev_load | Ev_finish | Ev_time | Ev_init
  | Ev_add | Ev_ld_slot | Ev_ld_wait | Ev_ld_detach | Ev_timer | Ev_stop | Ev_return

text \<open>The contents of allocated memory are fixed here: a blank control block, blank instructions and a
  blank \<open>mm_struct\<close>.\<close>

fun sys_do :: "config_t \<Rightarrow> (string \<Rightarrow> string option) \<Rightarrow> event \<Rightarrow> sys_t \<Rightarrow> sys_t option" where
  "sys_do cf fs (Ev_cpu i) S =
     (if i < length (s_cpus S) then
        (case cpu_routine cf (s_done S) 0 (s_os S) (s_cpus S ! i) of
           Some (Inr (s, c)) \<Rightarrow> Some (set_cpu (S\<lparr>s_os := s\<rparr>) i c) | _ \<Rightarrow> None) else None)"
| "sys_do cf fs (Ev_slot i) S =
     (if i < length (s_cpus S) \<and> cpu_at (s_cpus S ! i) = C_slot then
        map_option (\<lambda>t. set_cpu (S\<lparr>s_timer := t\<rparr>) i ((s_cpus S ! i)\<lparr>cpu_at := C_wait\<rparr>))
          (next_slot_enter (s_timer S) (dev_of S i)) else None)"
| "sys_do cf fs (Ev_wait i) S =
     (if i < length (s_cpus S) \<and> cpu_at (s_cpus S ! i) = C_wait then
        map_option (\<lambda>t. set_cpu (S\<lparr>s_timer := t\<rparr>) i ((s_cpus S ! i)\<lparr>cpu_at := C_check\<rparr>))
          (next_slot_leave (s_timer S) (dev_of S i)) else None)"
| "sys_do cf fs (Ev_detach i) S =
     (if i < length (s_cpus S) \<and> cpu_at (s_cpus S ! i) = C_detach then
        map_option (\<lambda>t. set_cpu (S\<lparr>s_timer := t\<rparr>) i ((s_cpus S ! i)\<lparr>cpu_at := C_exit\<rparr>))
          (detach_event (s_timer S) (dev_of S i)) else None)"
| "sys_do cf fs Ev_load S =
     (if ld_at (s_ld S) = L_load \<and> int (ld_i (s_ld S)) < num_processes cf then
        (case ld_load cf fs (small_pcb 0 []) (\<lambda>_. nop) (s_pid S) (s_os S) (s_ld S) of
           Inr (s, avail, l) \<Rightarrow> Some (S\<lparr>s_os := s, s_pid := avail, s_ld := l\<rparr>) | Inl _ \<Rightarrow> None) else None)"
| "sys_do cf fs Ev_finish S =
     (if ld_at (s_ld S) = L_load \<and> \<not> int (ld_i (s_ld S)) < num_processes cf
      then Some (S\<lparr>s_done := True, s_ld := (s_ld S)\<lparr>ld_at := L_detach\<rparr>\<rparr>) else None)"
| "sys_do cf fs Ev_time S =
     (if ld_at (s_ld S) = L_time then Some (S\<lparr>s_ld := ld_time cf (current_time (s_timer S)) (s_ld S)\<rparr>) else None)"
| "sys_do cf fs Ev_init S =
     (case ld_setup fresh_mm (s_os S) (s_ld S) of
        Some (Inr (s, l)) \<Rightarrow> Some (S\<lparr>s_os := s, s_ld := l\<rparr>) | _ \<Rightarrow> None)"
| "sys_do cf fs Ev_add S =
     (if ld_at (s_ld S) = L_add then
        (case ld_add (s_os S) (s_ld S) of Inr (s, l) \<Rightarrow> Some (S\<lparr>s_os := s, s_ld := l\<rparr>) | Inl _ \<Rightarrow> None) else None)"
| "sys_do cf fs Ev_ld_slot S =
     (if ld_at (s_ld S) \<in> {L_tslot, L_slot} then
        map_option (\<lambda>t. S\<lparr>s_timer := t, s_ld := (s_ld S)\<lparr>ld_at := if ld_at (s_ld S) = L_slot then L_wait else L_twait\<rparr>\<rparr>)
          (next_slot_enter (s_timer S) 0) else None)"
| "sys_do cf fs Ev_ld_wait S =
     (if ld_at (s_ld S) \<in> {L_twait, L_wait} then
        map_option (\<lambda>t. S\<lparr>s_timer := t, s_ld := (s_ld S)\<lparr>ld_at := if ld_at (s_ld S) = L_wait then L_load else L_time\<rparr>\<rparr>)
          (next_slot_leave (s_timer S) 0) else None)"
| "sys_do cf fs Ev_ld_detach S =
     (if ld_at (s_ld S) = L_detach then
        map_option (\<lambda>t. S\<lparr>s_timer := t, s_ld := (s_ld S)\<lparr>ld_at := L_exit\<rparr>\<rparr>) (detach_event (s_timer S) 0) else None)"
| "sys_do cf fs Ev_timer S = map_option (\<lambda>t. S\<lparr>s_timer := t\<rparr>) (timer_routine (s_timer S))"
| "sys_do cf fs Ev_stop S =
     (if s_main S = M_join \<and> list_all (\<lambda>c. cpu_at c = C_exit) (s_cpus S) \<and> ld_at (s_ld S) = L_exit
      then map_option (\<lambda>t. S\<lparr>s_timer := t, s_main := M_stop\<rparr>) (stop_timer (s_timer S)) else None)"
| "sys_do cf fs Ev_return S =
     (if s_main S = M_stop \<and> t_phase (s_timer S) = T_exit then Some (S\<lparr>s_main := M_return\<rparr>) else None)"

fun sys_exec :: "config_t \<Rightarrow> (string \<Rightarrow> string option) \<Rightarrow> event list \<Rightarrow> sys_t \<Rightarrow> sys_t option" where
  "sys_exec cf fs [] S = Some S"
| "sys_exec cf fs (e # es) S = (case sys_do cf fs e S of None \<Rightarrow> None | Some S' \<Rightarrow> sys_exec cf fs es S')"

lemma sys_do_step: "sys_do cf fs e S = Some S' \<Longrightarrow> sys_step cf fs S S'"
proof (cases e)
  case Ev_init
  have fresh: "length (symrgtbl fresh_mm) = PAGING_MAX_SYMTBL_SZ" using fresh_mm(1) by (simp add: mm_ok_def)
  assume "sys_do cf fs e S = Some S'"
  then show ?thesis using Ev_init by (auto intro!: sys_step.init_mm [OF fresh] split: option.splits sum.splits)
qed (auto intro: sys_step.intros split: if_splits option.splits sum.splits)

lemma sys_exec_reach: "sys_reach cf fs S \<Longrightarrow> sys_exec cf fs es S = Some S' \<Longrightarrow> sys_reach cf fs S'"
proof (induction es arbitrary: S)
  case (Cons e es)
  then obtain S1 where "sys_do cf fs e S = Some S1" "sys_exec cf fs es S1 = Some S'"
    by (auto split: option.splits)
  then show ?case using Cons.IH sys_reach.step [OF Cons.prems(1) sys_do_step] by blast
qed simp

text \<open>The states along a list of events.\<close>

definition states_of :: "config_t \<Rightarrow> (string \<Rightarrow> string option) \<Rightarrow> event list \<Rightarrow> sys_t \<Rightarrow> nat \<Rightarrow> sys_t" where
  "states_of cf fs es S n = the (sys_exec cf fs (take n es) S)"

lemma sys_exec_append:
  "sys_exec cf fs (xs @ ys) S = (case sys_exec cf fs xs S of None \<Rightarrow> None | Some S' \<Rightarrow> sys_exec cf fs ys S')"
  by (induction xs arbitrary: S) (auto split: option.splits)

lemma states_of_step:
  assumes x: "sys_exec cf fs es S0 = Some S" and "n < length es"
  shows "sys_step cf fs (states_of cf fs es S0 n) (states_of cf fs es S0 (Suc n))"
proof -
  have "es = take (Suc n) es @ drop (Suc n) es" by simp
  then obtain S2 where S2: "sys_exec cf fs (take (Suc n) es) S0 = Some S2"
    using x sys_exec_append [of cf fs "take (Suc n) es" "drop (Suc n) es"] by (auto split: option.splits)
  then obtain S1 where "sys_exec cf fs (take n es) S0 = Some S1" "sys_do cf fs (es ! n) S1 = Some S2"
    using assms(2) by (auto simp: take_Suc_conv_app_nth sys_exec_append split: option.splits)
  then show ?thesis using S2 sys_do_step by (simp add: states_of_def)
qed

section \<open>A complete run\<close>

definition demo_config :: config_t where
  "demo_config = \<lparr>time_slot = 2, num_cpus = 1, num_processes = 1, memramsz = 256, memswpsz = [256, 0, 0, 0],
     ld_processes = [\<lparr>ld_path = ''p'', ld_start = 0, ld_prio = 3\<rparr>]\<rparr>"

definition demo_fs :: "string \<Rightarrow> string option" where
  "demo_fs path = Some (print_proc 5 [nop])"

definition demo_start :: sys_t where
  "demo_start = main_init demo_config blank_device"

text \<open>Slot 0: the loader adds the process, the CPU runs it.  Slot 1: the CPU finds it finished, the
  loader sets \<open>done\<close>.\<close>

definition slot_0 :: "event list" where
  "slot_0 = [Ev_load, Ev_time, Ev_init, Ev_init, Ev_init, Ev_add, Ev_cpu 0, Ev_cpu 0, Ev_cpu 0, Ev_cpu 0, Ev_slot 0, Ev_ld_slot]"

definition turn :: "event list" where
  "turn = replicate 7 Ev_timer @ [Ev_wait 0, Ev_ld_wait]"

definition slot_1 :: "event list" where
  "slot_1 = [Ev_finish, Ev_cpu 0, Ev_cpu 0, Ev_cpu 0, Ev_detach 0, Ev_ld_detach]"

lemma whole_run:
  "map_option (\<lambda>S. (map cpu_at (s_cpus S), ld_at (s_ld S), map pc (pcbs (s_os S)), time_now (s_timer S)))
     (sys_exec demo_config demo_fs (slot_0 @ turn @ slot_1) demo_start) = Some ([C_exit], L_exit, [1], 1)"
  by code_simp

text \<open>Two CPUs competing for the process, with the program counter before and after the next step of the
  winner.\<close>

definition demo_config_2 :: config_t where
  "demo_config_2 = demo_config\<lparr>num_cpus := 2\<rparr>"

definition two_cpus :: "event list" where
  "two_cpus = [Ev_load, Ev_time, Ev_init, Ev_init, Ev_init, Ev_add, Ev_cpu 1, Ev_cpu 0, Ev_cpu 1, Ev_cpu 1]"

lemma two_cpus_run:
  "map_option (\<lambda>S. (map cpu_proc (s_cpus S), map cpu_at (s_cpus S), map time_left (s_cpus S),
      ld_i (s_ld S), pc (pcbs (s_os S) ! 0),
      map_option (\<lambda>S'. pc (pcbs (s_os S') ! 0)) (sys_do demo_config_2 demo_fs (Ev_cpu 1) S)))
     (sys_exec demo_config_2 demo_fs two_cpus (main_init demo_config_2 blank_device)) = Some ([None, Some 0], [C_idle, C_run], [0, 2], 1, 0, Some 1)"
  by code_simp

text \<open>A process that starts at time 1: the loader waits for the next slot before it adds it.\<close>

definition delayed_config :: config_t where
  "delayed_config = demo_config\<lparr>ld_processes := [\<lparr>ld_path = ''p'', ld_start = 1, ld_prio = 3\<rparr>]\<rparr>"

definition delayed_events :: "event list" where
  "delayed_events = [Ev_load, Ev_time, Ev_cpu 0, Ev_cpu 0, Ev_slot 0, Ev_ld_slot] @ turn
     @ [Ev_time, Ev_init, Ev_init, Ev_init, Ev_add]"

lemma delayed_run:
  "map_option (\<lambda>S. level (sched (s_os S)) 3) (sys_exec delayed_config demo_fs delayed_events (main_init delayed_config blank_device))
     = Some [0]"
  by code_simp

lemma demo_reach: "sys_exec demo_config demo_fs es demo_start = Some S \<Longrightarrow> sys_reach demo_config demo_fs S"
  unfolding demo_start_def by (rule sys_exec_reach [OF sys_reach.main])

lemma demo_reach_2:
  "sys_exec demo_config_2 demo_fs es (main_init demo_config_2 blank_device) = Some S
   \<Longrightarrow> sys_reach demo_config_2 demo_fs S"
  by (rule sys_exec_reach [OF sys_reach.main])

section \<open>Witnesses\<close>

theorem sys_mutual_exclusion_witness:
  "\<exists>S. sys_reach demo_config_2 demo_fs S \<and> cpu_proc (s_cpus S ! 1) = Some 0
     \<and> cpu_proc (s_cpus S ! 0) \<noteq> Some 0 \<and> 0 \<notin> set (level (sched (s_os S)) 3)"
proof -
  obtain S where x: "sys_exec demo_config_2 demo_fs two_cpus (main_init demo_config_2 blank_device) = Some S"
    and c: "map cpu_proc (s_cpus S) = [None, Some 0]" "map cpu_at (s_cpus S) = [C_idle, C_run]"
    using two_cpus_run by auto
  have len: "length (s_cpus S) = 2" using arg_cong [OF c(1), of length] by simp
  have "map cpu_proc (s_cpus S) ! 1 = Some 0" "map cpu_at (s_cpus S) ! 1 = C_run" "map cpu_at (s_cpus S) ! 0 = C_idle"
    unfolding c by simp_all
  then have "cpu_proc (s_cpus S ! 1) = Some 0" "cpu_at (s_cpus S ! 1) = C_run" "cpu_at (s_cpus S ! 0) = C_idle"
    using len by simp_all
  then show ?thesis
    using sys_mutual_exclusion [OF demo_reach_2 [OF x], of 1 0] demo_reach_2 [OF x] len
    by (auto simp: MAX_PRIO_def)
qed

theorem sys_all_processes_finish_witness:
  "\<exists>S. sys_reach demo_config demo_fs S \<and> (\<forall>c \<in> set (s_cpus S). cpu_at c = C_exit)
     \<and> length (pcbs (s_os S)) = 1 \<and> pc (pcbs (s_os S) ! 0) = code_size (code (pcbs (s_os S) ! 0))"
proof -
  obtain S where x: "sys_exec demo_config demo_fs (slot_0 @ turn @ slot_1) demo_start = Some S"
    and c: "map cpu_at (s_cpus S) = [C_exit]"
    using whole_run by auto
  have e: "\<forall>c \<in> set (s_cpus S). cpu_at c = C_exit" using c by auto
  show ?thesis
    using sys_all_processes_finish [OF demo_reach [OF x] _ _ e] demo_reach [OF x] e
    by (auto simp: demo_config_def MAX_QUEUE_SIZE_def)
qed

theorem sys_start_times_witness:
  "let f = states_of delayed_config demo_fs delayed_events (main_init delayed_config blank_device)
   in 0 \<in># ready_mset (sched (s_os (f 20)))
     \<and> (\<exists>m < 20. 1 \<le> current_time (s_timer (f m)) \<and> (\<forall>k \<le> m. 0 \<notin># ready_mset (sched (s_os (f k)))))"
proof -
  let ?f = "states_of delayed_config demo_fs delayed_events (main_init delayed_config blank_device)"
  obtain S where x: "sys_exec delayed_config demo_fs delayed_events (main_init delayed_config blank_device) = Some S"
    and l: "level (sched (s_os S)) 3 = [0]" using delayed_run by auto
  have len: "length delayed_events = 20" by (simp add: delayed_events_def turn_def)
  have ready: "0 \<in># ready_mset (sched (s_os (?f 20)))"
    using l x len by (simp add: states_of_def ready_mset_def MAX_PRIO_def sum.remove [of "{..<140}" 3])
  have start: "ld_start (ld_processes delayed_config ! 0) = 1" by (simp add: delayed_config_def)
  have "?f 0 = main_init delayed_config blank_device" by (simp add: states_of_def)
  moreover have "sys_step delayed_config demo_fs (?f k) (?f (Suc k))" if "k < 20" for k
    using states_of_step [OF x] that len by simp
  ultimately obtain m where "m < 20" "\<forall>k \<le> m. 0 \<notin># ready_mset (sched (s_os (?f k)))"
    "1 \<le> current_time (s_timer (?f m))"
    using sys_start_times [of ?f delayed_config blank_device 20 demo_fs 0, OF _ _ ready] start by auto
  then show ?thesis using ready unfolding Let_def by blast
qed

theorem sys_quantum_witness:
  "\<exists>S. sys_reach demo_config_2 demo_fs S \<and> cpu_at (s_cpus S ! 1) = C_run
     \<and> 0 < time_left (s_cpus S ! 1) \<and> time_left (s_cpus S ! 1) \<le> 2"
proof -
  obtain S where x: "sys_exec demo_config_2 demo_fs two_cpus (main_init demo_config_2 blank_device) = Some S"
    and c: "map cpu_at (s_cpus S) = [C_idle, C_run]"
    using two_cpus_run by auto
  have len: "length (s_cpus S) = 2" using arg_cong [OF c, of length] by simp
  have "map cpu_at (s_cpus S) ! 1 = C_run" unfolding c by simp
  then have "cpu_at (s_cpus S ! 1) = C_run" using len by simp
  then show ?thesis
    using sys_quantum [OF demo_reach_2 [OF x], of 1] demo_reach_2 [OF x] len
    by (auto simp: demo_config_2_def demo_config_def)
qed

end
