(* ===== verification/OS_Isolation.thy ===== *)
theory OS_Isolation
  imports OS_Demo
begin

text \<open>
  Isolation in the program as a whole, and where it fails.  The loader gives a new process its memory by
  way of \<open>krnl->mm\<close>, which every CPU overwrites before each instruction.  In runs in which no CPU does so
  between the loader's assignments (calm runs), the process ids are distinct, the running
  list names loaded processes, and every loaded process has an \<open>mm_struct\<close> of its own; so an
  instruction changes the control block and the memory bookkeeping of its own process only,
  whatever the other threads do in between.  In other runs two processes end up with the same
  memory.  The calls are followed with the locale \<open>call_closed\<close> of \<open>OS_Confine\<close> once more, for the
  processes that have been initialised.
\<close>

section \<open>Calls on initialised processes\<close>

text \<open>The first \<open>n\<close> processes have distinct \<open>mm_struct\<close>s; a process that is being loaded may still
  hold whatever was in its memory.\<close>

definition mms_ok :: "nat \<Rightarrow> os_t \<Rightarrow> bool" where
  "mms_ok n s \<longleftrightarrow> n \<le> length (pcbs s)
     \<and> (\<forall>p < n. \<forall>m. pcb_mm (pcbs s ! p) = Some m \<longrightarrow> m < length (mms s))
     \<and> (\<forall>p < n. \<forall>q < n. \<forall>m. pcb_mm (pcbs s ! p) = Some m \<longrightarrow> pcb_mm (pcbs s ! q) = Some m \<longrightarrow> p = q)"

definition sealed :: "nat \<Rightarrow> os_t \<Rightarrow> pcb_ref \<Rightarrow> os_t \<Rightarrow> bool" where
  "sealed n s0 p s \<longleftrightarrow> mms_ok n s \<and> p < n \<and> caller_found s p \<and> pcbs s = pcbs s0 \<and> sched s = sched s0
     \<and> k_running s = k_running s0 \<and> (\<forall>q < n. q \<noteq> p \<longrightarrow> proc_mm s q = proc_mm s0 q)"

lemma caller_found_same:
  "pcbs s' = pcbs s \<Longrightarrow> sched s' = sched s \<Longrightarrow> k_running s' = k_running s \<Longrightarrow> caller_found s' p = caller_found s p"
  by (simp add: caller_found_def find_caller_def)

lemma proc_mm_set:
  assumes "mms_ok n s" and "p < n" and "q < n" and "q \<noteq> p"
  shows "proc_mm (set_proc_mm s p mm) q = proc_mm s q"
proof (cases "pcb_mm (pcbs s ! p)")
  case (Some m)
  then have "pcb_mm (pcbs s ! q) \<noteq> Some m" using assms unfolding mms_ok_def by blast
  then show ?thesis using Some by (cases "pcb_mm (pcbs s ! q)") (simp_all add: set_proc_mm_def proc_mm_def)
qed (simp add: set_proc_mm_def)

lemma set_proc_mm_parts [simp]:
  "pcbs (set_proc_mm s p mm) = pcbs s" "sched (set_proc_mm s p mm) = sched s"
  "k_running (set_proc_mm s p mm) = k_running s" "length (mms (set_proc_mm s p mm)) = length (mms s)"
  by (simp_all add: set_proc_mm_def split: option.split)

lemma sealed_step:
  assumes "sealed n s0 p s" and "pcbs s' = pcbs s" and "sched s' = sched s" and "k_running s' = k_running s"
    and "length (mms s') = length (mms s)"
    and "\<And>q. q < n \<Longrightarrow> q \<noteq> p \<Longrightarrow> proc_mm s' q = proc_mm s q"
  shows "sealed n s0 p s'"
proof -
  have "mms_ok n s'" using assms(1) unfolding sealed_def mms_ok_def assms(2,5) by blast
  moreover have "caller_found s' p"
    using assms(1) caller_found_same [OF assms(2-4)] by (simp add: sealed_def)
  ultimately show ?thesis using assms(1) by (simp add: sealed_def assms(2-4,6))
qed

lemma sealed_set_mm: "sealed n s0 p s \<Longrightarrow> sealed n s0 p (set_proc_mm s p mm)"
  by (rule sealed_step, assumption, simp_all, rule proc_mm_set [where n = n], simp_all add: sealed_def)

lemma sealed_devs: "sealed n s0 p s \<Longrightarrow> sealed n s0 p (s\<lparr>devs := d\<rparr>)"
  by (erule sealed_step) (simp_all add: proc_mm_def)

lemma sealed_store: "sealed n s0 p s \<Longrightarrow> sealed n s0 p (store_caller s p c)"
  unfolding store_caller_def Let_def
  by (intro sealed_devs) (auto intro: sealed_set_mm split: option.split)

lemma sealed_on_proc: "sealed n s0 p s \<Longrightarrow> on_proc s p f = Inr (r, s') \<Longrightarrow> sealed n s0 p s'"
  by (auto simp: on_proc_def bindR_eq_Inr intro: sealed_store)

lemma sealed_syscall:
  assumes "sealed n s0 p s" and "syscall s (pid (pcbs s ! p)) nr regs = Inr (r, rs, s')"
  shows "sealed n s0 p s'"
proof -
  have "find_caller s (pid (pcbs s ! p)) \<in> {None, Some p}"
    using assms(1) unfolding sealed_def caller_found_def by blast
  then show ?thesis
    using assms
    by (auto simp: syscall_def sys_memmap_def Let_def bindR_eq_Inr split: if_splits option.splits
        intro: sealed_devs dest: sealed_on_proc [OF assms(1)])
qed

interpretation isolated: call_closed "sealed n s0 p" p for n s0 p
  by unfold_locales (fact sealed_set_mm sealed_store sealed_syscall)+

text \<open>One instruction of an initialised process.\<close>

lemma run_isolated:
  assumes "run data0 s p = Inr (r, s')" and "mms_ok n s" and "p < n" and "caller_found s p"
  shows "mms_ok n s'" and "q < n \<Longrightarrow> q \<noteq> p \<Longrightarrow> proc_mm s' q = proc_mm s q"
    and "q \<noteq> p \<Longrightarrow> pcbs s' ! q = pcbs s ! q"
    and "pcbs s' ! p = (pcbs s ! p)\<lparr>pc := pc (pcbs s' ! p)\<rparr>"
    and "pid (pcbs s' ! q) = pid (pcbs s ! q)" and "length (pcbs s') = length (pcbs s)"
proof -
  let ?s1 = "s\<lparr>pcbs := (pcbs s)[p := (pcbs s ! p)\<lparr>pc := pc (pcbs s ! p) + 1\<rparr>]\<rparr>"
  have p: "p < length (pcbs s)" using assms(2,3) by (simp add: mms_ok_def)
  have same: "pid (pcbs ?s1 ! x) = pid (pcbs s ! x)" "pcb_mm (pcbs ?s1 ! x) = pcb_mm (pcbs s ! x)" for x
    using p by (simp_all add: nth_list_update)
  have pcbs_sched: "sched ?s1 = sched s" "k_running ?s1 = k_running s" by simp_all
  have "mms_ok n ?s1" using assms(2) by (simp only: mms_ok_def same) simp
  moreover have "caller_found ?s1 p"
    using assms(4) by (simp only: caller_found_def find_caller_def same pcbs_sched)
  ultimately have start: "sealed n ?s1 p ?s1" using assms(3) by (simp add: sealed_def)
  have "s' = s \<or> sealed n ?s1 p s'"
  proof (cases "pc (pcbs s ! p) < code_size (code (pcbs s ! p))")
    case True
    then obtain ins where "exec_inst data0 ?s1 p ins = Inr (r, s')"
      using assms(1) by (auto simp: run_def Let_def bindR_eq_Inr not_le [symmetric])
    then show ?thesis using isolated.stays_exec [OF start, of data0 ins] by (simp add: stays_def)
  qed (use assms(1) in \<open>simp add: run_def not_less\<close>)
  moreover have "proc_mm ?s1 x = proc_mm s x" for x using same(2) [of x] by (simp add: proc_mm_def)
  ultimately show "mms_ok n s'" "q < n \<Longrightarrow> q \<noteq> p \<Longrightarrow> proc_mm s' q = proc_mm s q"
    "q \<noteq> p \<Longrightarrow> pcbs s' ! q = pcbs s ! q" "pcbs s' ! p = (pcbs s ! p)\<lparr>pc := pc (pcbs s' ! p)\<rparr>"
    "pid (pcbs s' ! q) = pid (pcbs s ! q)" "length (pcbs s') = length (pcbs s)"
    using assms(2) p by (auto simp: sealed_def nth_list_update)
qed

section \<open>Process ids and the running list\<close>

text \<open>The loader numbers the control blocks from 1.\<close>

definition pids_ok :: "os_t \<Rightarrow> bool" where
  "pids_ok s \<longleftrightarrow> (\<forall>k < length (pcbs s). pid (pcbs s ! k) = of_nat (Suc k))"

lemma caller_found_pids:
  assumes "pids_ok s" and "sched_inv (sched s)" and "set (running (sched s)) \<subseteq> {..<length (pcbs s)}"
    and "p < length (pcbs s)" and "length (pcbs s) < 2 ^ 32"
  shows "caller_found s p"
proof -
  have "q = p" if f: "find_caller s (pid (pcbs s ! p)) = Some q" for q
  proof -
    have items: "queue_items (running_list (sched s)) = map Some (running (sched s))"
      using assms(2) by (simp add: sched_inv_def running_def queue_items_list)
    from f obtain e where "find (\<lambda>e. case e of None \<Rightarrow> False | Some r \<Rightarrow> pid (pcbs s ! r) = pid (pcbs s ! p))
        (map Some (running (sched s))) = Some e" "e = Some q"
      by (auto simp: find_caller_def items split: if_splits option.splits)
    then have q: "q \<in> set (running (sched s))" "pid (pcbs s ! q) = pid (pcbs s ! p)"
      by (auto simp: find_Some_iff set_conv_nth)
    have ql: "q < length (pcbs s)" using q(1) assms(3) by auto
    then have eq: "(of_nat (Suc q) :: u32) = of_nat (Suc p)" using q(2) assms(1,4) by (simp only: pids_ok_def)
    have "unat (of_nat (Suc x) :: u32) = Suc x" if "x < length (pcbs s)" for x
    proof -
      have "Suc x < 2 ^ 32" using that assms(5) by linarith
      then show ?thesis by (simp only: unat_of_nat len_of_numeral_defs take_bit_nat_eq_self) (simp add: mod_less)
    qed
    from this [OF ql] this [OF assms(4)] show "q = p" unfolding eq by simp
  qed
  then show ?thesis by (cases "find_caller s (pid (pcbs s ! p))") (auto simp: caller_found_def)
qed

section \<open>One step of a CPU\<close>

text \<open>Scheduler calls leave processes and memory alone; the running list only gains processes that
  were ready.\<close>

definition sched_only :: "os_t \<Rightarrow> os_t \<Rightarrow> bool" where
  "sched_only s s' \<longleftrightarrow> pcbs s' = pcbs s \<and> mms s' = mms s
     \<and> set (running (sched s')) \<subseteq> set (running (sched s)) \<union> set_mset (ready_mset (sched s))"

lemma sched_only_get:
  assumes "sched_inv (sched s)"
  shows "sched_only s (snd (k_get_proc s))"
proof -
  obtain q t where g: "get_mlq_proc (sched s) = (q, t)" by (cases "get_mlq_proc (sched s)")
  have k: "snd (k_get_proc s) = s\<lparr>sched := t\<rparr>" using g by (simp add: k_get_proc_def get_proc_def)
  have "set (running t) \<subseteq> set (running (sched s)) \<union> set_mset (ready_mset (sched s))"
  proof (cases q)
    case None
    then show ?thesis using g get_mlq_proc_eq [OF assms] by (auto split: option.splits prod.splits)
  next
    case (Some r)
    have "r \<in># ready_mset (sched s)"
      using get_mlq_proc_conserves [OF assms] g Some by simp
    moreover have "running t = running (sched s) \<or> running t = running (sched s) @ [r]"
      using g Some get_mlq_proc_eq [OF assms] enqueue_list [of "running_list (sched s)"] assms
      by (auto simp: running_def sched_inv_def split: option.splits prod.splits if_splits)
    ultimately show ?thesis by auto
  qed
  then show ?thesis by (simp add: sched_only_def k)
qed

lemma sched_only_put:
  assumes "sched_inv (sched s)" and "k_put_proc s p = Inr s' \<or> k_add_proc s p = Inr s'"
  shows "sched_only s s'"
  using assms(2) put_mlq_proc_Inr(4) [OF assms(1)]
  by (auto simp: k_put_proc_def k_add_proc_def sched_ops bindR_eq_Inr sched_only_def)

lemma sched_only_remove: "sched_inv (sched s) \<Longrightarrow> sched_only s (k_remove_proc s p)"
  using remove_proc_facts(4) [of "sched s" p] set_remove1_subset [of p "running (sched s)"]
  by (auto simp: k_remove_proc_def sched_only_def)

lemma sched_only_same: "pcbs s' = pcbs s \<Longrightarrow> mms s' = mms s \<Longrightarrow> sched s' = sched s \<Longrightarrow> sched_only s s'"
  by (simp add: sched_only_def)

lemma cpu_routine_sched_only:
  assumes inv: "sched_inv (sched s)" and st: "cpu_routine cf fin data0 s c = Some (Inr (s', c'))"
    and "cpu_at c \<noteq> C_run"
  shows "sched_only s s'"
proof -
  have refl: "sched_only s s" by (simp add: sched_only_def)
  show ?thesis
    using assms(2,3) sched_only_get [OF inv] sched_only_put [OF inv] sched_only_remove [OF inv] refl
    by (cases "cpu_at c")
      (auto elim!: cpu_switch_Inr intro: sched_only_same simp: cpu_routine_def cpu_check_def cpu_idle_def cpu_get_def bindR_eq_Inr Let_def
        split: option.splits prod.splits if_splits)
qed

section \<open>The invariant of the system\<close>

definition initialised :: "sys_t \<Rightarrow> nat" where
  "initialised S = ld_i (s_ld S) + (if ld_at (s_ld S) = L_add then 1 else 0)"

definition iso_ok :: "sys_t \<Rightarrow> bool" where
  "iso_ok S \<longleftrightarrow> pids_ok (s_os S) \<and> s_pid S = of_nat (Suc (length (pcbs (s_os S))))
     \<and> set (running (sched (s_os S))) \<subseteq> {..<ld_i (s_ld S)} \<and> mms_ok (initialised S) (s_os S)"

lemma iso_simps [simp]:
  "iso_ok (S\<lparr>s_timer := t\<rparr>) = iso_ok S" "iso_ok (S\<lparr>s_done := b\<rparr>) = iso_ok S"
  "iso_ok (S\<lparr>s_main := m\<rparr>) = iso_ok S"
  by (simp_all add: iso_ok_def initialised_def)

lemma iso_set_cpu: "iso_ok (set_cpu (S\<lparr>s_os := s\<rparr>) i c) \<longleftrightarrow> pids_ok s \<and> s_pid S = of_nat (Suc (length (pcbs s)))
     \<and> set (running (sched s)) \<subseteq> {..<ld_i (s_ld S)} \<and> mms_ok (initialised S) s"
  by (simp add: iso_ok_def initialised_def)

lemma mms_ok_same: "pcbs s' = pcbs s \<Longrightarrow> mms s' = mms s \<Longrightarrow> mms_ok n s' = mms_ok n s"
  by (simp add: mms_ok_def)

lemma ready_loaded:
  assumes "proc_ok cf S" and "q \<in># ready_mset (sched (s_os S)) \<or> q \<in> set (owns (s_cpus S ! i)) \<and> i < length (s_cpus S)"
  shows "q < ld_i (s_ld S)"
proof -
  have "q \<in># active S"
    using assms(2) mset_subset_eqD [OF owned_part [of i "s_cpus S"], of q] by (auto simp: active_def)
  moreover have "active S \<subseteq># mset [0..<ld_i (s_ld S)]" using assms(1) unfolding proc_ok_def by blast
  ultimately have "q \<in># mset [0..<ld_i (s_ld S)]" by (rule mset_subset_eqD [rotated])
  then show ?thesis by simp
qed

text \<open>The instruction step, under the invariants.\<close>

lemma cpu_run_isolated:
  assumes ok: "proc_ok cf S" "iso_ok S" and n: "num_processes cf < 2 ^ 32"
    and i: "i < length (s_cpus S)" "cpu_at (s_cpus S ! i) = C_run"
    and st: "cpu_routine cf fin data0 (s_os S) (s_cpus S ! i) = Some (Inr (s', c))"
  obtains p where "cpu_proc (s_cpus S ! i) = Some p" "p < ld_i (s_ld S)" "cpu_at c = C_slot"
    "mms_ok (initialised S) s'" "\<forall>q < initialised S. q \<noteq> p \<longrightarrow> proc_mm s' q = proc_mm (s_os S) q"
    "\<forall>q. q \<noteq> p \<longrightarrow> pcbs s' ! q = pcbs (s_os S) ! q"
    "pcbs s' ! p = (pcbs (s_os S) ! p)\<lparr>pc := pc (pcbs s' ! p)\<rparr>"
    "\<forall>q. pid (pcbs s' ! q) = pid (pcbs (s_os S) ! q)" "length (pcbs s') = length (pcbs (s_os S))"
    "sched s' = sched (s_os S)"
proof -
  obtain p r where p: "cpu_proc (s_cpus S ! i) = Some p" and c: "cpu_at c = C_slot"
    and r: "run data0 (s_os S) p = Inr (r, s')"
    using st i(2) by (auto simp: cpu_routine_def cpu_run_def bindR_eq_Inr deref_Inr)
  have inv: "sched_inv (sched (s_os S))" using ok(1) by (simp add: proc_ok_def)
  have p_less: "p < ld_i (s_ld S)"
    using ready_loaded [OF ok(1), of p i] p i by (simp add: owns_def)
  have len: "ld_i (s_ld S) \<le> length (pcbs (s_os S))" "length (pcbs (s_os S)) < 2 ^ 32"
    using ok(1) n by (auto simp: proc_ok_def)
  have "caller_found (s_os S) p"
    using ok(2) inv len p_less by (intro caller_found_pids) (auto simp: iso_ok_def pids_ok_def)
  moreover have "mms_ok (initialised S) (s_os S)" using ok(2) by (simp add: iso_ok_def)
  moreover have "p < initialised S" using p_less by (simp add: initialised_def)
  ultimately have "mms_ok (initialised S) s'" "\<forall>q < initialised S. q \<noteq> p \<longrightarrow> proc_mm s' q = proc_mm (s_os S) q"
    "\<forall>q. q \<noteq> p \<longrightarrow> pcbs s' ! q = pcbs (s_os S) ! q" "pcbs s' ! p = (pcbs (s_os S) ! p)\<lparr>pc := pc (pcbs s' ! p)\<rparr>"
    "\<forall>q. pid (pcbs s' ! q) = pid (pcbs (s_os S) ! q)" "length (pcbs s') = length (pcbs (s_os S))"
    using run_isolated [OF r] by blast+
  then show ?thesis
    using that [OF p p_less c] run_keeps(1) [OF r] by simp
qed

lemma iso_step_cpu:
  assumes ok: "proc_ok cf S" "iso_ok S" and n: "num_processes cf < 2 ^ 32"
    and i: "i < length (s_cpus S)"
    and st: "cpu_routine cf fin data0 (s_os S) (s_cpus S ! i) = Some (Inr (s, c))"
  shows "iso_ok (set_cpu (S\<lparr>s_os := s\<rparr>) i c)"
proof (cases "cpu_at (s_cpus S ! i) = C_run")
  case True
  obtain p where "mms_ok (initialised S) s" "\<forall>q. pid (pcbs s ! q) = pid (pcbs (s_os S) ! q)"
      "length (pcbs s) = length (pcbs (s_os S))" "sched s = sched (s_os S)"
    using cpu_run_isolated [OF ok n i True st] by metis
  then show ?thesis using ok(2) unfolding iso_set_cpu by (simp add: iso_ok_def pids_ok_def)
next
  case False
  have inv: "sched_inv (sched (s_os S))" using ok(1) by (simp add: proc_ok_def)
  have so: "sched_only (s_os S) s" by (rule cpu_routine_sched_only [OF inv st False])
  then have same: "pcbs s = pcbs (s_os S)" "mms s = mms (s_os S)" by (simp_all add: sched_only_def)
  have "set (running (sched s)) \<subseteq> {..<ld_i (s_ld S)}"
    using so ok(2) ready_loaded [OF ok(1), of _ i] by (auto simp: sched_only_def iso_ok_def)
  then show ?thesis using ok(2) unfolding iso_set_cpu
    by (simp add: iso_ok_def pids_ok_def same mms_ok_same [OF same])
qed

text \<open>The memory the loader has just allocated belongs to no process yet.\<close>

definition fresh_ok :: "sys_t \<Rightarrow> bool" where
  "fresh_ok S \<longleftrightarrow> (ld_at (s_ld S) \<in> {L_mm, L_own} \<longrightarrow> (\<exists>m. k_mm (s_os S) = Some m \<and> m < length (mms (s_os S))
     \<and> (\<forall>q < ld_i (s_ld S). pcb_mm (pcbs (s_os S) ! q) \<noteq> Some m)))"

definition calm_step :: "config_t \<Rightarrow> (string \<Rightarrow> string option) \<Rightarrow> sys_t \<Rightarrow> sys_t \<Rightarrow> bool" where
  "calm_step cf fs S S' \<longleftrightarrow> sys_step cf fs S S'
     \<and> (ld_at (s_ld S) \<in> {L_mm, L_own} \<longrightarrow> k_mm (s_os S') = k_mm (s_os S))"

inductive calm_reach :: "config_t \<Rightarrow> (string \<Rightarrow> string option) \<Rightarrow> sys_t \<Rightarrow> bool" for cf fs where
  main: "calm_reach cf fs (main_init cf mp0)"
| step: "calm_reach cf fs S \<Longrightarrow> calm_step cf fs S S' \<Longrightarrow> calm_reach cf fs S'"

lemma calm_is_reach: "calm_reach cf fs S \<Longrightarrow> sys_reach cf fs S"
  by (induction rule: calm_reach.induct) (auto simp: calm_step_def intro: sys_reach.intros)

lemma fresh_ok_cpu:
  assumes ok: "proc_ok cf S" "iso_ok S" "fresh_ok S" and n: "num_processes cf < 2 ^ 32"
    and i: "i < length (s_cpus S)"
    and st: "cpu_routine cf fin data0 (s_os S) (s_cpus S ! i) = Some (Inr (s, c))"
    and calm: "ld_at (s_ld S) \<in> {L_mm, L_own} \<longrightarrow> k_mm s = k_mm (s_os S)"
  shows "fresh_ok (set_cpu (S\<lparr>s_os := s\<rparr>) i c)"
proof -
  have "length (mms s) = length (mms (s_os S)) \<and> (\<forall>q. pcb_mm (pcbs s ! q) = pcb_mm (pcbs (s_os S) ! q))"
  proof (cases "cpu_at (s_cpus S ! i) = C_run")
    case True
    then obtain p r where "run data0 (s_os S) p = Inr (r, s)"
      using st by (auto simp: cpu_routine_def cpu_run_def bindR_eq_Inr)
    note r = run_keeps(2,4) [OF this]
    have "pcb_mm (pcbs s ! q) = pcb_mm (pcbs (s_os S) ! q)" for q
      using r(1) nth_list_update_same_field [of pcb_mm _ "pcbs (s_os S)" p q] by simp
    then show ?thesis using r(2) by simp
  next
    case False
    have "sched_inv (sched (s_os S))" using ok(1) by (simp add: proc_ok_def)
    from cpu_routine_sched_only [OF this st False] show ?thesis by (simp add: sched_only_def)
  qed
  then show ?thesis using ok(3) calm by (auto simp: fresh_ok_def)
qed

lemma fresh_ok_step:
  "sys_step cf fs S S' \<Longrightarrow> num_processes cf < 2 ^ 32 \<Longrightarrow> proc_ok cf S \<Longrightarrow> iso_ok S \<Longrightarrow> fresh_ok S
   \<Longrightarrow> ld_at (s_ld S) \<in> {L_mm, L_own} \<longrightarrow> k_mm (s_os S') = k_mm (s_os S) \<Longrightarrow> fresh_ok S'"
proof (induction rule: sys_step.induct)
  case (cpu i S data0 s c)
  show ?case by (rule fresh_ok_cpu [OF cpu(4-6,3,1,2)]) (use cpu(7) in simp)
next
  case (init_mm mm0 S s l)
  from init_mm(2) show ?case
  proof (cases rule: ld_setup_cases)
    case 1
    have "pcb_mm (pcbs (s_os S) ! q) \<noteq> Some (length (mms (s_os S)))" if "q < ld_i (s_ld S)" for q
      using init_mm(5) 1(1) that by (auto simp: iso_ok_def mms_ok_def initialised_def)
    then show ?thesis using 1 by (simp add: fresh_ok_def)
  next
    case (2 m)
    then show ?thesis using init_mm(6) by (simp add: fresh_ok_def)
  qed (simp add: fresh_ok_def)
next
  case (load S raw mem s avail l)
  then show ?case by (auto simp: fresh_ok_def ld_load_def Let_def bindR_eq_Inr)
next
  case (add S s l)
  then show ?case by (auto simp: fresh_ok_def ld_add_def bindR_eq_Inr)
qed (auto simp: fresh_ok_def ld_time_def)

lemma mms_ok_extend:
  assumes "mms_ok n s" and "n < length (pcbs s)" and "m < length (mms s)"
    and "\<forall>q < n. pcb_mm (pcbs s ! q) \<noteq> Some m"
    and "pcbs s' = (pcbs s)[n := (pcbs s ! n)\<lparr>pcb_mm := Some m\<rparr>]" and "mms s' = mms s"
  shows "mms_ok (Suc n) s'"
proof -
  have new: "pcb_mm (pcbs s' ! p) = (if p = n then Some m else pcb_mm (pcbs s ! p))" if "p < Suc n" for p
    using that assms(2,5) by (simp add: nth_list_update)
  have old: "k < length (mms s)" if "p < n" "pcb_mm (pcbs s ! p) = Some k" for p k
    using assms(1) that unfolding mms_ok_def by blast
  show ?thesis
    unfolding mms_ok_def
  proof (intro conjI allI impI)
    show "Suc n \<le> length (pcbs s')" using assms(2,5) by simp
    show "k < length (mms s')" if "p < Suc n" "pcb_mm (pcbs s' ! p) = Some k" for p k
      using that old [of p k] assms(3) by (auto simp: new assms(6) split: if_splits)
    show "p = q" if "p < Suc n" "q < Suc n" "pcb_mm (pcbs s' ! p) = Some k" "pcb_mm (pcbs s' ! q) = Some k" for p q k
    proof (cases "p = n \<or> q = n")
      case True
      then show ?thesis using that assms(4) by (auto simp: new split: if_splits)
    next
      case False
      then show ?thesis using that assms(1) by (auto simp: new mms_ok_def)
    qed
  qed
qed

lemma iso_ok_setup:
  assumes st: "ld_setup mm0 (s_os S) (s_ld S) = Some (Inr (s, l))"
    and ok: "proc_ok cf S" "iso_ok S" "fresh_ok S"
  shows "iso_ok (S\<lparr>s_os := s, s_ld := l\<rparr>)"
  using st
proof (cases rule: ld_setup_cases)
  case 1
  then show ?thesis using ok(2) by (auto simp: iso_ok_def initialised_def pids_ok_def mms_ok_def less_Suc_eq)
next
  case (2 m)
  then show ?thesis using ok(2) by (simp add: iso_ok_def initialised_def pids_ok_def mms_ok_def)
next
  case 3
  let ?n = "ld_i (s_ld S)"
  have len: "length (pcbs (s_os S)) = Suc ?n" "ld_cur (s_ld S) = ?n" using ok(1) 3(1) by (simp_all add: proc_ok_def)
  obtain m where m: "k_mm (s_os S) = Some m" "m < length (mms (s_os S))" "\<forall>q < ?n. pcb_mm (pcbs (s_os S) ! q) \<noteq> Some m"
    using ok(3) 3(1) by (auto simp: fresh_ok_def)
  have "mms_ok ?n (s_os S)" using 3(1) ok(2) by (simp add: iso_ok_def initialised_def)
  then have "mms_ok (Suc ?n) s" by (rule mms_ok_extend [OF _ _ m(2,3)]) (simp_all add: 3(2) len m(1))
  moreover have "pid (pcbs s ! k) = pid (pcbs (s_os S) ! k)" "length (pcbs s) = length (pcbs (s_os S))" for k
    using ld_setup_facts(3,6) [OF st] by simp_all
  ultimately show ?thesis using ok(2) by (simp add: iso_ok_def initialised_def pids_ok_def 3(3)) (simp add: 3(2))
qed

lemma iso_ok_step:
  "sys_step cf fs S S' \<Longrightarrow> num_processes cf < 2 ^ 32 \<Longrightarrow> proc_ok cf S \<Longrightarrow> iso_ok S \<Longrightarrow> fresh_ok S \<Longrightarrow> iso_ok S'"
proof (induction rule: sys_step.induct)
  case (cpu i S data0 s c)
  then show ?case by (intro iso_step_cpu)
next
  case (load S raw mem s avail l)
  then obtain pr where pr: "load fs raw mem (s_pid S) (ld_path (ld_processes cf ! ld_i (s_ld S))) = Inr (pr, avail)"
      and s: "s = (s_os S)\<lparr>pcbs := pcbs (s_os S) @ [pr\<lparr>prio := ucast (ld_prio (ld_processes cf ! ld_i (s_ld S)))\<rparr>]\<rparr>"
      and l: "l = (s_ld S)\<lparr>ld_cur := length (pcbs (s_os S)), ld_at := L_time\<rparr>"
    by (auto simp: ld_load_def Let_def bindR_eq_Inr)
  have pid: "pid pr = s_pid S" "avail = s_pid S + 1" using pr by (auto elim: load_Inr)
  have len: "length (pcbs (s_os S)) = ld_i (s_ld S)" using load by (simp add: proc_ok_def)
  have "pids_ok s" using load(6) pid by (auto simp: iso_ok_def pids_ok_def s nth_append less_Suc_eq)
  moreover have "mms_ok (initialised S) s"
    using load(1,6) len by (auto simp: iso_ok_def mms_ok_def s nth_append initialised_def)
  ultimately show ?case using load(1,6) pid by (simp add: iso_ok_def initialised_def s l)
next
  case (init_mm mm0 S s l)
  then show ?case by (intro iso_ok_setup)
next
  case (add S s l)
  have inv: "sched_inv (sched (s_os S))" using add(4) by (simp add: proc_ok_def)
  have k: "k_add_proc (s_os S) (ld_cur (s_ld S)) = Inr s" "l = (s_ld S)\<lparr>ld_i := ld_i (s_ld S) + 1, ld_at := L_slot\<rparr>"
    using add(2) by (auto simp: ld_add_def bindR_eq_Inr)
  have so: "sched_only (s_os S) s" using sched_only_put [OF inv] k(1) by blast
  then have same: "pcbs s = pcbs (s_os S)" "mms s = mms (s_os S)" by (simp_all add: sched_only_def)
  have "set (running (sched s)) \<subseteq> {..<Suc (ld_i (s_ld S))}"
    using so add(5) ready_loaded [OF add(4)] by (fastforce simp: sched_only_def iso_ok_def)
  then show ?case using add(1,5)
    by (simp add: iso_ok_def initialised_def k(2) pids_ok_def same mms_ok_same [OF same])
qed (auto simp: iso_ok_def initialised_def ld_time_def)

lemma iso_ok_reach: "calm_reach cf fs S \<Longrightarrow> num_processes cf < 2 ^ 32 \<Longrightarrow> iso_ok S \<and> fresh_ok S"
proof (induction rule: calm_reach.induct)
  case (main mp0)
  show ?case
    by (simp add: iso_ok_def fresh_ok_def main_init_def pids_ok_def init_scheduler_facts ld_begin_def initialised_def mms_ok_def)
next
  case (step S S')
  then show ?case
    using iso_ok_step fresh_ok_step proc_ok_reach [OF calm_is_reach [OF step(1)]] by (auto simp: calm_step_def)
qed

section \<open>Properties\<close>

text \<open>C12: isolation between processes, in the whole program and under every interleaving in which no CPU
  moves \<open>krnl->mm\<close> while the loader gives a process its memory.  A step of any thread leaves the
  control block and the memory bookkeeping (page tables, regions, FIFO list) of a loaded process
  as they are, unless a CPU executes an instruction of that very process; then only its program
  counter and its own bookkeeping may change.\<close>

theorem sys_isolation:
  assumes "calm_reach cf fs S" and "sys_step cf fs S S'" and "num_processes cf < 2 ^ 32"
    and "q < ld_i (s_ld S)"
  shows "(pcbs (s_os S') ! q = pcbs (s_os S) ! q \<and> proc_mm (s_os S') q = proc_mm (s_os S) q)
    \<or> (\<exists>i < length (s_cpus S). cpu_proc (s_cpus S ! i) = Some q \<and> cpu_at (s_cpus S ! i) = C_run
        \<and> cpu_at (s_cpus S' ! i) = C_slot
        \<and> pcbs (s_os S') ! q = (pcbs (s_os S) ! q)\<lparr>pc := pc (pcbs (s_os S') ! q)\<rparr>)"
proof -
  have ok: "proc_ok cf S" "iso_ok S" "fresh_ok S"
    using proc_ok_reach [OF calm_is_reach [OF assms(1)]] iso_ok_reach [OF assms(1,3)] by simp_all
  from assms(2,3,4) ok show ?thesis
  proof (induction rule: sys_step.induct)
    case (cpu i S data0 s c)
    show ?case
    proof (cases "cpu_at (s_cpus S ! i) = C_run")
      case True
      from cpu_run_isolated [OF cpu(5,6,3,1) True cpu(2)] obtain p where
          p: "cpu_proc (s_cpus S ! i) = Some p" "cpu_at c = C_slot"
          "\<forall>q < initialised S. q \<noteq> p \<longrightarrow> proc_mm s q = proc_mm (s_os S) q"
          "\<forall>q. q \<noteq> p \<longrightarrow> pcbs s ! q = pcbs (s_os S) ! q"
          "pcbs s ! p = (pcbs (s_os S) ! p)\<lparr>pc := pc (pcbs s ! p)\<rparr>" by metis
      have "q < initialised S" using cpu(4) by (simp add: initialised_def)
      then show ?thesis using p True cpu(1) by (cases "q = p") (auto intro!: exI [of _ i])
    next
      case False
      have "sched_inv (sched (s_os S))" using cpu(5) by (simp add: proc_ok_def)
      from cpu_routine_sched_only [OF this cpu(2) False] show ?thesis
        by (simp add: sched_only_def proc_mm_def)
    qed
  next
    case (load S raw mem s avail l)
    then show ?case
      by (auto simp: ld_load_def Let_def bindR_eq_Inr proc_ok_def nth_append proc_mm_def)
  next
    case (init_mm mm0 S s l)
    have "proc_mm s q = proc_mm (s_os S) q \<and> pcbs s ! q = pcbs (s_os S) ! q"
      using init_mm(2)
    proof (cases rule: ld_setup_cases)
      case 1
      have "m < length (mms (s_os S))" if "pcb_mm (pcbs (s_os S) ! q) = Some m" for m
        using 1(1) init_mm(4,6) that by (auto simp: iso_ok_def mms_ok_def initialised_def)
      then show ?thesis using 1
        by (cases "pcb_mm (pcbs (s_os S) ! q)") (auto simp: proc_mm_def nth_append)
    next
      case (2 m)
      then have "pcb_mm (pcbs (s_os S) ! q) \<noteq> Some m" using init_mm(4,7) by (auto simp: fresh_ok_def)
      then show ?thesis using 2 by (cases "pcb_mm (pcbs (s_os S) ! q)") (auto simp: proc_mm_def)
    next
      case 3
      then show ?thesis using init_mm(4,5) by (simp add: proc_ok_def proc_mm_def)
    qed
    then show ?case by simp
  next
    case (add S s l)
    have "sched_inv (sched (s_os S))" using add(5) by (simp add: proc_ok_def)
    moreover have "k_add_proc (s_os S) (ld_cur (s_ld S)) = Inr s" using add(2) by (auto simp: ld_add_def bindR_eq_Inr)
    ultimately have "sched_only (s_os S) s" using sched_only_put by blast
    then show ?case by (simp add: sched_only_def proc_mm_def)
  qed simp_all
qed

text \<open>C35: the race on \<open>krnl->mm\<close>.  Whenever the loader has allocated the memory of a new process and a CPU is
  about to execute an instruction of process \<open>p\<close>, there is a schedule of three steps after which the
  new process has been given the \<open>mm_struct\<close> of \<open>p\<close>, and \<open>init_mm\<close> has run on it again: its area, free
  regions, page table and FIFO list are those of a new process.  The symbol table stays, as
  \<open>init_mm\<close> does not touch it: the registers of \<open>p\<close> name regions that are no longer mapped.\<close>

theorem loader_race_shares_memory:
  assumes "sys_reach cf fs S" and "ld_at (s_ld S) = L_mm" and "i < length (s_cpus S)"
    and "cpu_at (s_cpus S ! i) = C_switch" and "cpu_proc (s_cpus S ! i) = Some p"
    and "pcb_mm (pcbs (s_os S) ! p) = Some m" and "m < length (mms (s_os S))"
  shows "\<exists>S1 S2 S3. sys_step cf fs S S1 \<and> sys_step cf fs S1 S2 \<and> sys_step cf fs S2 S3
    \<and> ld_at (s_ld S3) = L_add \<and> p \<noteq> ld_cur (s_ld S3)
    \<and> pcb_mm (pcbs (s_os S3) ! ld_cur (s_ld S3)) = Some m \<and> pcb_mm (pcbs (s_os S3) ! p) = Some m
    \<and> mms (s_os S3) ! m = init_mm (mms (s_os S) ! m)"
proof -
  have ok: "proc_ok cf S" by (rule proc_ok_reach [OF assms(1)])
  let ?l = "s_ld S"
  have p: "p < ld_i ?l" using ready_loaded [OF ok, of p i] assms(3-5) by (simp add: owns_def)
  have cur: "ld_cur ?l = ld_i ?l" "ld_i ?l < length (pcbs (s_os S))" using ok assms(2) by (simp_all add: proc_ok_def)
  let ?s1 = "(s_os S)\<lparr>k_mm := Some m\<rparr>" and ?c = "(s_cpus S ! i)\<lparr>cpu_at := C_run\<rparr>"
  let ?S1 = "set_cpu (S\<lparr>s_os := ?s1\<rparr>) i ?c"
  let ?s2 = "?s1\<lparr>mms := (mms (s_os S))[m := init_mm (mms (s_os S) ! m)]\<rparr>" and ?l2 = "?l\<lparr>ld_at := L_own\<rparr>"
  let ?S2 = "?S1\<lparr>s_os := ?s2, s_ld := ?l2\<rparr>"
  let ?s3 = "?s2\<lparr>pcbs := (pcbs (s_os S))[ld_cur ?l := (pcbs (s_os S) ! ld_cur ?l)\<lparr>pcb_mm := Some m\<rparr>],
      k_mram := Some 0, k_active_mswp := Some 1\<rparr>"
  let ?S3 = "?S2\<lparr>s_os := ?s3, s_ld := ?l2\<lparr>ld_at := L_add\<rparr>\<rparr>"
  have fresh: "length (symrgtbl fresh_mm) = PAGING_MAX_SYMTBL_SZ" using fresh_mm(1) by (simp add: mm_ok_def)
  have "cpu_routine cf (s_done S) 0 (s_os S) (s_cpus S ! i) = Some (Inr (?s1, ?c))"
    using assms(4-6) by (simp add: cpu_routine_def cpu_switch_def)
  then have 1: "sys_step cf fs S ?S1" by (rule sys_step.cpu [OF assms(3)])
  have "ld_setup fresh_mm (s_os ?S1) (s_ld ?S1) = Some (Inr (?s2, ?l2))"
    using assms(2) by (simp add: ld_setup_def ld_mm_def)
  then have 2: "sys_step cf fs ?S1 ?S2" by (rule sys_step.init_mm [OF fresh])
  have "ld_setup fresh_mm (s_os ?S2) (s_ld ?S2) = Some (Inr (?s3, ?l2\<lparr>ld_at := L_add\<rparr>))"
    by (simp add: ld_setup_def ld_own_def)
  then have 3: "sys_step cf fs ?S2 ?S3" by (rule sys_step.init_mm [OF fresh])
  have "ld_at (s_ld ?S3) = L_add" "p \<noteq> ld_cur (s_ld ?S3)" "mms (s_os ?S3) ! m = init_mm (mms (s_os S) ! m)"
    "pcb_mm (pcbs (s_os ?S3) ! ld_cur (s_ld ?S3)) = Some m" "pcb_mm (pcbs (s_os ?S3) ! p) = Some m"
    using p cur assms(6,7) by simp_all
  with 1 2 3 show ?thesis by blast
qed

section \<open>Witnesses\<close>

text \<open>Performing a list of events as long as the run is calm.\<close>

fun calm_exec :: "config_t \<Rightarrow> (string \<Rightarrow> string option) \<Rightarrow> event list \<Rightarrow> sys_t \<Rightarrow> sys_t option" where
  "calm_exec cf fs [] S = Some S"
| "calm_exec cf fs (e # es) S =
     (case sys_do cf fs e S of
        None \<Rightarrow> None
      | Some S' \<Rightarrow>
          if ld_at (s_ld S) = L_mm \<or> ld_at (s_ld S) = L_own
          then if k_mm (s_os S') = k_mm (s_os S) then calm_exec cf fs es S' else None
          else calm_exec cf fs es S')"

lemma calm_exec_reach: "calm_reach cf fs S \<Longrightarrow> calm_exec cf fs es S = Some S' \<Longrightarrow> calm_reach cf fs S'"
proof (induction es arbitrary: S)
  case (Cons e es)
  then obtain S1 where d: "sys_do cf fs e S = Some S1" "calm_exec cf fs es S1 = Some S'"
    and k: "ld_at (s_ld S) \<in> {L_mm, L_own} \<longrightarrow> k_mm (s_os S1) = k_mm (s_os S)"
    by (auto split: option.splits if_splits)
  have "calm_step cf fs S S1" unfolding calm_step_def using sys_do_step [OF d(1)] k by blast
  then show ?case by (rule Cons.IH [OF calm_reach.step [OF Cons.prems(1)] d(2)])
qed simp

lemma two_cpus_calm:
  "map_option (\<lambda>S. (map cpu_at (s_cpus S), ld_i (s_ld S), pc (pcbs (s_os S) ! 0),
      map_option (\<lambda>S'. pc (pcbs (s_os S') ! 0)) (sys_do demo_config_2 demo_fs (Ev_cpu 1) S)))
     (calm_exec demo_config_2 demo_fs two_cpus (main_init demo_config_2 blank_device))
   = Some ([C_idle, C_run], 1, 0, Some 1)"
  by code_simp

theorem sys_isolation_witness:
  "\<exists>S S'. calm_reach demo_config_2 demo_fs S \<and> sys_step demo_config_2 demo_fs S S'
     \<and> cpu_at (s_cpus S ! 1) = C_run \<and> pc (pcbs (s_os S) ! 0) = 0 \<and> pc (pcbs (s_os S') ! 0) = 1
     \<and> pcbs (s_os S') ! 0 = (pcbs (s_os S) ! 0)\<lparr>pc := pc (pcbs (s_os S') ! 0)\<rparr>"
proof -
  obtain S S' where
      x: "calm_exec demo_config_2 demo_fs two_cpus (main_init demo_config_2 blank_device) = Some S"
    and y: "sys_do demo_config_2 demo_fs (Ev_cpu 1) S = Some S'"
    and c: "map cpu_at (s_cpus S) = [C_idle, C_run]" "ld_i (s_ld S) = 1" "pc (pcbs (s_os S) ! 0) = 0"
      "pc (pcbs (s_os S') ! 0) = 1"
    using two_cpus_calm by auto
  have len: "length (s_cpus S) = 2" using arg_cong [OF c(1), of length] by simp
  have "map cpu_at (s_cpus S) ! 1 = C_run" unfolding c(1) by simp
  then have at: "cpu_at (s_cpus S ! 1) = C_run" using len by simp
  note r = calm_exec_reach [OF calm_reach.main x] and st = sys_do_step [OF y]
  have "num_processes demo_config_2 < 2 ^ 32" by (simp add: demo_config_2_def demo_config_def)
  from sys_isolation [OF r st this, of 0] c
  have "pcbs (s_os S') ! 0 = (pcbs (s_os S) ! 0)\<lparr>pc := pc (pcbs (s_os S') ! 0)\<rparr>" by auto
  then show ?thesis using r st at c(3,4) by blast
qed

text \<open>One CPU, two processes of two instructions: the loader has allocated the memory of the second while the
  CPU is about to execute the second instruction of the first.\<close>

definition race_config :: config_t where
  "race_config = demo_config\<lparr>num_processes := 2,
     ld_processes := [\<lparr>ld_path = ''p'', ld_start = 0, ld_prio = 3\<rparr>, \<lparr>ld_path = ''q'', ld_start = 0, ld_prio = 3\<rparr>]\<rparr>"

definition race_fs :: "string \<Rightarrow> string option" where
  "race_fs path = Some (print_proc 5 [nop, nop])"

definition race_events :: "event list" where
  "race_events = slot_0 @ turn @ [Ev_load, Ev_time, Ev_init, Ev_cpu 0, Ev_cpu 0]"

lemma race_state:
  "map_option (\<lambda>S. (ld_at (s_ld S), map cpu_at (s_cpus S), map cpu_proc (s_cpus S), map pcb_mm (pcbs (s_os S)) ! 0,
      length (mms (s_os S)))) (sys_exec race_config race_fs race_events (main_init race_config blank_device))
   = Some (L_mm, [C_switch], [Some 0], Some 0, 2)"
  by code_simp

theorem loader_race_shares_memory_witness:
  "\<exists>S. sys_reach race_config race_fs S \<and> ld_at (s_ld S) = L_add
     \<and> pcb_mm (pcbs (s_os S) ! ld_cur (s_ld S)) = pcb_mm (pcbs (s_os S) ! 0) \<and> ld_cur (s_ld S) \<noteq> 0"
proof -
  obtain S where x: "sys_exec race_config race_fs race_events (main_init race_config blank_device) = Some S"
    and c: "ld_at (s_ld S) = L_mm" "map cpu_at (s_cpus S) = [C_switch]" "map cpu_proc (s_cpus S) = [Some 0]"
      "map pcb_mm (pcbs (s_os S)) ! 0 = Some 0" "length (mms (s_os S)) = 2"
    using race_state by auto
  have r: "sys_reach race_config race_fs S" by (rule sys_exec_reach [OF sys_reach.main x])
  obtain c0 where c0: "s_cpus S = [c0]" "cpu_at c0 = C_switch" "cpu_proc c0 = Some 0" using c(2,3) by auto
  have "0 < length (pcbs (s_os S))" using proc_ok_reach [OF r] c(1) by (simp add: proc_ok_def)
  then have "pcb_mm (pcbs (s_os S) ! 0) = Some 0" using c(4) by simp
  then have "\<exists>S1 S2 S3. sys_step race_config race_fs S S1 \<and> sys_step race_config race_fs S1 S2 \<and> sys_step race_config race_fs S2 S3
    \<and> ld_at (s_ld S3) = L_add \<and> 0 \<noteq> ld_cur (s_ld S3)
    \<and> pcb_mm (pcbs (s_os S3) ! ld_cur (s_ld S3)) = Some 0 \<and> pcb_mm (pcbs (s_os S3) ! 0) = Some 0
    \<and> mms (s_os S3) ! 0 = init_mm (mms (s_os S) ! 0)"
    using loader_race_shares_memory [OF r c(1), of 0 0 0] c0 c(5) by simp
  then show ?thesis using r sys_reach.step by (metis (no_types, lifting))
qed

end
