(* ===== verification/OS_Progress.thy ===== *)
theory OS_Progress
  imports OS_Demo
begin

text \<open>
  The program cannot get stuck: as long as \<open>main\<close> has not returned, some thread has a step,
  unless a thread has crashed (a fault of an instruction or of a scheduler call, or a process
  description that cannot be read).  The heart is the barrier: when every remaining thread waits
  in \<open>next_slot\<close>, the timer thread can go on.
\<close>

definition all_left :: "sys_t \<Rightarrow> bool" where
  "all_left S \<longleftrightarrow> (\<forall>c \<in> set (s_cpus S). cpu_at c = C_exit) \<and> ld_at (s_ld S) = L_exit"

definition crashed :: "config_t \<Rightarrow> (string \<Rightarrow> string option) \<Rightarrow> sys_t \<Rightarrow> bool" where
  "crashed cf fs S \<longleftrightarrow>
     (\<exists>i < length (s_cpus S). \<exists>data0 e. cpu_routine cf (s_done S) data0 (s_os S) (s_cpus S ! i) = Some (Inl e))
   \<or> ld_at (s_ld S) = L_load \<and> int (ld_i (s_ld S)) < num_processes cf
       \<and> (\<exists>raw mem e. ld_load cf fs raw mem (s_pid S) (s_os S) (s_ld S) = Inl e)
   \<or> (\<exists>mm0 e. ld_setup mm0 (s_os S) (s_ld S) = Some (Inl e))
   \<or> ld_at (s_ld S) = L_add \<and> (\<exists>e. ld_add (s_os S) (s_ld S) = Inl e)"

text \<open>What \<open>main\<close> has seen when it is past the joins.\<close>

definition main_ok :: "sys_t \<Rightarrow> bool" where
  "main_ok S \<longleftrightarrow> (s_main S \<noteq> M_join \<longrightarrow> all_left S \<and> timer_stop (s_timer S))
     \<and> (s_main S = M_return \<longrightarrow> t_phase (s_timer S) = T_exit)"

lemma timer_thread_stop:
  assumes "timer_routine t = Some t'"
  shows "timer_stop t' = timer_stop t" "t_phase t \<noteq> T_exit"
  using assms by (auto simp: timer_routine_def timer_top_def timer_wait_def timer_release_def
      split: timer_phase.splits if_splits)

lemma main_ok_step: "sys_step cf fs S S' \<Longrightarrow> main_ok S \<Longrightarrow> main_ok S'"
proof (induction rule: sys_step.induct)
  case (cpu i S data0 s c)
  then have "cpu_at (s_cpus S ! i) \<noteq> C_exit" by (auto simp: cpu_routine_def)
  then have "s_main S = M_join" using cpu(1,3) by (auto simp: main_ok_def all_left_def)
  then show ?case by (simp add: main_ok_def)
next
  case (init_mm mm0 S s l)
  then have "ld_at (s_ld S) \<noteq> L_exit" by (auto simp: ld_setup_def)
  then show ?case using init_mm(3) by (simp add: main_ok_def all_left_def)
next
  case (timer S t)
  then show ?case using timer_thread_stop [OF timer(1)] by (auto simp: main_ok_def all_left_def)
next
  case (stop S t)
  then show ?case by (auto simp: main_ok_def all_left_def list_all_iff stop_timer_def split: if_splits)
qed (force simp: main_ok_def all_left_def)+

lemma main_ok_reach: "sys_reach cf fs S \<Longrightarrow> main_ok S"
proof (induction rule: sys_reach.induct)
  case (main mp0)
  show ?case by (simp add: main_ok_def main_init_def)
qed (rule main_ok_step)

text \<open>A device whose thread cannot go on has finished the slot or has left.\<close>

definition finished_dev :: "timer_dev \<Rightarrow> bool" where
  "finished_dev d \<longleftrightarrow> dev_done d \<or> dev_fsh d"

lemma cpu_blocked:
  assumes link: "timer_link S" and i: "i < length (s_cpus S)"
    and stuck: "\<not> (\<exists>S'. sys_step cf fs S S')" and fine: "\<not> crashed cf fs S"
  shows "finished_dev (devices S ! dev_of S i)" and "cpu_at (s_cpus S ! i) \<in> {C_wait, C_exit}"
proof -
  let ?d = "devices S ! dev_of S i"
  have d: "dev_of S i < length (devices S)" "dev_phase ?d = cpu_dev (cpu_at (s_cpus S ! i))"
    using link dev_of_less [OF i] i by (simp_all add: timer_link_def)
  have ok: "dev_fsh ?d \<longleftrightarrow> dev_phase ?d = Gone"
    using link d(1) barrier_ok_dev [of "s_timer S" "dev_of S i"] by (simp add: timer_link_def devices_def dev_ok_def)
  have none: "cpu_routine cf (s_done S) 0 (s_os S) (s_cpus S ! i) = None"
  proof (cases "cpu_routine cf (s_done S) 0 (s_os S) (s_cpus S ! i)")
    case (Some r)
    show ?thesis
    proof (cases r)
      case (Inl e)
      then show ?thesis using Some fine i by (auto simp: crashed_def)
    next
      case (Inr sc)
      then show ?thesis using Some stuck sys_step.cpu [OF i] by (cases sc) blast
    qed
  qed
  then have ph: "cpu_at (s_cpus S ! i) \<in> {C_slot, C_wait, C_detach, C_exit}"
    by (cases "cpu_at (s_cpus S ! i)") (simp_all add: cpu_routine_def)
  have "cpu_at (s_cpus S ! i) \<noteq> C_slot"
    using stuck d sys_step.cpu_slot [OF i] by (auto simp: next_slot_enter_def devices_def)
  moreover have "cpu_at (s_cpus S ! i) \<noteq> C_detach"
    using stuck d sys_step.cpu_detach [OF i] by (auto simp: detach_event_def devices_def)
  ultimately show at: "cpu_at (s_cpus S ! i) \<in> {C_wait, C_exit}" using ph by blast
  have "dev_done ?d" if w: "cpu_at (s_cpus S ! i) = C_wait"
  proof (rule ccontr)
    assume n: "\<not> dev_done ?d"
    have "\<exists>t. next_slot_leave (s_timer S) (dev_of S i) = Some t"
      using n d w by (simp add: next_slot_leave_def devices_def)
    then show False using stuck sys_step.cpu_wait [OF i w] by blast
  qed
  then show "finished_dev ?d" using at ok d(2) by (auto simp: finished_dev_def)
qed

lemma loader_blocked:
  assumes link: "timer_link S" and stuck: "\<not> (\<exists>S'. sys_step cf fs S S')" and fine: "\<not> crashed cf fs S"
  shows "finished_dev (devices S ! 0)" and "ld_at (s_ld S) \<in> {L_twait, L_wait, L_exit}"
proof -
  let ?d = "devices S ! 0"
  have d: "0 < length (devices S)" "dev_phase ?d = ld_dev (ld_at (s_ld S))"
    using link by (simp_all add: timer_link_def)
  have ok: "dev_fsh ?d \<longleftrightarrow> dev_phase ?d = Gone"
    using link d(1) barrier_ok_dev [of "s_timer S" 0] by (simp add: timer_link_def devices_def dev_ok_def)
  have "ld_at (s_ld S) \<noteq> L_load"
  proof
    assume l: "ld_at (s_ld S) = L_load"
    show False
    proof (cases "int (ld_i (s_ld S)) < num_processes cf")
      case True
      show False
      proof (cases "ld_load cf fs (small_pcb 0 []) (\<lambda>_. nop) (s_pid S) (s_os S) (s_ld S)")
        case (Inl e)
        then show False using l True fine by (auto simp: crashed_def)
      next
        case (Inr r)
        then show False using l True stuck sys_step.load [OF l True] by (cases r) blast
      qed
    qed (use l stuck sys_step.finish in blast)
  qed
  moreover have "ld_at (s_ld S) \<noteq> L_time" using stuck sys_step.time by blast
  moreover have none: "ld_setup fresh_mm (s_os S) (s_ld S) = None"
  proof (cases "ld_setup fresh_mm (s_os S) (s_ld S)")
    case (Some r)
    have fresh: "length (symrgtbl fresh_mm) = PAGING_MAX_SYMTBL_SZ" using fresh_mm(1) by (simp add: mm_ok_def)
    show ?thesis
    proof (cases r)
      case (Inl e)
      then show ?thesis using Some fine by (auto simp: crashed_def)
    next
      case (Inr sl)
      then show ?thesis using Some stuck sys_step.init_mm [OF fresh] by (cases sl) blast
    qed
  qed
  have "ld_at (s_ld S) \<notin> {L_init, L_mm, L_own}" using none by (auto simp: ld_setup_def)
  moreover have "ld_at (s_ld S) \<noteq> L_add"
  proof
    assume l: "ld_at (s_ld S) = L_add"
    show False
    proof (cases "ld_add (s_os S) (s_ld S)")
      case (Inl e)
      then show False using l fine by (auto simp: crashed_def)
    next
      case (Inr r)
      then show False using stuck sys_step.add [OF l] by (cases r) blast
    qed
  qed
  moreover have "ld_at (s_ld S) \<noteq> L_tslot"
    using stuck d sys_step.ld_slot [where ph = L_twait and S = S] by (auto simp: next_slot_enter_def devices_def)
  moreover have "ld_at (s_ld S) \<noteq> L_slot"
    using stuck d sys_step.ld_slot [where ph = L_wait and S = S] by (auto simp: next_slot_enter_def devices_def)
  moreover have "ld_at (s_ld S) \<noteq> L_detach"
    using stuck d sys_step.ld_detach [of S] by (auto simp: detach_event_def devices_def)
  ultimately show at: "ld_at (s_ld S) \<in> {L_twait, L_wait, L_exit}" by (cases "ld_at (s_ld S)") simp_all
  have "dev_done ?d" if w: "ld_at (s_ld S) = L_twait \<or> ld_at (s_ld S) = L_wait"
  proof (rule ccontr)
    assume n: "\<not> dev_done ?d"
    then obtain t where "next_slot_leave (s_timer S) 0 = Some t"
      using d w by (auto simp: next_slot_leave_def devices_def)
    moreover obtain ph where "(ld_at (s_ld S), ph) \<in> {(L_twait, L_time), (L_wait, L_load)}" using w by auto
    ultimately show False using stuck sys_step.ld_wait by blast
  qed
  then show "finished_dev ?d" using at ok d(2) by (auto simp: finished_dev_def)
qed

text \<open>When all devices have finished, the timer thread has a step or has ended.\<close>

lemma timer_enabled:
  assumes "barrier_ok t" and "\<forall>d \<in> set (dev_list t). finished_dev d" and "t_phase t \<noteq> T_exit"
  shows "\<exists>t'. timer_routine t = Some t'"
proof (cases "t_phase t")
  case T_top
  then show ?thesis using assms(1) by (simp add: timer_routine_def timer_top_def barrier_ok_def)
next
  case (T_wait i f e)
  then show ?thesis using assms(2) by (auto simp: timer_routine_def timer_wait_def finished_dev_def)
next
  case (T_release i f e)
  then show ?thesis by (auto simp: timer_routine_def timer_release_def)
qed (use assms(3) in simp)

lemma all_finished:
  assumes link: "timer_link S" and stuck: "\<not> (\<exists>S'. sys_step cf fs S S')" and fine: "\<not> crashed cf fs S"
  shows "\<forall>d \<in> set (devices S). finished_dev d"
proof
  fix d assume "d \<in> set (devices S)"
  then obtain k where k: "k < length (devices S)" "d = devices S ! k" by (auto simp: in_set_conv_nth)
  show "finished_dev d"
  proof (cases k)
    case 0
    then show ?thesis using loader_blocked(1) [OF link stuck fine] k(2) by simp
  next
    case (Suc m)
    let ?i = "length (s_cpus S) - k"
    have "?i < length (s_cpus S)" "dev_of S ?i = k"
      using Suc k(1) link by (simp_all add: dev_of_def timer_link_def)
    then show ?thesis using cpu_blocked(1) [OF link _ stuck fine, of ?i] k(2) by simp
  qed
qed

lemma step_or_crash:
  assumes "sys_reach cf fs S" and "s_main S \<noteq> M_return"
  shows "(\<exists>S'. sys_step cf fs S S') \<or> crashed cf fs S"
proof (rule ccontr)
  assume c: "\<not> ((\<exists>S'. sys_step cf fs S S') \<or> crashed cf fs S)"
  then have stuck: "\<not> (\<exists>S'. sys_step cf fs S S')" and fine: "\<not> crashed cf fs S" by blast+
  have link: "timer_link S" by (rule timer_link_reach [OF assms(1)])
  have len: "length (devices S) = Suc (length (s_cpus S))" using link by (simp add: timer_link_def)
  have bar: "barrier_ok (s_timer S)" using link by (simp add: timer_link_def)
  have exit: "t_phase (s_timer S) = T_exit"
    using timer_enabled [OF bar] all_finished [OF link stuck fine] stuck sys_step.timer unfolding devices_def by blast
  then have gone: "\<forall>d \<in> set (devices S). dev_phase d = Gone"
    using bar by (simp add: barrier_ok_def phase_ok_def devices_def)
  then have "dev_phase (devices S ! k) = Gone" if "k < length (devices S)" for k using that by simp
  note gone_nth = this
  have ld: "ld_at (s_ld S) = L_exit"
    using loader_blocked(2) [OF link stuck fine] gone_nth [of 0] link len by (auto simp: timer_link_def)
  have "cpu_at (s_cpus S ! i) = C_exit" if "i < length (s_cpus S)" for i
    using cpu_blocked(2) [OF link that stuck fine] gone_nth [of "dev_of S i"] dev_of_less [OF that] link that len
    by (auto simp: timer_link_def)
  then have cpus: "list_all (\<lambda>c. cpu_at c = C_exit) (s_cpus S)" by (simp add: list_all_length)
  have "stop_timer (s_timer S) = Some ((s_timer S)\<lparr>timer_stop := True\<rparr>)"
    using gone by (simp add: stop_timer_def list_all_iff devices_def)
  then have "s_main S \<noteq> M_join" using stuck sys_step.stop [OF _ cpus ld] by blast
  then have "s_main S = M_stop" using assms(2) by (cases "s_main S") simp_all
  then show False using stuck sys_step.main_return [OF _ exit] by blast
qed

text \<open>C34: no deadlock.  In every reachable state of the whole program in which \<open>main\<close> has not returned
  yet, a step is possible, unless a thread has crashed: the barrier of the timer always opens, the
  joins of \<open>main\<close> are always served.\<close>

theorem sys_no_deadlock:
  assumes "sys_reach cf fs S" and "s_main S \<noteq> M_return"
  shows "(\<exists>S'. sys_step cf fs S S') \<or> crashed cf fs S"
  by (rule step_or_crash [OF assms])

theorem sys_no_deadlock_witness:
  "\<exists>S S'. sys_reach demo_config demo_fs S \<and> map cpu_at (s_cpus S) = [C_wait] \<and> ld_at (s_ld S) = L_wait
     \<and> sys_step demo_config demo_fs S S'"
proof -
  have "map_option (\<lambda>S. (map cpu_at (s_cpus S), ld_at (s_ld S), s_main S)) (sys_exec demo_config demo_fs slot_0 demo_start)
      = Some ([C_wait], L_wait, M_join)"
    by code_simp
  then obtain S where x: "sys_exec demo_config demo_fs slot_0 demo_start = Some S"
    and c: "map cpu_at (s_cpus S) = [C_wait]" "ld_at (s_ld S) = L_wait" and m: "s_main S \<noteq> M_return" by auto
  obtain c0 where c0: "s_cpus S = [c0]" "cpu_at c0 = C_wait" using c(1) by auto
  have "\<not> crashed demo_config demo_fs S"
    by (auto simp: crashed_def c(2) c0 cpu_routine_def ld_setup_def)
  with sys_no_deadlock [OF demo_reach [OF x] m] obtain S' where "sys_step demo_config demo_fs S S'" by blast
  with demo_reach [OF x] c show ?thesis by (intro exI conjI)
qed

end
