(* ===== verification/OS_Terminates.thy ===== *)
theory OS_Terminates
  imports OS_Progress
begin

text \<open>
  The program always comes to an end.  A state has a rank: a list of natural numbers, compared
  lexicographically, that every step makes smaller, whichever thread takes it.  From the left: where the loader is in its loop, the
  instructions still to be executed, where the CPUs are in theirs (measured against the loader's slot
  while it lives, and towards the exit after it has left), and what the timer thread has to do
  before it waits for a device, and where \<open>main\<close> is.  No fairness is needed.
\<close>

lemma unat_below_inc:
  fixes a b :: "'a :: len word"
  assumes "a < b"
  shows "unat (a + 1) = Suc (unat a)"
proof -
  have "unat a + 1 < 2 ^ LENGTH('a)"
    using assms unsigned_less [of b, where 'a = nat] unfolding word_less_nat_alt by linarith
  then show ?thesis by (simp add: unat_word_ariths)
qed

section \<open>What is left to execute\<close>

definition left_of :: "os_t \<Rightarrow> pcb_ref \<Rightarrow> nat" where
  "left_of s p = unat (code_size (code (pcbs s ! p))) - unat (pc (pcbs s ! p))"

text \<open>A finished process still has to be noticed by a CPU; queued, it has also to be dispatched.\<close>

definition held_work :: "os_t \<Rightarrow> pcb_ref \<Rightarrow> nat" where
  "held_work s p = left_of s p + 1"

definition ready_work :: "os_t \<Rightarrow> pcb_ref \<Rightarrow> nat" where
  "ready_work s p = (if left_of s p = 0 then 2 else left_of s p + 1)"

definition cpu_work :: "os_t \<Rightarrow> cpu_t \<Rightarrow> nat" where
  "cpu_work s c = sum_list (map (held_work s) (owns c))"

definition queue_work :: "os_t \<Rightarrow> nat" where
  "queue_work s = (\<Sum>p \<in># ready_mset (sched s). ready_work s p)"

definition pcs_ok :: "os_t \<Rightarrow> bool" where
  "pcs_ok s \<longleftrightarrow> (\<forall>p < length (pcbs s). pc (pcbs s ! p) \<le> code_size (code (pcbs s ! p)))"

text \<open>Ranks of the phases of a CPU: in a slot, and on the way to the exit once the loader has left.  A CPU
  that holds a finished process must come to the check first.\<close>

fun slot_rank :: "cpu_phase \<Rightarrow> nat" where
  "slot_rank C_check = 9"
| "slot_rank C_get = 8"
| "slot_rank C_idle = 8"
| "slot_rank C_recheck = 7"
| "slot_rank C_switch = 6"
| "slot_rank C_run = 5"
| "slot_rank C_slot = 4"
| "slot_rank C_wait = 3"
| "slot_rank C_detach = 2"
| "slot_rank C_exit = 1"

fun exit_rank :: "bool \<Rightarrow> cpu_phase \<Rightarrow> nat" where
  "exit_rank fin C_slot = 8"
| "exit_rank fin C_wait = 7"
| "exit_rank fin C_check = 6"
| "exit_rank fin C_recheck = (if fin then 11 else 4)"
| "exit_rank fin C_switch = (if fin then 10 else 3)"
| "exit_rank fin C_run = (if fin then 9 else 2)"
| "exit_rank fin C_get = 5"
| "exit_rank fin C_idle = 5"
| "exit_rank fin C_detach = 1"
| "exit_rank fin C_exit = 0"

definition owns_finished :: "os_t \<Rightarrow> cpu_t \<Rightarrow> bool" where
  "owns_finished s c \<longleftrightarrow> (\<exists>p \<in> set (owns c). left_of s p = 0)"

section \<open>One step of a CPU\<close>

lemma held_le_ready: "held_work s p \<le> ready_work s p"
  "left_of s p = 0 \<Longrightarrow> held_work s p < ready_work s p" "left_of s p \<noteq> 0 \<Longrightarrow> ready_work s p = held_work s p"
  by (simp_all add: held_work_def ready_work_def)

lemma work_cong:
  assumes "pcbs s' = pcbs s"
  shows "left_of s' = left_of s" "held_work s' = held_work s" "ready_work s' = ready_work s"
  using assms by (simp_all add: left_of_def held_work_def ready_work_def fun_eq_iff)

lemma get_work:
  assumes "sched_inv (sched s)" and g: "k_get_proc s = (q, s')"
  shows "queue_work s' + (case q of None \<Rightarrow> 0 | Some p \<Rightarrow> ready_work s p) = queue_work s"
  using get_ready(2,3) [OF assms] work_cong [OF get_ready(2) [OF assms]]
  by (simp add: queue_work_def split: option.splits)

lemma put_work:
  assumes "sched_inv (sched s)" and "k_put_proc s p = Inr s'"
  shows "queue_work s' \<le> queue_work s + ready_work s p"
proof -
  note r = put_ready [OF assms(1) disjI1 [OF assms(2)]]
  obtain M where M: "add_mset p (ready_mset (sched s)) = ready_mset (sched s') + M"
    using r(3) by (auto simp: mset_subset_eq_exists_conv)
  have "(\<Sum>x \<in># ready_mset (sched s'). ready_work s x) \<le> (\<Sum>x \<in># add_mset p (ready_mset (sched s)). ready_work s x)"
    unfolding M by simp
  then show ?thesis using work_cong(3) [OF r(2)] by (simp add: queue_work_def)
qed

lemma run_work:
  assumes r: "run data0 s p = Inr (x, s')" and p: "p < length (pcbs s)" and ok: "pcs_ok s"
  shows "left_of s' q = (if q = p then left_of s p - 1 else left_of s q)"
    and "left_of s p = 0 \<Longrightarrow> pcbs s' = pcbs s" and "pcs_ok s'"
proof -
  let ?pr = "pcbs s ! p"
  note k = run_keeps(2) [OF r]
  have fin: "code_size (code ?pr) \<le> pc ?pr \<longleftrightarrow> left_of s p = 0"
    by (simp add: left_of_def word_le_nat_alt)
  show "left_of s p = 0 \<Longrightarrow> pcbs s' = pcbs s" using k fin by simp
  have inc: "unat (pc ?pr + 1) = Suc (unat (pc ?pr))" if "left_of s p \<noteq> 0"
  proof -
    have "pc ?pr < code_size (code ?pr)" using that by (simp add: left_of_def word_less_nat_alt)
    then show ?thesis by (rule unat_below_inc)
  qed
  show "left_of s' q = (if q = p then left_of s p - 1 else left_of s q)"
    using k fin inc p by (auto simp: left_of_def nth_list_update)
  show "pcs_ok s'"
    using k fin inc p ok by (auto simp: pcs_ok_def nth_list_update left_of_def word_le_nat_alt)
qed

lemma cpu_routine_pcbs:
  assumes inv: "sched_inv (sched s)" and st: "cpu_routine cf fin data0 s c = Some (Inr (s', c'))"
    and "cpu_at c \<noteq> C_run"
  shows "pcbs s' = pcbs s"
proof -
  obtain q t where g: "k_get_proc s = (q, t)" by (cases "k_get_proc s")
  have p: "k_put_proc s p = Inr s' \<Longrightarrow> pcbs s' = pcbs s" for p using put_ready(2) [OF inv] by blast
  show ?thesis using st assms(3) g get_ready(2) [OF inv g] p remove_proc_facts [OF inv]
    by (cases "cpu_at c") (auto simp: cpu_routine_def cpu_check_def cpu_idle_def cpu_get_def cpu_recheck_def
      k_remove_proc_def bindR_eq_Inr Let_def elim!: cpu_switch_Inr split: option.splits if_splits)
qed

text \<open>A step of a CPU in its slot either makes the work less, or keeps it and moves the CPU on.\<close>

definition moves_on :: "bool \<Rightarrow> os_t \<Rightarrow> cpu_t \<Rightarrow> os_t \<Rightarrow> cpu_t \<Rightarrow> bool" where
  "moves_on fin s c s' c' \<longleftrightarrow> queue_work s' + cpu_work s' c' < queue_work s + cpu_work s c
     \<or> queue_work s' + cpu_work s' c' = queue_work s + cpu_work s c \<and> left_of s' = left_of s
        \<and> (fin \<longrightarrow> exit_rank (owns_finished s' c') (cpu_at c') < exit_rank (owns_finished s c) (cpu_at c))"

lemma cpu_check_moves:
  assumes inv: "sched_inv (sched s)" and st: "cpu_check s c = Inr (s', c')" and at: "cpu_at c = C_check"
    and own: "\<forall>p \<in> set (owns c). p < length (pcbs s)" and ok: "pcs_ok s"
  shows "moves_on fin s c s' c'"
proof (cases "cpu_proc c")
  case None
  obtain q t where g: "k_get_proc s = (q, t)" by (cases "k_get_proc s")
  note w = get_work [OF inv g] and c = work_cong [OF get_ready(2) [OF inv g]]
  show ?thesis
  proof (cases q)
    case None
    then show ?thesis using st at w c g \<open>cpu_proc c = None\<close>
      by (auto simp: cpu_check_def moves_on_def cpu_work_def owns_def owns_finished_def)
  next
    case (Some p)
    then show ?thesis using st at w c g \<open>cpu_proc c = None\<close> held_le_ready [of s p]
      by (cases "left_of s p = 0") (auto simp: cpu_check_def moves_on_def cpu_work_def owns_def owns_finished_def)
  qed
next
  case (Some p)
  have p: "p < length (pcbs s)" using own Some at by (simp add: owns_def)
  have fin: "finished s p \<longleftrightarrow> left_of s p = 0"
    using ok p by (auto simp: finished_def left_of_def pcs_ok_def word_le_nat_alt word_unat_eq_iff)
  consider "finished s p" | "\<not> finished s p" "time_left c = 0" | "\<not> finished s p" "time_left c \<noteq> 0" by blast
  then show ?thesis
  proof cases
    case 1
    have "ready_mset (sched (k_remove_proc s p)) = ready_mset (sched s)" "pcbs (k_remove_proc s p) = pcbs s"
      using remove_proc_facts [OF inv, of p] by (auto simp: k_remove_proc_def ready_mset_def)
    then show ?thesis using st at 1 Some work_cong [of "k_remove_proc s p" s]
      by (auto simp: cpu_check_def moves_on_def cpu_work_def owns_def finished_def queue_work_def held_work_def)
  next
    case 2
    then have s': "k_put_proc s p = Inr s'" and c': "c' = c\<lparr>cpu_at := C_get\<rparr>"
      using st Some by (auto simp: cpu_check_def finished_def bindR_eq_Inr)
    note c = work_cong [OF put_ready(2) [OF inv disjI1 [OF s']]]
    show ?thesis using put_work [OF inv s'] c c' at Some 2 fin held_le_ready(3) [of s p]
      by (auto simp: moves_on_def cpu_work_def owns_def owns_finished_def)
  next
    case 3
    then have s': "s' = s" and c': "c' = c\<lparr>cpu_at := C_recheck\<rparr>"
      using st Some by (auto simp: cpu_check_def finished_def)
    show ?thesis using c' at Some 3 fin
      by (auto simp: s' moves_on_def cpu_work_def owns_def owns_finished_def)
  qed
qed

lemma cpu_routine_moves:
  assumes inv: "sched_inv (sched s)" and st: "cpu_routine cf fin data0 s c = Some (Inr (s', c'))"
    and own: "\<forall>p \<in> set (owns c). p < length (pcbs s)" and ok: "pcs_ok s"
    and idle: "cpu_at c = C_idle \<longrightarrow> cpu_proc c = None"
  shows "moves_on fin s c s' c'" and "pcs_ok s'" and "left_of s' q \<le> left_of s q"
    and "slot_rank (cpu_at c') < slot_rank (cpu_at c)"
proof -
  have "moves_on fin s c s' c' \<and> pcs_ok s' \<and> left_of s' q \<le> left_of s q"
  proof (cases "cpu_at c = C_run")
    case True
    obtain p r where p: "cpu_proc c = Some p" and c': "c' = c\<lparr>time_left := time_left c - 1, cpu_at := C_slot\<rparr>"
      and r: "run data0 s p = Inr (r, s')"
      using st True by (auto simp: cpu_routine_def cpu_run_def bindR_eq_Inr deref_Inr)
    have o: "owns c = [p]" "owns c' = [p]" using p c' True by (simp_all add: owns_def)
    have "p < length (pcbs s)" using own o by simp
    note w = run_work [OF r this ok] and l = run_work(1) [OF r this ok]
    have rw: "ready_work s' x \<le> ready_work s x" for x using l by (auto simp: ready_work_def)
    then have qw: "queue_work s' \<le> queue_work s"
      using run_keeps(1) [OF r] by (simp add: queue_work_def sum_mset_mono)
    have "moves_on fin s c s' c'"
    proof (cases "left_of s p = 0")
      case True
      then show ?thesis using w(2) \<open>cpu_at c = C_run\<close> o c' run_keeps(1) [OF r] work_cong [of s' s]
        by (simp add: moves_on_def queue_work_def cpu_work_def owns_finished_def)
    next
      case False
      then show ?thesis using qw o l by (simp add: moves_on_def cpu_work_def held_work_def)
    qed
    then show ?thesis using w(3) l by simp
  next
    case False
    have pcbs: "pcbs s' = pcbs s" using cpu_routine_pcbs [OF inv st False] .
    have "moves_on fin s c s' c'"
    proof (cases "cpu_at c")
      case C_check
      then show ?thesis using st cpu_check_moves [OF inv _ C_check own ok] by (simp add: cpu_routine_def)
    next
      case C_get
      obtain q t where g: "k_get_proc s = (q, t)" by (cases "k_get_proc s")
      have "s' = t" "c' = c\<lparr>cpu_proc := q, cpu_at := C_recheck\<rparr>"
        using st C_get g by (auto simp: cpu_routine_def cpu_get_def)
      then show ?thesis using get_work [OF inv g] C_get work_cong [OF pcbs] held_le_ready [of s "the q"]
        by (cases "left_of s (the q) = 0")
          (auto simp: moves_on_def cpu_work_def owns_def owns_finished_def split: option.splits)
    next
      case C_switch
      then have "cpu_switch s c = Inr (s', c')" using st by (simp add: cpu_routine_def)
      then obtain p where "cpu_proc c = Some p" "c' = c\<lparr>cpu_at := C_run\<rparr>" "sched s' = sched s"
        by (rule cpu_switch_Inr)
      then show ?thesis using C_switch work_cong [OF pcbs]
        by (simp add: moves_on_def queue_work_def cpu_work_def owns_def owns_finished_def)
    qed (use st False idle in \<open>auto simp: cpu_routine_def cpu_idle_def cpu_recheck_def moves_on_def cpu_work_def owns_def
        owns_finished_def split: if_splits\<close>)
    then show ?thesis using work_cong(1) [OF pcbs] ok pcbs by (simp add: pcs_ok_def)
  qed
  then show "moves_on fin s c s' c'" "pcs_ok s'" "left_of s' q \<le> left_of s q" by blast+
  show "slot_rank (cpu_at c') < slot_rank (cpu_at c)"
    using st by (cases "cpu_at c") (auto simp: cpu_routine_def cpu_check_def cpu_idle_def cpu_get_def cpu_recheck_def
      cpu_switch_def cpu_run_def bindR_eq_Inr Let_def split: option.splits if_splits prod.splits)
qed

section \<open>The timer thread\<close>

definition slots_left :: "timer_t \<Rightarrow> nat" where
  "slots_left t = (\<Sum>k<length (dev_list t).
     if live (dev_list t ! k) then unat (slots (dev_list t ! k) + 1 - time_now t) else 0)"

definition some_live :: "timer_t \<Rightarrow> bool" where
  "some_live t \<longleftrightarrow> (\<exists>k < length (dev_list t). live (dev_list t ! k))"

text \<open>With no device left the thread ends after the round in which it counts only finished ones; a
  round that has counted a device before it was detached must be followed by another.\<close>

definition round_rank :: "timer_t \<Rightarrow> nat" where
  "round_rank t = (case t_phase t of
       T_top \<Rightarrow> if some_live t then 2 else 3
     | T_wait i f e \<Rightarrow> if some_live t then 1 else if f = e then 2 else 5
     | T_release i f e \<Rightarrow> if some_live t then 3 else if f = e then 1 else 4
     | T_exit \<Rightarrow> 0)"

definition position_left :: "timer_t \<Rightarrow> nat" where
  "position_left t = (case t_phase t of
       T_wait i f e \<Rightarrow> Suc (length (dev_list t)) - i
     | T_release i f e \<Rightarrow> Suc (length (dev_list t)) - i
     | _ \<Rightarrow> 0)"

lemma timer_thread_ranks:
  assumes "dev_list t' = dev_list t" and "time_now t' = time_now t"
  shows "slots_left t' = slots_left t" "some_live t' = some_live t"
    "t_phase t' = t_phase t \<Longrightarrow> round_rank t' = round_rank t"
    "t_phase t' = t_phase t \<Longrightarrow> position_left t' = position_left t"
proof -
  show "slots_left t' = slots_left t" and l: "some_live t' = some_live t"
    using assms by (simp_all add: slots_left_def some_live_def cong: if_cong)
  show "t_phase t' = t_phase t \<Longrightarrow> round_rank t' = round_rank t"
    "t_phase t' = t_phase t \<Longrightarrow> position_left t' = position_left t"
    using assms(1) l by (simp_all add: round_rank_def position_left_def split: timer_phase.splits)
qed

lemma timer_top_moves:
  assumes ok: "barrier_ok t" and st: "timer_top t = Some t'"
  shows "(t', t) \<in> measures [slots_left, round_rank, position_left]"
proof -
  have "timer_stop t \<longrightarrow> \<not> some_live t"
    using ok by (auto simp: barrier_ok_def phase_ok_def some_live_def live_def)
  moreover have t': "dev_list t' = dev_list t" "time_now t' = time_now t" "t_phase t = T_top"
      "t_phase t' = (if timer_stop t then T_exit else T_wait 0 0 0)"
    using st by (auto simp: timer_top_def split: if_splits)
  ultimately show ?thesis using timer_thread_ranks [OF t'(1,2)] by (auto simp: round_rank_def)
qed

lemma timer_wait_moves:
  assumes ok: "barrier_ok t" and st: "timer_wait t = Some t'"
  shows "(t', t) \<in> measures [slots_left, round_rank, position_left]"
proof -
  obtain k f e where p: "t_phase t = T_wait k f e"
    using st by (auto simp: timer_wait_def split: timer_phase.splits)
  show ?thesis
  proof (cases "k < length (dev_list t)")
    case True
    let ?d = "dev_list t ! k"
    have t': "dev_list t' = dev_list t" "time_now t' = time_now t"
      "t_phase t' = T_wait (Suc k) (if dev_fsh ?d then Suc f else f) (Suc e)"
      using st p True by (auto simp: timer_wait_def split: if_splits)
    have "f \<le> e" using ok p by (simp add: barrier_ok_def phase_ok_def)
    moreover have "dev_fsh ?d" if "\<not> some_live t"
      using that True barrier_ok_dev [OF ok True] by (auto simp: some_live_def live_def dev_ok_def)
    ultimately show ?thesis using timer_thread_ranks [OF t'(1,2)] t' p True
      by (auto simp: round_rank_def position_left_def)
  next
    case False
    have t': "dev_list t' = dev_list t" "time_now t' = time_now t + 1" "t_phase t' = T_release 0 f e"
      using st p False by (auto simp: timer_wait_def split: if_splits)
    have fin: "slots (dev_list t ! j) = time_now t" if "j < length (dev_list t)" "live (dev_list t ! j)" for j
      using wait_through [OF ok p False that(1)] that(2) by (auto simp: live_def)
    have l: "some_live t' = some_live t" using t'(1) by (simp add: some_live_def)
    have zero: "slots_left t' = 0" using t' fin by (auto simp: slots_left_def)
    show ?thesis
    proof (cases "some_live t")
      case True
      then obtain j where j: "j < length (dev_list t)" "live (dev_list t ! j)"
        by (auto simp: some_live_def)
      have "slots_left t \<noteq> 0" using j fin [OF j] by (auto simp: slots_left_def intro!: bexI [of _ j])
      then show ?thesis using zero by simp
    next
      case none: False
      then have "slots_left t = 0" by (auto simp: slots_left_def some_live_def)
      then show ?thesis using none zero l p t'(3) by (auto simp: round_rank_def)
    qed
  qed
qed

lemma timer_release_moves:
  assumes ok: "barrier_ok t" and st: "timer_release t = Some t'"
  shows "(t', t) \<in> measures [slots_left, round_rank, position_left]"
proof -
  obtain k f e where p: "t_phase t = T_release k f e"
    using st by (auto simp: timer_release_def split: timer_phase.splits)
  show ?thesis
  proof (cases "k < length (dev_list t)")
    case True
    let ?d = "(dev_list t ! k)\<lparr>dev_done := False\<rparr>"
    have t': "dev_list t' = (dev_list t)[k := ?d]" "time_now t' = time_now t" "t_phase t' = T_release (Suc k) f e"
      using st p True by (auto simp: timer_release_def)
    have same: "live (dev_list t' ! j) = live (dev_list t ! j)" "slots (dev_list t' ! j) = slots (dev_list t ! j)" for j
      using t'(1) True by (cases "j = k"; simp add: live_def)+
    have "slots_left t' = slots_left t" using t'(1,2) same by (simp add: slots_left_def cong: if_cong)
    moreover have "some_live t' = some_live t" using t'(1) same by (simp add: some_live_def)
    ultimately show ?thesis using t' p True by (auto simp: round_rank_def position_left_def)
  next
    case False
    have t': "dev_list t' = dev_list t" "time_now t' = time_now t" "t_phase t' = (if f = e then T_exit else T_top)"
      using st p False by (auto simp: timer_release_def)
    have "f = e \<longrightarrow> \<not> some_live t"
      using ok p barrier_ok_dev [OF ok]
      by (auto simp: barrier_ok_def phase_ok_def some_live_def live_def dev_ok_def in_set_conv_nth)
    then show ?thesis using timer_thread_ranks [OF t'(1,2)] t'(3) p by (auto simp: round_rank_def)
  qed
qed

lemma timer_routine_moves:
  "barrier_ok t \<Longrightarrow> timer_routine t = Some t' \<Longrightarrow> (t', t) \<in> measures [slots_left, round_rank, position_left]"
  using timer_top_moves timer_wait_moves timer_release_moves
  by (auto simp: timer_routine_def split: timer_phase.splits simp del: in_measures)

section \<open>Two more invariants\<close>

lemma owned_valid:
  assumes "proc_ok cf S" and "i < length (s_cpus S)" and "p \<in> set (owns (s_cpus S ! i))"
  shows "p < length (pcbs (s_os S))"
proof -
  have "p \<in># active S"
    using assms(3) mset_subset_eqD [OF owned_part [OF assms(2)]] by (simp add: active_def)
  then have "p \<in># mset [0..<ld_i (s_ld S)]" using assms(1) by (meson mset_subset_eqD proc_ok_def)
  then show ?thesis using assms(1) by (simp add: proc_ok_def split: if_splits)
qed

lemma pcs_ok_step: "sys_step cf fs S S' \<Longrightarrow> proc_ok cf S \<Longrightarrow> flags_ok cf S \<Longrightarrow> pcs_ok (s_os S) \<Longrightarrow> pcs_ok (s_os S')"
proof (induction rule: sys_step.induct)
  case (cpu i S data0 s c)
  have "sched_inv (sched (s_os S))" using cpu(3) by (simp add: proc_ok_def)
  then show ?case
    using cpu_routine_moves(2) [OF _ cpu(2)] owned_valid [OF cpu(3,1)] cpu(1,4,5) by (auto simp: flags_ok_def)
next
  case (load S raw mem s avail l)
  then show ?case by (auto simp: ld_load_def Let_def bindR_eq_Inr pcs_ok_def nth_append elim!: load_Inr)
next
  case (init_mm mm0 S s l)
  then show ?case using ld_setup_facts(3,4,5) [OF init_mm(2)] by (simp add: pcs_ok_def)
next
  case (add S s l)
  have "sched_inv (sched (s_os S))" using add(3) by (simp add: proc_ok_def)
  then have "pcbs s = pcbs (s_os S)" using ld_add_effect(2) add(2) by blast
  then show ?case using add by (simp add: pcs_ok_def)
qed simp_all

lemma pcs_ok_reach: "sys_reach cf fs S \<Longrightarrow> pcs_ok (s_os S)"
proof (induction rule: sys_reach.induct)
  case (main mp0)
  show ?case by (simp add: main_init_def pcs_ok_def)
next
  case (step S S')
  then show ?case using pcs_ok_step proc_ok_reach flags_ok_reach by blast
qed

text \<open>While the loader waits for a start time, the slots it has been through have not reached it.\<close>

definition start_of :: "config_t \<Rightarrow> sys_t \<Rightarrow> u64" where
  "start_of cf S = ld_start (ld_processes cf ! ld_i (s_ld S))"

definition early :: "config_t \<Rightarrow> sys_t \<Rightarrow> bool" where
  "early cf S \<longleftrightarrow> (ld_at (s_ld S) \<in> {L_tslot, L_twait} \<longrightarrow> slots (devices S ! 0) < start_of cf S)"

lemma slots_kept:
  assumes "next_slot_enter t d = Some t' \<or> detach_event t d = Some t' \<or> timer_routine t = Some t' \<or> stop_timer t = Some t'"
  shows "slots (dev_list t' ! k) = slots (dev_list t ! k)"
  using assms timer_thread(3) [of t t' k]
  by (cases "k = d") (auto simp: next_slot_enter_def detach_event_def split: if_splits)

lemma slots_leave:
  assumes "next_slot_leave t d = Some t'"
  shows "slots (dev_list t' ! k) = (if k = d then slots (dev_list t ! d) + 1 else slots (dev_list t ! k))"
    and "barrier_ok t \<Longrightarrow> slots (dev_list t ! d) = time_now t - 1"
proof -
  show "slots (dev_list t' ! k) = (if k = d then slots (dev_list t ! d) + 1 else slots (dev_list t ! k))"
    using assms by (auto simp: next_slot_leave_def split: if_splits)
  show "slots (dev_list t ! d) = time_now t - 1" if "barrier_ok t"
    using assms barrier_ok_dev [OF that, of d] by (auto simp: next_slot_leave_def dev_ok_def split: if_splits)
qed

lemma early_step: "sys_step cf fs S S' \<Longrightarrow> timer_link S \<Longrightarrow> early cf S \<Longrightarrow> early cf S'"
proof (induction rule: sys_step.induct)
  case (cpu_slot i S t)
  then show ?case using slots_kept [of "s_timer S" "dev_of S i" t 0] by (auto simp: early_def start_of_def devices_def)
next
  case (cpu_wait i S t)
  have "dev_of S i \<noteq> 0" using cpu_wait(1) by (simp add: dev_of_def)
  then show ?case using cpu_wait slots_leave(1) [of "s_timer S" "dev_of S i" t 0]
    by (auto simp: early_def start_of_def devices_def)
next
  case (cpu_detach i S t)
  then show ?case using slots_kept [of "s_timer S" "dev_of S i" t 0] by (auto simp: early_def start_of_def devices_def)
next
  case (time S)
  have "slots (devices S ! 0) = time_now (s_timer S)" using ld_device [OF time(2)] time(1) by (simp add: dev_ok_def)
  then show ?case using time(1) by (auto simp: early_def start_of_def ld_time_def current_time_def)
next
  case (ld_slot S ph t)
  then show ?case using slots_kept [of "s_timer S" 0 t 0] by (auto simp: early_def start_of_def devices_def)
next
  case (init_mm mm0 S s l)
  then show ?case using ld_setup_facts(7,9) [OF init_mm(2)] by (auto simp: early_def)
next
  case (timer S t)
  then show ?case using slots_kept [of "s_timer S" 0 t 0] by (auto simp: early_def start_of_def devices_def)
next
  case (stop S t)
  then show ?case using slots_kept [of "s_timer S" 0 t 0] by (auto simp: early_def start_of_def devices_def)
qed (auto simp: early_def start_of_def ld_load_def ld_add_def Let_def bindR_eq_Inr)

lemma early_reach: "sys_reach cf fs S \<Longrightarrow> early cf S"
proof (induction rule: sys_reach.induct)
  case (main mp0)
  show ?case by (simp add: early_def main_init_def ld_begin_def)
next
  case (step S S')
  then show ?case using early_step timer_link_reach by blast
qed

section \<open>The rank of a state\<close>

fun ld_rank :: "ld_phase \<Rightarrow> nat" where
  "ld_rank L_slot = 11"
| "ld_rank L_wait = 10"
| "ld_rank L_load = 9"
| "ld_rank L_add = 3"
| "ld_rank L_detach = 2"
| "ld_rank L_exit = 1"
| "ld_rank L_init = 6"
| "ld_rank L_mm = 5"
| "ld_rank L_own = 4"
| "ld_rank _ = 7"

definition processes_left :: "config_t \<Rightarrow> sys_t \<Rightarrow> nat" where
  "processes_left cf S = nat (num_processes cf) - ld_i (s_ld S)"

definition wait_left :: "config_t \<Rightarrow> sys_t \<Rightarrow> nat" where
  "wait_left cf S = 3 * (unat (start_of cf S) - unat (slots (devices S ! 0)))
     + (case ld_at (s_ld S) of L_time \<Rightarrow> 2 | L_tslot \<Rightarrow> 1 | _ \<Rightarrow> 0)"

definition work :: "sys_t \<Rightarrow> nat" where
  "work S = queue_work (s_os S) + (\<Sum>i<length (s_cpus S). cpu_work (s_os S) (s_cpus S ! i))"

definition cpu_rank :: "sys_t \<Rightarrow> nat \<Rightarrow> nat" where
  "cpu_rank S i =
     (let c = s_cpus S ! i in
      if ld_at (s_ld S) = L_exit then exit_rank (owns_finished (s_os S) c) (cpu_at c)
      else 10 * unat (slots (devices S ! 0) + 2 - slots (devices S ! dev_of S i)) + slot_rank (cpu_at c))"

definition cpu_steps :: "sys_t \<Rightarrow> nat" where
  "cpu_steps S = (\<Sum>i<length (s_cpus S). cpu_rank S i)"

definition sys_rank :: "config_t \<Rightarrow> (sys_t \<times> sys_t) set" where
  "sys_rank cf = measures [processes_left cf, \<lambda>S. ld_rank (ld_at (s_ld S)), wait_left cf, work, cpu_steps,
     \<lambda>S. slots_left (s_timer S), \<lambda>S. round_rank (s_timer S), \<lambda>S. position_left (s_timer S),
     \<lambda>S. case s_main S of M_join \<Rightarrow> 2 | M_stop \<Rightarrow> 1 | M_return \<Rightarrow> 0]"

lemma wf_sys_rank: "wf (sys_rank cf)"
  unfolding sys_rank_def by (rule wf_measures)

lemma sum_one_less:
  fixes f g :: "nat \<Rightarrow> nat"
  assumes "i < n" and "f i < g i" and "\<And>j. j < n \<Longrightarrow> j \<noteq> i \<Longrightarrow> f j \<le> g j"
  shows "(\<Sum>j<n. f j) < (\<Sum>j<n. g j)"
  using assms by (intro sum_strict_mono_ex1) (auto simp: le_less)

text \<open>What a step of one CPU does to the rank, inside and at the border of a slot.\<close>

lemma cpu_moves:
  assumes ok: "proc_ok cf S" "flags_ok cf S" "pcs_ok (s_os S)" and i: "i < length (s_cpus S)"
    and st: "cpu_routine cf (s_done S) data0 (s_os S) (s_cpus S ! i) = Some (Inr (s, c))"
  shows "(set_cpu (S\<lparr>s_os := s\<rparr>) i c, S) \<in> sys_rank cf"
proof -
  let ?S = "set_cpu (S\<lparr>s_os := s\<rparr>) i c" and ?c = "s_cpus S ! i" and ?n = "length (s_cpus S)"
  have "sched_inv (sched (s_os S))" using ok(1) by (simp add: proc_ok_def)
  moreover have "\<forall>p \<in> set (owns ?c). p < length (pcbs (s_os S))" using owned_valid [OF ok(1) i] by blast
  moreover have "cpu_at ?c = C_idle \<longrightarrow> cpu_proc ?c = None" using ok(2) i by (simp add: flags_ok_def)
  ultimately have m: "moves_on (s_done S) (s_os S) ?c s c" "\<And>q. left_of s q \<le> left_of (s_os S) q"
    "slot_rank (cpu_at c) < slot_rank (cpu_at ?c)"
    using cpu_routine_moves [OF _ st _ ok(3)] by blast+
  have le: "cpu_work s x \<le> cpu_work (s_os S) x" for x
    using m(2) by (simp add: cpu_work_def held_work_def sum_list_mono)
  have w: "work ?S = queue_work s + cpu_work s c + (\<Sum>j \<in> {..<?n} - {i}. cpu_work s (s_cpus S ! j))"
    "work S = queue_work (s_os S) + cpu_work (s_os S) ?c + (\<Sum>j \<in> {..<?n} - {i}. cpu_work (s_os S) (s_cpus S ! j))"
    using i by (simp_all add: work_def sum.remove [of _ i])
  have rest: "(\<Sum>j \<in> {..<?n} - {i}. cpu_work s (s_cpus S ! j)) \<le> (\<Sum>j \<in> {..<?n} - {i}. cpu_work (s_os S) (s_cpus S ! j))"
    by (rule sum_mono) (rule le)
  have ld: "processes_left cf ?S = processes_left cf S" "wait_left cf ?S = wait_left cf S"
    by (simp_all add: processes_left_def wait_left_def start_of_def)
  consider "queue_work s + cpu_work s c < queue_work (s_os S) + cpu_work (s_os S) ?c"
    | "queue_work s + cpu_work s c = queue_work (s_os S) + cpu_work (s_os S) ?c" "left_of s = left_of (s_os S)"
      "s_done S \<longrightarrow> exit_rank (owns_finished s c) (cpu_at c) < exit_rank (owns_finished (s_os S) ?c) (cpu_at ?c)"
    using m(1) unfolding moves_on_def by blast
  then show ?thesis
  proof cases
    case 1
    then have "work ?S < work S" using w rest by linarith
    then show ?thesis using ld by (simp add: sys_rank_def)
  next
    case 2
    have "cpu_work s = cpu_work (s_os S)" "owns_finished s = owns_finished (s_os S)"
      using 2(2) by (simp_all add: cpu_work_def held_work_def [abs_def] owns_finished_def fun_eq_iff cong: map_cong)
    note same = this
    have "s_done S" if "ld_at (s_ld S) = L_exit" using that ok(2) by (simp add: flags_ok_def)
    then have "cpu_rank ?S i < cpu_rank S i" using i 2(3) m(3) same by (simp add: cpu_rank_def Let_def)
    moreover have "cpu_rank ?S j = cpu_rank S j" if "j \<noteq> i" for j
      using that same by (simp add: cpu_rank_def Let_def)
    ultimately have "cpu_steps ?S < cpu_steps S" using sum_one_less [OF i] by (simp add: cpu_steps_def)
    moreover have "work ?S = work S" using 2(1) w same by simp
    ultimately show ?thesis using ld by (simp add: sys_rank_def)
  qed
qed

text \<open>The timer calls of a CPU keep the work and bring this CPU nearer to its next check, or to the exit.\<close>

lemma cpu_calls_move:
  assumes link: "timer_link S" and i: "i < length (s_cpus S)"
    and call: "cpu_at (s_cpus S ! i) = C_slot \<and> next_slot_enter (s_timer S) (dev_of S i) = Some t \<and> ph = C_wait
      \<or> cpu_at (s_cpus S ! i) = C_wait \<and> next_slot_leave (s_timer S) (dev_of S i) = Some t \<and> ph = C_check
      \<or> cpu_at (s_cpus S ! i) = C_detach \<and> detach_event (s_timer S) (dev_of S i) = Some t \<and> ph = C_exit"
  shows "(set_cpu (S\<lparr>s_timer := t\<rparr>) i ((s_cpus S ! i)\<lparr>cpu_at := ph\<rparr>), S) \<in> sys_rank cf"
proof -
  let ?c = "s_cpus S ! i" and ?c' = "(s_cpus S ! i)\<lparr>cpu_at := ph\<rparr>"
  let ?S = "set_cpu (S\<lparr>s_timer := t\<rparr>) i ?c'" and ?ld = "slots (devices S ! 0)" and ?me = "slots (devices S ! dev_of S i)"
  have d: "dev_of S i \<noteq> 0" "\<And>j. j < length (s_cpus S) \<Longrightarrow> j \<noteq> i \<Longrightarrow> dev_of S j \<noteq> dev_of S i"
    using dev_of_less [OF i] dev_of_inj [OF _ i] by auto
  have own: "owns ?c' = owns ?c" using call by (auto simp: owns_def)
  have others: "slots (dev_list t ! k) = slots (devices S ! k)" if "k \<noteq> dev_of S i" for k
    using call that slots_kept [of "s_timer S" "dev_of S i" t k] slots_leave(1) [of "s_timer S" "dev_of S i" t k]
    by (auto simp: devices_def)
  have ld: "processes_left cf ?S = processes_left cf S" "wait_left cf ?S = wait_left cf S"
    using others [of 0] d(1) by (auto simp: processes_left_def wait_left_def start_of_def)
  have cw: "cpu_work s ?c' = cpu_work s ?c" "owns_finished s ?c' = owns_finished s ?c" for s
    using own by (simp_all add: cpu_work_def owns_finished_def)
  have "cpu_work (s_os S) ((s_cpus S)[i := ?c'] ! j) = cpu_work (s_os S) (s_cpus S ! j)" for j
    using cw i by (cases "j = i") simp_all
  then have work: "work ?S = work S" by (simp add: work_def)
  have "cpu_rank ?S i < cpu_rank S i"
  proof (cases "cpu_at ?c = C_wait")
    case False
    then have "slots (dev_list t ! dev_of S i) = ?me"
      using call slots_kept [of "s_timer S" "dev_of S i" t "dev_of S i"] by (auto simp: devices_def)
    then show ?thesis using call False i others [of 0] d(1) cw by (auto simp: cpu_rank_def Let_def)
  next
    case True
    then have leave: "next_slot_leave (s_timer S) (dev_of S i) = Some t" and ph: "ph = C_check" using call by auto
    have bar: "barrier_ok (s_timer S)" using link by (simp add: timer_link_def)
    have me: "?me = time_now (s_timer S) - 1" "slots (dev_list t ! dev_of S i) = ?me + 1"
      using slots_leave [OF leave] bar by (simp_all add: devices_def)
    show ?thesis
    proof (cases "ld_at (s_ld S) = L_exit")
      case True
      then show ?thesis using i ph \<open>cpu_at ?c = C_wait\<close> cw by (simp add: cpu_rank_def Let_def)
    next
      case False
      then have "dev_phase (devices S ! 0) \<noteq> Gone" using ld_device(2) [OF link] by (cases "ld_at (s_ld S)") auto
      then have "?ld = time_now (s_timer S) \<or> ?ld = time_now (s_timer S) - 1"
        using ld_device(1) [OF link] by (auto simp: dev_ok_def split: dev_phase.splits if_splits)
      then have "?ld + 2 - (?me + 1) = 2 \<and> ?ld + 2 - ?me = 3 \<or> ?ld + 2 - (?me + 1) = 1 \<and> ?ld + 2 - ?me = 2"
        unfolding me(1) by (elim disjE) (simp_all add: algebra_simps)
      moreover have "unat (3 :: u64) = 3" "unat (2 :: u64) = 2" by simp_all
      ultimately have "unat (?ld + 2 - (?me + 1)) + 1 = unat (?ld + 2 - ?me)"
        by (elim disjE conjE) (simp_all only: unsigned_1 one_add_one numeral_plus_one add_num_simps)
      then show ?thesis using False i ph \<open>cpu_at ?c = C_wait\<close> others [of 0] d(1) me(2)
        by (simp add: cpu_rank_def Let_def)
    qed
  qed
  moreover have "cpu_rank ?S j = cpu_rank S j" if "j < length (s_cpus S)" "j \<noteq> i" for j
    using that others [OF d(2) [OF that]] others [of 0] d(1) by (simp add: cpu_rank_def Let_def)
  ultimately have "cpu_steps ?S < cpu_steps S" using sum_one_less [OF i] by (simp add: cpu_steps_def)
  then show ?thesis using ld work by (simp add: sys_rank_def)
qed

text \<open>The loader.\<close>

lemma loader_moves:
  assumes "processes_left cf S' < processes_left cf S
     \<or> processes_left cf S' = processes_left cf S \<and> ld_rank (ld_at (s_ld S')) < ld_rank (ld_at (s_ld S))
     \<or> processes_left cf S' = processes_left cf S \<and> ld_rank (ld_at (s_ld S')) = ld_rank (ld_at (s_ld S))
        \<and> wait_left cf S' < wait_left cf S"
  shows "(S', S) \<in> sys_rank cf"
  using assms by (auto simp: sys_rank_def)

text \<open>A step of the timer thread concerns the last components only.\<close>

lemma timer_only:
  assumes "\<And>k. slots (dev_list t ! k) = slots (devices S ! k)"
  shows "processes_left cf (S\<lparr>s_timer := t\<rparr>) = processes_left cf S" "wait_left cf (S\<lparr>s_timer := t\<rparr>) = wait_left cf S"
    "work (S\<lparr>s_timer := t\<rparr>) = work S" "cpu_steps (S\<lparr>s_timer := t\<rparr>) = cpu_steps S"
  using assms by (simp_all add: processes_left_def wait_left_def start_of_def work_def cpu_steps_def cpu_rank_def Let_def
      cong: if_cong)

lemma main_only:
  "processes_left cf (S\<lparr>s_main := m\<rparr>) = processes_left cf S" "wait_left cf (S\<lparr>s_main := m\<rparr>) = wait_left cf S"
  "work (S\<lparr>s_main := m\<rparr>) = work S" "cpu_steps (S\<lparr>s_main := m\<rparr>) = cpu_steps S"
  by (simp_all add: processes_left_def wait_left_def start_of_def work_def cpu_steps_def cpu_rank_def Let_def
      cong: if_cong)

text \<open>Every step makes the rank smaller.\<close>

lemma step_moves:
  "sys_step cf fs S S' \<Longrightarrow> timer_link S \<Longrightarrow> proc_ok cf S \<Longrightarrow> flags_ok cf S \<Longrightarrow> pcs_ok (s_os S) \<Longrightarrow> early cf S
   \<Longrightarrow> (S', S) \<in> sys_rank cf"
proof (induction rule: sys_step.induct)
  case (cpu i S data0 s c)
  then show ?case using cpu_moves by blast
next
  case (cpu_slot i S t)
  then show ?case using cpu_calls_move by blast
next
  case (cpu_wait i S t)
  then show ?case using cpu_calls_move by blast
next
  case (cpu_detach i S t)
  then show ?case using cpu_calls_move by blast
next
  case (load S raw mem s avail l)
  then show ?case by - (rule loader_moves, auto simp: ld_load_def Let_def bindR_eq_Inr processes_left_def)
next
  case (finish S)
  then show ?case by - (rule loader_moves, simp add: processes_left_def)
next
  case (time S)
  then show ?case by - (rule loader_moves, auto simp: ld_time_def processes_left_def wait_left_def start_of_def)
next
  case (init_mm mm0 S s l)
  then show ?case using ld_setup_facts(7,9) [OF init_mm(2)]
    by - (rule loader_moves, auto simp: processes_left_def)
next
  case (add S s l)
  have "sched_inv (sched (s_os S))" using add(4) by (simp add: proc_ok_def)
  moreover have "ld_i (s_ld S) < nat (num_processes cf)" using add(1,4) by (auto simp: proc_ok_def)
  ultimately show ?case using ld_add_effect(3) [OF _ add(2)]
    by - (rule loader_moves [OF disjI1], simp add: processes_left_def diff_less_mono2)
next
  case (ld_slot S ph t)
  then show ?case using slots_kept [of "s_timer S" 0 t 0]
    by - (rule loader_moves, auto simp: processes_left_def wait_left_def start_of_def devices_def)
next
  case (ld_wait S ph t)
  have "unat (slots (devices S ! 0) + 1) = Suc (unat (slots (devices S ! 0)))" if "slots (devices S ! 0) < start_of cf S"
    using that by (rule unat_below_inc)
  then show ?case using ld_wait(1,7) slots_leave(1) [OF ld_wait(2), of 0]
    by - (rule loader_moves,
       auto simp: processes_left_def wait_left_def start_of_def devices_def early_def word_less_nat_alt)
next
  case (ld_detach S t)
  then show ?case by - (rule loader_moves, simp add: processes_left_def)
next
  case (timer S t)
  have "slots (dev_list t ! k) = slots (devices S ! k)" for k
    using slots_kept [of "s_timer S" 0 t k] timer(1) by (simp add: devices_def)
  note same = timer_only [OF this]
  have "(t, s_timer S) \<in> measures [slots_left, round_rank, position_left]"
    using timer_routine_moves timer(1,2) by (simp add: timer_link_def)
  then show ?case by (auto simp: sys_rank_def same)
next
  case (stop S t)
  let ?S = "S\<lparr>s_timer := t, s_main := M_stop\<rparr>"
  have t: "t = (s_timer S)\<lparr>timer_stop := True\<rparr>" using stop(4) by (simp add: stop_timer_def split: if_splits)
  have d: "dev_list t = dev_list (s_timer S)" "time_now t = time_now (s_timer S)" "t_phase t = t_phase (s_timer S)"
    by (simp_all add: t)
  then have same: "slots (dev_list t ! k) = slots (devices S ! k)" for k by (simp add: devices_def)
  have "processes_left cf ?S = processes_left cf S" "wait_left cf ?S = wait_left cf S" "work ?S = work S"
    "cpu_steps ?S = cpu_steps S"
    using timer_only(1,2) [OF same, of cf] timer_only(3,4) [OF same] by (simp_all add: main_only)
  then show ?case
    using stop(1) timer_thread_ranks [OF d(1,2)] timer_thread_ranks(3,4) [OF d(1,2,3)] by (simp add: sys_rank_def)
next
  case (main_return S)
  then show ?case by (simp add: sys_rank_def main_only)
qed

lemma step_moves_reach:
  "sys_reach cf fs S \<Longrightarrow> sys_step cf fs S S' \<Longrightarrow> (S', S) \<in> sys_rank cf"
  using step_moves timer_link_reach proc_ok_reach flags_ok_reach pcs_ok_reach early_reach by blast

lemma reach_run:
  assumes "sys_reach cf fs (f 0)" and "\<And>n. sys_step cf fs (f n) (f (Suc n)) \<or> f (Suc n) = f n"
  shows "sys_reach cf fs (f n)"
proof (induction n)
  case (Suc n)
  then show ?case using assms(2) [of n] sys_reach.step by metis
qed (rule assms(1))

section \<open>Properties\<close>

text \<open>C4: The whole program terminates.  For every configuration, every file system and every
  interleaving, fair or not, there is no infinite run of its threads (\<open>main\<close>, CPUs, loader, timer),
  the clock, idle CPUs and waiting for a start time included.\<close>

theorem sys_terminates:
  "\<not> (\<exists>f. sys_reach cf fs (f 0) \<and> (\<forall>n. sys_step cf fs (f n) (f (Suc n))))"
proof
  assume "\<exists>f. sys_reach cf fs (f 0) \<and> (\<forall>n. sys_step cf fs (f n) (f (Suc n)))"
  then obtain f where f: "sys_reach cf fs (f 0)" "\<And>n. sys_step cf fs (f n) (f (Suc n))"
    by blast
  have "sys_reach cf fs (f n)" for n using reach_run [of cf fs f] f by blast
  then have "(f (Suc n), f n) \<in> sys_rank cf" for n using step_moves_reach f(2) by blast
  then show False using wf_sys_rank by (auto simp: wf_iff_no_infinite_down_chain)
qed

end
