(* ===== verification/OS_Complete.thy ===== *)
theory OS_Complete
  imports OS_Terminates
begin

text \<open>
  Total correctness of the whole program: in every run that goes on as long as it can, whatever the
  interleaving, \<open>main\<close> returns after all processes have executed all their instructions, or a
  thread has crashed.  The locale \<open>instructions\<close> is about programs of one class of instructions: when
  these cannot crash, no thread can.  It is interpreted here on the instructions that do not use
  memory (the inputs of the scheduler demos of the repository are of this kind), in \<open>OS_Safe\<close> on
  those that do.
\<close>

section \<open>Runs\<close>

text \<open>A run takes a step whenever one is possible.\<close>

definition sys_run :: "config_t \<Rightarrow> (string \<Rightarrow> string option) \<Rightarrow> (nat \<Rightarrow> sys_t) \<Rightarrow> bool" where
  "sys_run cf fs f \<longleftrightarrow> (\<exists>mp0. f 0 = main_init cf mp0)
     \<and> (\<forall>n. sys_step cf fs (f n) (f (Suc n)) \<or> f (Suc n) = f n \<and> \<not> (\<exists>S'. sys_step cf fs (f n) S'))"

lemma run_reach: "sys_run cf fs f \<Longrightarrow> sys_reach cf fs (f n)"
  by (rule reach_run) (auto simp: sys_run_def intro: sys_reach.main)

lemma run_ends:
  assumes r: "sys_run cf fs f"
  shows "\<exists>n. s_main (f n) = M_return \<or> crashed cf fs (f n)"
proof (rule ccontr)
  assume "\<nexists>n. s_main (f n) = M_return \<or> crashed cf fs (f n)"
  then have n: "s_main (f n) \<noteq> M_return" "\<not> crashed cf fs (f n)" for n by blast+
  note reach = run_reach [OF r]
  have "\<exists>S'. sys_step cf fs (f n) S'" for n using step_or_crash [OF reach n(1)] n(2) by blast
  then have "sys_step cf fs (f n) (f (Suc n))" for n using r unfolding sys_run_def by blast
  then have "(f (Suc n), f n) \<in> sys_rank cf" for n using step_moves_reach [OF reach] by blast
  then show False using wf_sys_rank by (auto simp: wf_iff_no_infinite_down_chain)
qed

text \<open>When \<open>main\<close> has returned, everything is done.\<close>

definition work_done :: "config_t \<Rightarrow> os_t \<Rightarrow> bool" where
  "work_done cf s \<longleftrightarrow> length (pcbs s) = nat (num_processes cf)
     \<and> (\<forall>pr \<in> set (pcbs s). pc pr = code_size (code pr))"

lemma returned_done:
  assumes "sys_reach cf fs S" and "0 < num_cpus cf" and "num_processes cf \<le> int MAX_QUEUE_SIZE"
    and "s_main S = M_return"
  shows "work_done cf (s_os S)" and "all_left S"
proof -
  show left: "all_left S" using main_ok_reach [OF assms(1)] assms(4) by (simp add: main_ok_def)
  then have "\<forall>c \<in> set (s_cpus S). cpu_at c = C_exit" by (simp add: all_left_def)
  from finished_when_left [OF assms(1-3) this] show "work_done cf (s_os S)"
    by (auto simp: work_done_def in_set_conv_nth)
qed

section \<open>Processes of known instructions\<close>

text \<open>All processes have a priority in range and a well-formed description whose instructions have the
  property \<open>P\<close>.\<close>

definition programs :: "(inst_t \<Rightarrow> bool) \<Rightarrow> config_t \<Rightarrow> (string \<Rightarrow> string option) \<Rightarrow> bool" where
  "programs P cf fs \<longleftrightarrow> (\<forall>j < nat (num_processes cf).
     unat (ucast (ld_prio (ld_processes cf ! j)) :: u32) < MAX_PRIO
     \<and> (\<exists>p is. fs (ld_path (ld_processes cf ! j)) = Some (print_proc p is) \<and> length is < 2 ^ 32
          \<and> (\<forall>i \<in> set is. P i)))"

definition pcb_fine :: "(inst_t \<Rightarrow> bool) \<Rightarrow> pcb_t \<Rightarrow> bool" where
  "pcb_fine P pr \<longleftrightarrow> unat (prio pr) < MAX_PRIO \<and> length (code_text (code pr)) = unat (code_size (code pr))
     \<and> (\<forall>i \<in> set (code_text (code pr)). P i)"

definition fine :: "(inst_t \<Rightarrow> bool) \<Rightarrow> sys_t \<Rightarrow> bool" where
  "fine P S \<longleftrightarrow> (\<forall>pr \<in> set (pcbs (s_os S)). pcb_fine P pr)
     \<and> (\<forall>i < length (s_cpus S). cpu_at (s_cpus S ! i) \<in> {C_switch, C_run} \<longrightarrow> cpu_proc (s_cpus S ! i) \<noteq> None)
     \<and> (ld_at (s_ld S) \<in> {L_mm, L_own} \<longrightarrow> k_mm (s_os S) \<noteq> None)"

lemma put_fine: "sched_inv (sched s) \<Longrightarrow> unat (prio (pcbs s ! p)) < MAX_PRIO \<Longrightarrow> \<exists>s'. k_put_proc s p = Inr s' \<and> k_add_proc s p = Inr s'"
  by (simp add: k_put_proc_def k_add_proc_def sched_ops put_mlq_proc_def res_simps sched_inv_def)

lemma pcb_fine_upd [simp]:
  "pcb_fine P (pr\<lparr>pc := x\<rparr>) = pcb_fine P pr" "pcb_fine P (pr\<lparr>pcb_mm := m\<rparr>) = pcb_fine P pr"
  by (simp_all add: pcb_fine_def)

lemma fine_update:
  assumes "\<forall>pr \<in> set ps. pcb_fine P pr" and "pcb_fine P (ps ! p) \<Longrightarrow> pcb_fine P x"
  shows "\<forall>pr \<in> set (ps[p := x]). pcb_fine P pr"
proof (cases "p < length ps")
  case True
  then show ?thesis using assms by (auto dest!: set_update_subset_insert [THEN subsetD])
next
  case False
  then have "ps[p := x] = ps" by (simp add: list_update_beyond)
  then show ?thesis using assms(1) by simp
qed

lemma cpu_routine_pcbs_fine:
  assumes inv: "sched_inv (sched s)" and st: "cpu_routine cf fin data0 s c = Some (Inr (s', c'))"
    and "\<forall>pr \<in> set (pcbs s). pcb_fine P pr"
  shows "\<forall>pr \<in> set (pcbs s'). pcb_fine P pr"
proof (cases "cpu_at c = C_run")
  case True
  then obtain p r s1 where r: "run data0 s1 p = Inr (r, s')" and s1: "pcbs s1 = pcbs s"
    using st by (auto simp: cpu_routine_def cpu_switch_def cpu_run_def bindR_eq_Inr deref_Inr Let_def split: option.splits)
  show ?thesis using run_keeps(2) [OF r] s1 assms(3) 
      fine_update [OF assms(3), of p "(pcbs s ! p)\<lparr>pc := pc (pcbs s ! p) + 1\<rparr>"] by simp
next
  case False
  then show ?thesis using cpu_routine_pcbs [OF inv st] assms(3) by simp
qed

lemma cpu_routine_run_proc:
  "cpu_routine cf fin data0 s c = Some (Inr (s', c')) \<Longrightarrow> cpu_at c' \<in> {C_switch, C_run} \<Longrightarrow> cpu_proc c' \<noteq> None"
  by (cases "cpu_at c") (auto simp: cpu_routine_def cpu_check_def cpu_idle_def cpu_get_def cpu_recheck_def cpu_switch_def cpu_run_def
    bindR_eq_Inr deref_Inr Let_def split: option.splits if_splits prod.splits)

lemma cpu_routine_k_mm:
  assumes "cpu_routine cf fin data0 s c = Some (Inr (s', c'))" and "k_mm s \<noteq> None"
  shows "k_mm s' \<noteq> None"
proof (cases "cpu_at c = C_run")
  case True
  then obtain p r where r: "run data0 s p = Inr (r, s')"
    using assms(1) by (auto simp: cpu_routine_def cpu_run_def bindR_eq_Inr)
  show ?thesis using run_keeps(3) [OF r] assms(2) by simp
next
  case False
  then show ?thesis using assms
    by (cases "cpu_at c") (auto simp: cpu_routine_def cpu_check_def cpu_idle_def cpu_get_def cpu_recheck_def cpu_switch_def
      k_get_proc_def k_put_proc_def k_remove_proc_def bindR_eq_Inr Let_def split: option.splits if_splits prod.splits)
qed

section \<open>Crashes\<close>

text \<open>A class of instructions that the loader reads back as they are.  For programs of such
  instructions only the instructions can crash.\<close>

locale instructions =
  fixes P :: "inst_t \<Rightarrow> bool"
  assumes loaded: "P i \<Longrightarrow> P (loaded m i)"
begin

lemma load_fine:
  assumes "fs path = Some (print_proc p is)" and "length is < 2 ^ 32" and "\<forall>i \<in> set is. P i"
  shows "\<exists>pr. load fs raw mem a path = Inr (pr, a + 1) \<and> length (code_text (code pr)) = unat (code_size (code pr))
    \<and> (\<forall>i \<in> set (code_text (code pr)). P i)"
proof -
  have "\<forall>x \<in> set (map2 loaded ms is). P x" for ms
    using assms(3) loaded by (auto dest: set_zip_rightD)
  moreover have "unat (of_nat (length is) :: u32) = length is" using assms(2) by (rule unat_of_nat_u32)
  moreover note load_describe [of fs path p "length is" "is" raw mem a]
  ultimately show ?thesis using assms(1,2) by (auto simp: print_proc_describe)
qed

lemma fine_step:
  "sys_step cf fs S S' \<Longrightarrow> proc_ok cf S \<Longrightarrow> programs P cf fs \<Longrightarrow> fine P S \<Longrightarrow> fine P S'"
proof (induction rule: sys_step.induct)
  case (cpu i S data0 s c)
  have "sched_inv (sched (s_os S))" using cpu(3) by (simp add: proc_ok_def)
  then show ?case using cpu_routine_pcbs_fine [OF _ cpu(2)] cpu_routine_run_proc [OF cpu(2)] cpu(1,5)
      cpu_routine_k_mm [OF cpu(2)] by (auto simp: fine_def nth_list_update)
next
  case (load S raw mem s avail l)
  let ?ld = "ld_processes cf ! ld_i (s_ld S)"
  have "ld_i (s_ld S) < nat (num_processes cf)" using load(2) by simp
  with load(5) obtain p "is" where c: "unat (ucast (ld_prio ?ld) :: u32) < MAX_PRIO"
    "fs (ld_path ?ld) = Some (print_proc p is)" "length is < 2 ^ 32" "\<forall>i \<in> set is. P i"
    unfolding programs_def by blast
  obtain pr where "load fs raw mem (s_pid S) (ld_path ?ld) = Inr (pr, s_pid S + 1)"
    "length (code_text (code pr)) = unat (code_size (code pr))" "\<forall>i \<in> set (code_text (code pr)). P i"
    using load_fine [of fs "ld_path ?ld" p "is" raw mem "s_pid S"] c(2-4) by blast
  then show ?case using load(3,6) c(1) by (auto simp: ld_load_def Let_def bindR_eq_Inr fine_def pcb_fine_def)
next
  case (init_mm mm0 S s l)
  let ?p = "ld_cur (s_ld S)"
  have "\<forall>pr \<in> set (pcbs (s_os S)). pcb_fine P pr" using init_mm(5) by (simp add: fine_def)
  from this fine_update [OF this, of ?p "(pcbs (s_os S) ! ?p)\<lparr>pcb_mm := k_mm (s_os S)\<rparr>"]
  show ?case using init_mm(5) by (cases rule: ld_setup_cases [OF init_mm(2)]) (simp_all add: fine_def)
next
  case (add S s l)
  have "sched_inv (sched (s_os S))" using add(3) by (simp add: proc_ok_def)
  then show ?case using ld_add_effect(2,3) [OF _ add(2)] add(5) by (simp add: fine_def)
qed (auto simp: fine_def nth_list_update ld_time_def)

lemma fine_reach: "sys_reach cf fs S \<Longrightarrow> programs P cf fs \<Longrightarrow> fine P S"
proof (induction rule: sys_reach.induct)
  case (main mp0)
  show ?case by (simp add: fine_def main_init_def cpu_start_def ld_begin_def)
next
  case (step S S')
  then show ?case using fine_step proc_ok_reach by blast
qed

lemma cpu_never_crashes:
  assumes inv: "sched_inv (sched s)" and pcbs: "\<forall>pr \<in> set (pcbs s). pcb_fine P pr"
    and own: "\<forall>p \<in> set (owns c). p < length (pcbs s)" and run: "cpu_at c \<in> {C_switch, C_run} \<longrightarrow> cpu_proc c \<noteq> None"
    and ok: "\<And>p. cpu_at c = C_run \<Longrightarrow> cpu_proc c = Some p \<Longrightarrow> \<exists>r. run data0 s p = Inr r"
  shows "cpu_routine cf fin data0 s c \<noteq> Some (Inl e)"
proof (cases "cpu_at c")
  case C_check
  show ?thesis
  proof (cases "cpu_proc c")
    case (Some p)
    then have "p < length (pcbs s)" using own C_check by (simp add: owns_def)
    then obtain s' where "k_put_proc s p = Inr s'" using put_fine [OF inv] pcbs by (force simp: pcb_fine_def)
    then show ?thesis using C_check Some by (simp add: cpu_routine_def cpu_check_def)
  qed (simp add: C_check cpu_routine_def cpu_check_def split: prod.splits)
next
  case C_run
  then obtain p where p: "cpu_proc c = Some p" using run by auto
  then obtain r where "run data0 s p = Inr r" using ok C_run by blast
  then show ?thesis using C_run p by (cases r) (simp add: cpu_routine_def cpu_run_def)
next
  case C_switch
  then obtain p where "cpu_proc c = Some p" using run by auto
  then show ?thesis using C_switch by (simp add: cpu_routine_def cpu_switch_def)
qed (simp_all add: cpu_routine_def cpu_get_def split: prod.splits)

lemma safe_run:
  assumes "sys_reach cf fs S" and bound: "programs P cf fs"
    and ok: "\<And>i data0 p. i < length (s_cpus S) \<Longrightarrow> cpu_at (s_cpus S ! i) = C_run \<Longrightarrow> cpu_proc (s_cpus S ! i) = Some p
      \<Longrightarrow> \<exists>r. run data0 (s_os S) p = Inr r"
  shows "\<not> crashed cf fs S"
proof -
  note ok' = proc_ok_reach [OF assms(1)] and fine = fine_reach [OF assms(1,2)]
  have inv: "sched_inv (sched (s_os S))" using ok' by (simp add: proc_ok_def)
  have "cpu_routine cf (s_done S) data0 (s_os S) (s_cpus S ! i) \<noteq> Some (Inl e)" if "i < length (s_cpus S)" for i data0 e
    using cpu_never_crashes [OF inv] owned_valid [OF ok' that] fine that ok [OF that] by (auto simp: fine_def)
  moreover have "ld_load cf fs raw mem (s_pid S) (s_os S) (s_ld S) \<noteq> Inl e"
    if "int (ld_i (s_ld S)) < num_processes cf" for raw mem e
  proof -
    let ?path = "ld_path (ld_processes cf ! ld_i (s_ld S))"
    have "ld_i (s_ld S) < nat (num_processes cf)" using that by simp
    with bound obtain p "is" where "fs ?path = Some (print_proc p is)" "length is < 2 ^ 32" "\<forall>i \<in> set is. P i"
      unfolding programs_def by blast
    then obtain pr where "load fs raw mem (s_pid S) ?path = Inr (pr, s_pid S + 1)"
      using load_fine [of fs ?path p "is" raw mem "s_pid S"] by blast
    then show ?thesis by (simp add: ld_load_def Let_def)
  qed
  moreover have "ld_add (s_os S) (s_ld S) \<noteq> Inl e" if "ld_at (s_ld S) = L_add" for e
  proof -
    have "ld_cur (s_ld S) < length (pcbs (s_os S))" using ok' that by (simp add: proc_ok_def)
    then obtain s where "k_add_proc (s_os S) (ld_cur (s_ld S)) = Inr s"
      using put_fine [OF inv] fine by (force simp: fine_def pcb_fine_def)
    then show ?thesis by (simp add: ld_add_def)
  qed
  moreover have "ld_setup mm0 (s_os S) (s_ld S) \<noteq> Some (Inl e)" for mm0 e
    using fine by (auto simp: ld_setup_def ld_mm_def fine_def split: ld_phase.splits)
  ultimately show ?thesis by (auto simp: crashed_def)
qed

end

section \<open>Instructions that do not touch memory\<close>

definition memory_free :: "inst_t \<Rightarrow> bool" where
  "memory_free i \<longleftrightarrow> opcode i \<notin> {ALLOC, FREE, READ, WRITE, SYSCALL}"

definition cpu_bound :: "config_t \<Rightarrow> (string \<Rightarrow> string option) \<Rightarrow> bool" where
  "cpu_bound cf fs \<longleftrightarrow> programs memory_free cf fs"

interpretation calm: instructions memory_free
  by unfold_locales (simp add: memory_free_def loaded_simps)

lemma exec_memory_free: "memory_free i \<Longrightarrow> \<exists>r. exec_inst data0 s p i = Inr r"
  by (cases "opcode i") (simp_all add: memory_free_def exec_inst_def)

lemma run_fine:
  assumes "p < length (pcbs s)" and "pcb_fine memory_free (pcbs s ! p)"
  shows "\<exists>r. run data0 s p = Inr r"
proof (cases "code_size (code (pcbs s ! p)) \<le> pc (pcbs s ! p)")
  case False
  let ?pr = "pcbs s ! p"
  have k: "unat (pc ?pr) < length (code_text (code ?pr))"
    using False assms(2) by (simp add: pcb_fine_def word_le_nat_alt)
  then have "memory_free (code_text (code ?pr) ! unat (pc ?pr))" using assms(2) by (simp add: pcb_fine_def)
  then show ?thesis using False k exec_memory_free by (simp add: run_def Let_def fetch_def res_simps)
qed (simp add: run_def)

lemma never_crashes:
  assumes "sys_reach cf fs S" and "cpu_bound cf fs"
  shows "\<not> crashed cf fs S"
proof (rule calm.safe_run [OF assms(1)])
  show bound: "programs memory_free cf fs" using assms(2) by (simp add: cpu_bound_def)
  show "\<exists>r. run data0 (s_os S) p = Inr r"
    if "i < length (s_cpus S)" "cpu_at (s_cpus S ! i) = C_run" "cpu_proc (s_cpus S ! i) = Some p" for i data0 p
    using owned_valid [OF proc_ok_reach [OF assms(1)] that(1), of p] calm.fine_reach [OF assms(1) bound] that
    by (intro run_fine) (auto simp: owns_def fine_def)
qed

section \<open>Properties\<close>

text \<open>The simulation of CPU-bound processes always completes.  With at least one CPU and at most 50
  processes whose descriptions are well formed, have priorities below 140 and use no memory
  instruction, in every run of the program, however its threads are scheduled, no thread
  crashes and \<open>main\<close> returns; then all CPUs and the loader have left their loops, every process
  of the configuration was loaded and has executed all its instructions.\<close>

theorem sys_cpu_bound_completes:
  assumes "sys_run cf fs f" and "cpu_bound cf fs" and "0 < num_cpus cf" and "num_processes cf \<le> int MAX_QUEUE_SIZE"
  shows "(\<forall>n. \<not> crashed cf fs (f n))
    \<and> (\<exists>n. s_main (f n) = M_return \<and> all_left (f n) \<and> work_done cf (s_os (f n)))"
proof -
  note reach = run_reach [OF assms(1)]
  have safe: "\<not> crashed cf fs (f n)" for n by (rule never_crashes [OF reach assms(2)])
  then obtain n where n: "s_main (f n) = M_return" using run_ends [OF assms(1)] by blast
  from returned_done [OF reach assms(3,4) n] n safe show ?thesis by blast
qed

text \<open>C5: The same for any processes, where a thread may also crash: a run ends with the return of \<open>main\<close>
  and all work done, or in a fault of an instruction or of a scheduler call, or at a description
  that cannot be read.\<close>

theorem sys_run_ends:
  assumes "sys_run cf fs f" and "0 < num_cpus cf" and "num_processes cf \<le> int MAX_QUEUE_SIZE"
  shows "\<exists>n. crashed cf fs (f n)
    \<or> s_main (f n) = M_return \<and> all_left (f n) \<and> work_done cf (s_os (f n))"
proof -
  obtain n where "s_main (f n) = M_return \<or> crashed cf fs (f n)" using run_ends [OF assms(1)] by blast
  then show ?thesis using returned_done [OF run_reach [OF assms(1)] assms(2,3)] by blast
qed

section \<open>Witnesses\<close>

text \<open>A list of events that ends in the return of \<open>main\<close> gives a run.\<close>

lemma returned_stuck:
  assumes "sys_reach cf fs S" and "s_main S = M_return"
  shows "\<not> sys_step cf fs S S'"
proof
  assume "sys_step cf fs S S'"
  moreover have "\<forall>i < length (s_cpus S). cpu_at (s_cpus S ! i) = C_exit" "ld_at (s_ld S) = L_exit"
    "t_phase (s_timer S) = T_exit"
    using main_ok_reach [OF assms(1)] assms(2) by (simp_all add: main_ok_def all_left_def)
  ultimately show False using assms(2)
    by (cases rule: sys_step.cases) (auto simp: cpu_routine_def ld_setup_def timer_routine_def)
qed

lemma exec_run:
  assumes x: "sys_exec cf fs es (main_init cf mp0) = Some S" and r: "s_main S = M_return"
  shows "sys_run cf fs (states_of cf fs es (main_init cf mp0))"
proof -
  let ?f = "states_of cf fs es (main_init cf mp0)"
  have "sys_step cf fs (?f n) (?f (Suc n)) \<or> ?f (Suc n) = ?f n \<and> \<not> (\<exists>S'. sys_step cf fs (?f n) S')" for n
  proof (cases "n < length es")
    case True
    then show ?thesis using states_of_step [OF x] by blast
  next
    case False
    then show ?thesis using x returned_stuck [OF sys_exec_reach [OF sys_reach.main x] r] by (simp add: states_of_def)
  qed
  then show ?thesis unfolding sys_run_def by (auto simp: states_of_def)
qed

definition demo_events :: "event list" where
  "demo_events = slot_0 @ turn @ slot_1 @ replicate 7 Ev_timer @ [Ev_stop, Ev_return]"

definition demo_run :: "nat \<Rightarrow> sys_t" where
  "demo_run = states_of demo_config demo_fs demo_events demo_start"

lemma demo_run: "sys_run demo_config demo_fs demo_run"
proof -
  have "map_option s_main (sys_exec demo_config demo_fs demo_events demo_start) = Some M_return"
    by code_simp
  then obtain S where x: "sys_exec demo_config demo_fs demo_events demo_start = Some S" and r: "s_main S = M_return"
    by auto
  show ?thesis using exec_run [OF x [unfolded demo_start_def] r]
    by (simp add: demo_run_def demo_start_def)
qed

lemma demo_bound: "cpu_bound demo_config demo_fs"
  by (auto simp: cpu_bound_def programs_def demo_config_def demo_fs_def MAX_PRIO_def memory_free_def nop_def intro!: exI [of _ "[nop]"])

lemma demo_counts:
  "0 < num_cpus demo_config" "num_processes demo_config \<le> int MAX_QUEUE_SIZE" "nat (num_processes demo_config) = 1"
  by (simp_all add: demo_config_def MAX_QUEUE_SIZE_def)

theorem sys_cpu_bound_completes_witness:
  "\<exists>n. s_main (demo_run n) = M_return \<and> length (pcbs (s_os (demo_run n))) = 1
     \<and> (\<forall>pr \<in> set (pcbs (s_os (demo_run n))). pc pr = code_size (code pr))"
proof -
  obtain n where "s_main (demo_run n) = M_return" "work_done demo_config (s_os (demo_run n))"
    using sys_cpu_bound_completes [OF demo_run demo_bound demo_counts(1,2)] by blast
  then show ?thesis unfolding work_done_def demo_counts(3) by blast
qed

theorem sys_run_ends_witness:
  "\<exists>n. all_left (demo_run n) \<and> length (pcbs (s_os (demo_run n))) = 1"
proof -
  obtain n where "all_left (demo_run n)" "work_done demo_config (s_os (demo_run n))"
    using sys_run_ends [OF demo_run demo_counts(1,2)] never_crashes [OF run_reach [OF demo_run] demo_bound] by blast
  then show ?thesis unfolding work_done_def demo_counts(3) by blast
qed

end
