(* ===== verification/OS_Main.thy ===== *)
theory OS_Main
  imports OS_Complete
begin

text \<open>
  The program from its command line on: \<open>main\<close> of \<open>os.c\<close> builds the path of the configuration from its
  argument, reads the configuration and starts the system of \<open>OS_System\<close>.  The files are a function
  from paths to contents.  The theorems follow the text of the files to the end of the simulation; the
  last one is about the file \<open>input/sched\<close> of the repository and the process files it names.
\<close>

section \<open>The command line\<close>

text \<open>\<open>path\<close> is an array of 100 characters; \<open>strcat\<close> does not look at its size.\<close>

definition main_path :: "string \<Rightarrow> load_error + string" where
  "main_path arg =
     (if 100 \<le> length (''input/'' @ arg) then Inl Undefined else Inr (''input/'' @ arg))"

text \<open>What \<open>main\<close> comes to: it returns at once, or the threads of a configuration run.\<close>

datatype os_start = Returns int | Runs config_t sys_t

definition os_main ::
  "(string \<Rightarrow> string option) \<Rightarrow> (nat \<Rightarrow> u64) \<Rightarrow> memphy \<Rightarrow> string list \<Rightarrow> load_error + os_start" where
  "os_main fs prio0 mp0 argv =
     (if length argv \<noteq> 2 then Inr (Returns 1)
      else bindR (main_path (argv ! 1)) (\<lambda>path.
           bindR (read_config (fs path) prio0) (\<lambda>cf.
           Inr (Runs cf (main_init cf mp0)))))"

text \<open>An argument of 94 characters or more overruns \<open>path\<close>, before any file is looked at.\<close>

lemma main_path_overruns: "main_path arg = Inl Undefined \<longleftrightarrow> 94 \<le> length arg"
  by (auto simp: main_path_def)

lemma os_main_overruns: "94 \<le> length arg \<Longrightarrow> os_main fs prio0 mp0 [prog, arg] = Inl Undefined"
  by (simp add: os_main_def main_path_def)

section \<open>The kernel page directories\<close>

text \<open>\<open>ld_routine\<close> starts with five arrays whose entries are the addresses of the variables that point to
  the next array (\<open>p4d\<close>, \<open>pud\<close>, \<open>pmd\<close> and \<open>pt\<close> stand for these addresses).  Nothing reads the
  arrays.\<close>

record krnl_dirs =
  krnl_pgd :: "u64 list"
  krnl_p4d :: "u64 list"
  krnl_pud :: "u64 list"
  krnl_pmd :: "u64 list"
  krnl_pt :: "u64 list"

definition PAGING64_MAX_PGN :: nat where
  "PAGING64_MAX_PGN = (2 ^ 21 + 4096 - 1) div 4096"

fun krnl_dirs_loop :: "u64 \<Rightarrow> u64 \<Rightarrow> u64 \<Rightarrow> u64 \<Rightarrow> nat \<Rightarrow> nat \<Rightarrow> krnl_dirs \<Rightarrow> krnl_dirs" where
  "krnl_dirs_loop p4d pud pmd pt i 0 k = k"
| "krnl_dirs_loop p4d pud pmd pt i (Suc n) k =
     krnl_dirs_loop p4d pud pmd pt (Suc i) n
       \<lparr>krnl_pgd = (krnl_pgd k)[i := p4d], krnl_p4d = (krnl_p4d k)[i := pud],
        krnl_pud = (krnl_pud k)[i := pmd], krnl_pmd = (krnl_pmd k)[i := pt],
        krnl_pt = (krnl_pt k)[i := 0]\<rparr>"

definition init_krnl_dirs :: "u64 \<Rightarrow> u64 \<Rightarrow> u64 \<Rightarrow> u64 \<Rightarrow> krnl_dirs \<Rightarrow> krnl_dirs" where
  "init_krnl_dirs p4d pud pmd pt k = krnl_dirs_loop p4d pud pmd pt 0 PAGING64_MAX_PGN k"

text \<open>The loop fills the arrays of \<open>PAGING64_MAX_PGN\<close> entries completely, and every entry of a level
  is the same address.\<close>

lemma fill_up: "i + Suc n = length xs \<Longrightarrow> take (Suc i) (xs[i := y]) @ zs = take i xs @ y # zs"
  by (simp add: take_Suc_conv_app_nth)

lemma krnl_dirs_loop_fills:
  "i + n = length (krnl_pgd k) \<Longrightarrow> i + n = length (krnl_p4d k) \<Longrightarrow> i + n = length (krnl_pud k)
   \<Longrightarrow> i + n = length (krnl_pmd k) \<Longrightarrow> i + n = length (krnl_pt k) \<Longrightarrow>
   krnl_dirs_loop p4d pud pmd pt i n k =
     \<lparr>krnl_pgd = take i (krnl_pgd k) @ replicate n p4d, krnl_p4d = take i (krnl_p4d k) @ replicate n pud,
      krnl_pud = take i (krnl_pud k) @ replicate n pmd, krnl_pmd = take i (krnl_pmd k) @ replicate n pt,
      krnl_pt = take i (krnl_pt k) @ replicate n 0\<rparr>"
proof (induction n arbitrary: i k)
  case (Suc n)
  then show ?case by (simp add: fill_up)
qed simp

lemma init_krnl_dirs_entries:
  assumes "\<forall>f \<in> {krnl_pgd, krnl_p4d, krnl_pud, krnl_pmd, krnl_pt}. length (f k) = PAGING64_MAX_PGN"
  shows "init_krnl_dirs p4d pud pmd pt k =
    \<lparr>krnl_pgd = replicate 512 p4d, krnl_p4d = replicate 512 pud, krnl_pud = replicate 512 pmd,
     krnl_pmd = replicate 512 pt, krnl_pt = replicate 512 0\<rparr>"
  using assms by (simp add: init_krnl_dirs_def krnl_dirs_loop_fills) (simp add: PAGING64_MAX_PGN_def)

section \<open>Runs of the program\<close>

definition os_run :: "(string \<Rightarrow> string option) \<Rightarrow> string list \<Rightarrow> (nat \<Rightarrow> sys_t) \<Rightarrow> bool" where
  "os_run fs argv f \<longleftrightarrow> (\<exists>prio0 mp0 cf. os_main fs prio0 mp0 argv = Inr (Runs cf (f 0)) \<and> sys_run cf fs f)"

text \<open>Runs exist: from every state, a step is taken when one is possible.\<close>

lemma run_exists: "\<exists>f. sys_run cf fs f \<and> f 0 = main_init cf mp0"
proof -
  have "\<exists>f. \<forall>n. (n = 0 \<longrightarrow> f n = main_init cf mp0)
      \<and> (sys_step cf fs (f n) (f (Suc n)) \<or> f (Suc n) = f n \<and> \<not> (\<exists>S'. sys_step cf fs (f n) S'))"
    using dependent_nat_choice [of "\<lambda>n S. n = 0 \<longrightarrow> S = main_init cf mp0"
        "\<lambda>_ S T. sys_step cf fs S T \<or> T = S \<and> \<not> (\<exists>S'. sys_step cf fs S S')"] by blast
  then show ?thesis unfolding sys_run_def by blast
qed

section \<open>The code of a process is that of its file\<close>

definition from_file :: "(string \<Rightarrow> string option) \<Rightarrow> ld_proc \<Rightarrow> pcb_t \<Rightarrow> bool" where
  "from_file fs ld pr \<longleftrightarrow> prio pr = ucast (ld_prio ld)
     \<and> (\<exists>raw mem a pr0. load fs raw mem a (ld_path ld) = Inr (pr0, a + 1) \<and> code pr = code pr0)"

definition files_ok :: "config_t \<Rightarrow> (string \<Rightarrow> string option) \<Rightarrow> sys_t \<Rightarrow> bool" where
  "files_ok cf fs S \<longleftrightarrow> (\<forall>j < length (pcbs (s_os S)). from_file fs (ld_processes cf ! j) (pcbs (s_os S) ! j))"

lemma from_file_upd [simp]:
  "from_file fs ld (pr\<lparr>pc := x\<rparr>) = from_file fs ld pr" "from_file fs ld (pr\<lparr>pcb_mm := m\<rparr>) = from_file fs ld pr"
  by (simp_all add: from_file_def)

lemma from_file_update:
  "\<forall>j < length ps. from_file fs (g j) (ps ! j) \<Longrightarrow> from_file fs (g p) x = from_file fs (g p) (ps ! p)
   \<Longrightarrow> j < length ps \<Longrightarrow> from_file fs (g j) (ps[p := x] ! j)"
  by (cases "j = p") simp_all

lemma files_ok_step: "sys_step cf fs S S' \<Longrightarrow> proc_ok cf S \<Longrightarrow> files_ok cf fs S \<Longrightarrow> files_ok cf fs S'"
proof (induction rule: sys_step.induct)
  case (cpu i S data0 s c)
  have inv: "sched_inv (sched (s_os S))" using cpu(3) by (simp add: proc_ok_def)
  show ?case
  proof (cases "cpu_at (s_cpus S ! i) = C_run")
    case True
    then obtain p r where "run data0 (s_os S) p = Inr (r, s)"
      using cpu(2) by (auto simp: cpu_routine_def cpu_run_def bindR_eq_Inr)
    from run_keeps(2) [OF this] cpu(4) show ?thesis
      by (simp add: files_ok_def from_file_update split: if_split)
  next
    case False
    then show ?thesis using cpu_routine_pcbs [OF inv cpu(2)] cpu(4) by (simp add: files_ok_def)
  qed
next
  case (load S raw mem s avail l)
  let ?ld = "ld_processes cf ! ld_i (s_ld S)"
  obtain pr where "load fs raw mem (s_pid S) (ld_path ?ld) = Inr (pr, avail)"
    and s: "pcbs s = pcbs (s_os S) @ [pr\<lparr>prio := ucast (ld_prio ?ld)\<rparr>]"
    using load(3) by (auto simp: ld_load_def Let_def bindR_eq_Inr)
  moreover from this(1) have "avail = s_pid S + 1" by (auto elim!: load_Inr)
  ultimately have "from_file fs ?ld (pr\<lparr>prio := ucast (ld_prio ?ld)\<rparr>)" by (auto simp: from_file_def)
  moreover have "length (pcbs (s_os S)) = ld_i (s_ld S)" using load(1,4) by (simp add: proc_ok_def)
  ultimately show ?case using load(5) s by (auto simp: files_ok_def nth_append less_Suc_eq)
next
  case (init_mm mm0 S s l)
  then show ?case by (cases rule: ld_setup_cases [OF init_mm(2)]) (simp_all add: files_ok_def from_file_update)
next
  case (add S s l)
  have "sched_inv (sched (s_os S))" using add(3) by (simp add: proc_ok_def)
  then have "pcbs s = pcbs (s_os S)" using ld_add_effect(2) add(2) by blast
  then show ?case using add by (simp add: files_ok_def)
qed (simp_all add: files_ok_def)

lemma files_ok_reach: "sys_reach cf fs S \<Longrightarrow> files_ok cf fs S"
proof (induction rule: sys_reach.induct)
  case (main mp0)
  show ?case by (simp add: files_ok_def main_init_def)
next
  case (step S S')
  then show ?case using files_ok_step proc_ok_reach by blast
qed

text \<open>What a process has run, read off its description.\<close>

definition same_code :: "inst_t list \<Rightarrow> code_seg_t \<Rightarrow> bool" where
  "same_code is cd \<longleftrightarrow> unat (code_size cd) = length is
     \<and> map (\<lambda>i. (opcode i, inst_args i)) (code_text cd) = map (\<lambda>i. (opcode i, inst_args i)) is"

lemma from_file_code:
  assumes "from_file fs ld pr" and "fs (ld_path ld) = Some (print_proc p is)" and "length is < 2 ^ 32"
  shows "same_code is (code pr)"
proof -
  obtain raw mem a pr0 where l: "load fs raw mem a (ld_path ld) = Inr (pr0, a + 1)" "code pr = code pr0"
    using assms(1) unfolding from_file_def by blast
  let ?cd = "\<lparr>code_text = map2 loaded (map mem [0..<length is]) is, code_size = of_nat (length is)\<rparr>"
  have "fs (ld_path ld) = Some (describe p (length is) is)"
    using assms(2) by (simp only: print_proc_describe)
  then have "\<exists>st. load fs raw mem a (ld_path ld) = Inr (raw\<lparr>pid := a, pc := 0, priority := p, code := ?cd\<rparr>, a + 1)"
    using load_describe [of fs "ld_path ld" p "length is" "is" raw mem a] assms(3) by simp
  with l have c: "code pr = ?cd" by force
  have "unat (code_size ?cd) = length is" unfolding code_seg_t.simps by (rule unat_of_nat_u32 [OF assms(3)])
  moreover have "map (\<lambda>i. (opcode i, inst_args i)) (code_text ?cd) = map (\<lambda>i. (opcode i, inst_args i)) is"
    by (rule nth_equalityI) (simp_all add: loaded_simps)
  ultimately show ?thesis unfolding c same_code_def ..
qed

section \<open>From the text of the input files\<close>

text \<open>The input of a simulation of CPU-bound processes: a configuration below \<open>input/\<close> as
  \<open>print_config\<close> writes it, at most 50 processes with priorities below 140, and for each of them a
  description \<open>progs w\<close> (default priority and instructions) below \<open>input/proc/\<close>.\<close>

definition config_of :: "nat \<Rightarrow> nat \<Rightarrow> u64 list option \<Rightarrow> (u64 \<times> string \<times> u64) list \<Rightarrow> config_t" where
  "config_of ts cpus mem prs =
     \<lparr>time_slot = int ts, num_cpus = int cpus, num_processes = int (length prs),
      memramsz = (case mem of Some ms \<Rightarrow> hd ms | None \<Rightarrow> 16777216),
      memswpsz = (case mem of Some ms \<Rightarrow> tl ms | None \<Rightarrow> [16777216, 0, 0, 0]),
      ld_processes = map ld_of prs\<rparr>"

definition config_file ::
  "(string \<Rightarrow> string option) \<Rightarrow> string \<Rightarrow> nat \<Rightarrow> nat \<Rightarrow> u64 list option \<Rightarrow> (u64 \<times> string \<times> u64) list \<Rightarrow> bool" where
  "config_file fs arg ts cpus mem prs \<longleftrightarrow>
     length arg < 94 \<and> fs (''input/'' @ arg) = Some (print_config ts cpus mem prs)
     \<and> ts < 2 ^ 31 \<and> 0 < cpus \<and> cpus < 2 ^ 31 \<and> length prs \<le> MAX_QUEUE_SIZE
     \<and> list_all (\<lambda>(t, w, p). file_name w) prs
     \<and> (case mem of Some ms \<Rightarrow> length ms = 5 | None \<Rightarrow> prs \<noteq> [] \<and> plain_name (fst (snd (hd prs))))"

definition program_files ::
  "(inst_t \<Rightarrow> bool) \<Rightarrow> (string \<Rightarrow> string option) \<Rightarrow> (string \<Rightarrow> u32 \<times> inst_t list) \<Rightarrow> (u64 \<times> string \<times> u64) list \<Rightarrow> bool" where
  "program_files P fs progs prs \<longleftrightarrow>
     list_all (\<lambda>(t, w, p). fs (''input/proc/'' @ w) = Some (print_proc (fst (progs w)) (snd (progs w)))
       \<and> length (snd (progs w)) < 2 ^ 32 \<and> list_all P (snd (progs w))
       \<and> unat (ucast p :: u32) < MAX_PRIO) prs"

lemma os_main_config:
  assumes "config_file fs arg ts cpus mem prs"
  shows "os_main fs prio0 mp0 [prog, arg] = Inr (Runs (config_of ts cpus mem prs) (main_init (config_of ts cpus mem prs) mp0))"
proof -
  note c = assms [unfolded config_file_def]
  have "\<forall>x \<in> set prs. file_name (fst (snd x))" using c by (auto simp: list_all_iff)
  moreover have "length prs < 2 ^ 31" using c by (simp add: MAX_QUEUE_SIZE_def)
  ultimately have "read_config (fs (''input/'' @ arg)) prio0 = Inr (config_of ts cpus mem prs)"
    using c read_config_print [of ts cpus prs mem prio0] by (simp add: config_of_def)
  moreover have "main_path arg = Inr (''input/'' @ arg)" using c by (simp add: main_path_def)
  ultimately show ?thesis by (simp add: os_main_def)
qed

lemma os_run_config:
  assumes "config_file fs arg ts cpus mem prs" and "os_run fs [prog, arg] f"
  shows "sys_run (config_of ts cpus mem prs) fs f"
  using assms(2) os_main_config [OF assms(1)] by (auto simp: os_run_def)

lemma config_of_processes:
  assumes "j < length prs" and "prs ! j = (t, w, p)"
  shows "ld_processes (config_of ts cpus mem prs) ! j = \<lparr>ld_path = ''input/proc/'' @ w, ld_start = t, ld_prio = p\<rparr>"
  using assms by (simp add: config_of_def ld_of_def)

lemma config_of_programs:
  assumes "program_files P fs progs prs"
  shows "programs P (config_of ts cpus mem prs) fs"
proof -
  have "unat (ucast (ld_prio (ld_processes (config_of ts cpus mem prs) ! j)) :: u32) < MAX_PRIO
     \<and> (\<exists>q is. fs (ld_path (ld_processes (config_of ts cpus mem prs) ! j)) = Some (print_proc q is) \<and> length is < 2 ^ 32
          \<and> (\<forall>i \<in> set is. P i))" if "j < length prs" for j
  proof -
    obtain t w p where x: "prs ! j = (t, w, p)" by (cases "prs ! j")
    note bspec [OF assms [unfolded program_files_def list_all_iff] nth_mem [OF that], unfolded x prod.case]
    then show ?thesis unfolding config_of_processes [OF that x] by auto
  qed
  moreover have "nat (num_processes (config_of ts cpus mem prs)) = length prs" by (simp add: config_of_def)
  ultimately show ?thesis unfolding programs_def by simp
qed

text \<open>What has happened when such a program has returned.\<close>

definition programs_done :: "(string \<Rightarrow> u32 \<times> inst_t list) \<Rightarrow> (u64 \<times> string \<times> u64) list \<Rightarrow> sys_t \<Rightarrow> bool" where
  "programs_done progs prs S \<longleftrightarrow> s_main S = M_return \<and> all_left S \<and> length (pcbs (s_os S)) = length prs
     \<and> (\<forall>j < length prs. case prs ! j of (t, w, p) \<Rightarrow> let pr = pcbs (s_os S) ! j in
          same_code (snd (progs w)) (code pr) \<and> prio pr = ucast p \<and> unat (pc pr) = length (snd (progs w)))"

lemma programs_complete:
  assumes "0 < cpus" and "length prs \<le> MAX_QUEUE_SIZE" and files: "program_files P fs progs prs"
    and run: "sys_run (config_of ts cpus mem prs) fs f" and safe: "\<And>n. \<not> crashed (config_of ts cpus mem prs) fs (f n)"
  shows "\<exists>n. programs_done progs prs (f n)"
proof -
  let ?cf = "config_of ts cpus mem prs"
  note reach = run_reach [OF run]
  obtain n where n: "s_main (f n) = M_return" using run_ends [OF run] safe by blast
  have "0 < num_cpus ?cf" "num_processes ?cf \<le> int MAX_QUEUE_SIZE" using assms(1,2) by (simp_all add: config_of_def)
  note returned_done [OF reach this n]
  then have left: "all_left (f n)" and len: "length (pcbs (s_os (f n))) = length prs"
    and pcs: "\<forall>pr \<in> set (pcbs (s_os (f n))). pc pr = code_size (code pr)"
    by (simp_all add: work_done_def config_of_def)
  have "same_code (snd (progs w)) (code (pcbs (s_os (f n)) ! j)) \<and> prio (pcbs (s_os (f n)) ! j) = ucast p"
    if "j < length prs" "prs ! j = (t, w, p)" for j t w p
  proof -
    note b = bspec [OF files [unfolded program_files_def list_all_iff] nth_mem [OF that(1)], unfolded that(2) prod.case]
    have "from_file fs (ld_processes ?cf ! j) (pcbs (s_os (f n)) ! j)"
      using files_ok_reach [OF reach, of n] len that(1) by (simp add: files_ok_def)
    then have ff: "from_file fs \<lparr>ld_path = ''input/proc/'' @ w, ld_start = t, ld_prio = p\<rparr> (pcbs (s_os (f n)) ! j)"
      unfolding config_of_processes [OF that] .
    moreover from ff have "same_code (snd (progs w)) (code (pcbs (s_os (f n)) ! j))"
      by (rule from_file_code) (use b in simp_all)
    ultimately show ?thesis by (simp add: from_file_def)
  qed
  then show ?thesis using n left len pcs by (auto simp: programs_done_def Let_def same_code_def)
qed

section \<open>The demo of the repository\<close>

text \<open>The text of \<open>input/sched\<close> and of the files it names.\<close>

definition text_lines :: "string list \<Rightarrow> string" where
  "text_lines ls = concat (map (\<lambda>l. l @ [newline]) ls)"

definition repository :: "string \<Rightarrow> string option" where
  "repository = map_of
     [(''input/sched'', text_lines [''4 2 4'', ''0 p2s 0'', ''1 p1s 1'', ''3 p2s 1'', ''4 p3s 0'']),
      (''input/proc/p1s'', text_lines (''1 10'' # replicate 10 ''calc'')),
      (''input/proc/p2s'', text_lines (''20 12'' # replicate 12 ''calc'')),
      (''input/proc/p3s'', text_lines (''7 11'' # replicate 11 ''calc''))]"

definition sched_procs :: "(u64 \<times> string \<times> u64) list" where
  "sched_procs = [(0, ''p2s'', 0), (1, ''p1s'', 1), (3, ''p2s'', 1), (4, ''p3s'', 0)]"

definition sched_progs :: "string \<Rightarrow> u32 \<times> inst_t list" where
  "sched_progs w = (if w = ''p1s'' then (1, replicate 10 nop) else if w = ''p2s'' then (20, replicate 12 nop)
     else (7, replicate 11 nop))"

lemma sched_text: "repository ''input/sched'' = Some (print_config 4 2 None sched_procs)"
  by code_simp

lemma sched_config: "config_file repository ''sched'' 4 2 None sched_procs"
proof -
  have "plain_name ''p2s''" "list_all (\<lambda>(t, w, p). file_name w) sched_procs"
    by (simp_all add: plain_name_def file_name_def is_space_def is_digit_def sched_procs_def)
  then show ?thesis using sched_text by (simp add: config_file_def sched_procs_def MAX_QUEUE_SIZE_def)
qed

lemma sched_texts:
  "repository ''input/proc/p1s'' = Some (print_proc (fst (sched_progs ''p1s'')) (snd (sched_progs ''p1s'')))"
  "repository ''input/proc/p2s'' = Some (print_proc (fst (sched_progs ''p2s'')) (snd (sched_progs ''p2s'')))"
  "repository ''input/proc/p3s'' = Some (print_proc (fst (sched_progs ''p3s'')) (snd (sched_progs ''p3s'')))"
  by code_simp+

lemma sched_bound: "program_files memory_free repository sched_progs sched_procs"
  using sched_texts
  by (simp add: program_files_def sched_procs_def MAX_PRIO_def)
    (simp add: sched_progs_def list_all_iff memory_free_def nop_def)

section \<open>Properties\<close>

text \<open>C1: The whole program, from the text of its input files to its return.  Started on a configuration file
  of at most 50 processes whose description files contain no memory instruction, the simulator reads
  all files back exactly, and in every run, however its threads are scheduled, no thread
  crashes, \<open>main\<close> returns, and by then every process of the configuration has been created with the
  priority of the configuration and with the code of its file, and its program counter stands behind
  the last instruction.\<close>

theorem os_completes:
  assumes "config_file fs arg ts cpus mem prs" and "program_files memory_free fs progs prs" and "os_run fs [prog, arg] f"
  shows "(\<forall>n. \<not> crashed (config_of ts cpus mem prs) fs (f n)) \<and> (\<exists>n. programs_done progs prs (f n))"
proof -
  have run: "sys_run (config_of ts cpus mem prs) fs f" by (rule os_run_config [OF assms(1,3)])
  have "cpu_bound (config_of ts cpus mem prs) fs" using config_of_programs [OF assms(2)] by (simp add: cpu_bound_def)
  then have safe: "\<not> crashed (config_of ts cpus mem prs) fs (f n)" for n by (rule never_crashes [OF run_reach [OF run]])
  have "0 < cpus" "length prs \<le> MAX_QUEUE_SIZE" using assms(1) by (simp_all add: config_file_def)
  from programs_complete [OF this assms(2) run safe] safe show ?thesis by blast
qed

text \<open>The demo \<open>os sched\<close> of the repository ends in every run with its four processes having executed their 12, 10,
  12 and 11 instructions.\<close>

theorem os_completes_witness:
  "\<exists>f. os_run repository [''os'', ''sched''] f \<and> (\<exists>n. s_main (f n) = M_return
     \<and> map (\<lambda>pr. unat (pc pr)) (pcbs (s_os (f n))) = [12, 10, 12, 11])"
proof -
  let ?cf = "config_of 4 2 None sched_procs"
  obtain f where f: "sys_run ?cf repository f" "f 0 = main_init ?cf blank_device" using run_exists by blast
  then have r: "os_run repository [''os'', ''sched''] f"
    using os_main_config [OF sched_config] unfolding os_run_def by metis
  from os_completes [OF sched_config sched_bound r] obtain n where n: "programs_done sched_progs sched_procs (f n)" by blast
  have "map (\<lambda>pr. unat (pc pr)) (pcbs (s_os (f n))) = map (\<lambda>(t, w, p). length (snd (sched_progs w))) sched_procs"
    by (rule nth_equalityI) (use n in \<open>auto simp: programs_done_def Let_def split: prod.splits\<close>)
  also have "\<dots> = [12, 10, 12, 11]" by (simp add: sched_procs_def sched_progs_def)
  finally have pcs: "map (\<lambda>pr. unat (pc pr)) (pcbs (s_os (f n))) = [12, 10, 12, 11]" .
  have "s_main (f n) = M_return" using n by (simp add: programs_done_def)
  then show ?thesis using r pcs by (intro exI conjI)
qed

end
