(* ===== verification/OS_Safe.thy ===== *)
theory OS_Safe
  imports OS_Robust OS_Isolation OS_Main
begin

text \<open>
  Programs that use memory complete as well, on one CPU.  The invariant of \<open>OS_Robust\<close> holds in every
  state of the whole program, with instructions as single steps.  The actual threads give up
  that granularity in two places: on several CPUs reads take no lock, and after the race on
  \<open>krnl->mm\<close> the loader initialises memory that is in use.  The theorem on complete runs
  excludes both: one CPU, and a loader that is left alone while it sets up a process.
\<close>

section \<open>Instructions\<close>

interpretation memory: instructions "safe_inst R W" for R W
proof
  show "safe_inst R W i \<Longrightarrow> safe_inst R W (loaded m i)" for i m
    by (cases "opcode i") (simp_all add: safe_inst_def loaded_def inst_args_def numeral_eq_Suc)
qed

section \<open>The invariant\<close>

text \<open>The devices of the configuration: RAM has the 2 MB that a frame number can address, the
  first swap device at least two frames.\<close>

definition devices_fit :: "config_t \<Rightarrow> bool" where
  "devices_fit cf \<longleftrightarrow> 2 ^ 21 \<le> unat (memramsz cf) \<and> unat (memramsz cf) < 2 ^ 31
     \<and> memswpsz cf \<noteq> [] \<and> 512 \<le> unat (hd (memswpsz cf)) \<and> unat (hd (memswpsz cf)) < 2 ^ 31"

abbreviation safe_for :: "config_t \<Rightarrow> inst_t \<Rightarrow> bool" where
  "safe_for cf \<equiv> safe_inst (unat (memramsz cf)) (unat (hd (memswpsz cf)))"

definition safe :: "nat \<Rightarrow> nat \<Rightarrow> sys_t \<Rightarrow> bool" where
  "safe R W S \<longleftrightarrow> (\<exists>M. robust R W (initialised S) M (s_os S)
     \<and> (ld_at (s_ld S) = L_own \<longrightarrow> (\<exists>m \<in> M. k_mm (s_os S) = Some m)))"

lemma safe_simps [simp]:
  "safe R W (S\<lparr>s_timer := t\<rparr>) = safe R W S" "safe R W (S\<lparr>s_done := b\<rparr>) = safe R W S"
  "safe R W (S\<lparr>s_main := m\<rparr>) = safe R W S"
  by (simp_all add: safe_def initialised_def)

lemma safe_set_cpu [simp]: "safe R W (set_cpu S i c) = safe R W S"
  by (simp add: safe_def initialised_def)

lemma running_items: "sched_inv s \<Longrightarrow> Some q \<in> set (queue_items (running_list s)) \<longleftrightarrow> q \<in> set (running s)"
  by (auto simp: sched_inv_def running_def queue_items_list)

lemma safe_init:
  assumes "devices_fit cf"
  shows "safe (unat (memramsz cf)) (unat (hd (memswpsz cf))) (main_init cf mp0)"
proof -
  obtain w ws where "memswpsz cf = w # ws" using assms by (cases "memswpsz cf") (simp_all add: devices_fit_def)
  then have "robust (unat (memramsz cf)) (unat (hd (memswpsz cf))) 0 {} (s_os (main_init cf mp0))"
    using assms by (simp add: robust_def main_init_def devices_fit_def init_fits running_items sched_inv_init init_scheduler_facts)
  then show ?thesis by (auto simp: safe_def initialised_def main_init_def ld_begin_def)
qed

text \<open>Steps that are not instructions.\<close>

lemma robust_cong:
  assumes "robust R W n M s" and "sched_inv (sched s')" and "set (running (sched s')) \<subseteq> {..<n}"
    and "devs s' = devs s" and "mms s' = mms s" and "pcbs s' = pcbs s" and "k_mram s' = k_mram s"
    and "k_active_mswp s' = k_active_mswp s" and "k_mm s' = k_mm s \<or> (\<exists>m \<in> M. k_mm s' = Some m)"
  shows "robust R W n M s'"
  using assms by (auto simp: robust_def running_items)

text \<open>Scheduler calls and the bookkeeping of a CPU leave the devices alone; \<open>krnl->mm\<close> only moves to the
  memory of the process of the CPU.\<close>

definition kernel_kept :: "os_t \<Rightarrow> os_t \<Rightarrow> bool" where
  "kernel_kept s s' \<longleftrightarrow> devs s' = devs s \<and> k_mram s' = k_mram s \<and> k_active_mswp s' = k_active_mswp s"

lemma kernel_kept_sched:
  "k_get_proc s = (q, s') \<Longrightarrow> kernel_kept s s' \<and> k_mm s' = k_mm s"
  "k_put_proc s p = Inr s' \<Longrightarrow> kernel_kept s s' \<and> k_mm s' = k_mm s"
  "k_add_proc s p = Inr s' \<Longrightarrow> kernel_kept s s' \<and> k_mm s' = k_mm s"
  "kernel_kept s (k_remove_proc s p) \<and> k_mm (k_remove_proc s p) = k_mm s"
  by (auto simp: kernel_kept_def k_get_proc_def k_put_proc_def k_add_proc_def k_remove_proc_def bindR_eq_Inr Let_def split: prod.splits)

lemma cpu_routine_kernel:
  assumes st: "cpu_routine cf fin data0 s c = Some (Inr (s', c'))" and "cpu_at c \<noteq> C_run"
  shows "kernel_kept s s' \<and> (k_mm s' = k_mm s \<or> (\<exists>p m. p \<in> set (owns c) \<and> pcb_mm (pcbs s ! p) = Some m \<and> k_mm s' = Some m))"
proof -
  have refl: "kernel_kept s s" by (simp add: kernel_kept_def)
  show ?thesis
  proof (cases "cpu_at c")
    case C_check
    then show ?thesis using st refl kernel_kept_sched
      by (auto simp: cpu_routine_def cpu_check_def bindR_eq_Inr Let_def split: option.splits prod.splits if_splits)
  next
    case C_get
    then show ?thesis using st kernel_kept_sched(1) by (auto simp: cpu_routine_def cpu_get_def split: prod.splits)
  next
    case C_switch
    then show ?thesis using st refl
      by (auto simp: cpu_routine_def cpu_switch_def owns_def bindR_eq_Inr deref_Inr kernel_kept_def split: option.splits)
  qed (use st refl assms(2) in \<open>simp_all add: cpu_routine_def\<close>)
qed

lemma safe_run_returns:
  assumes ok: "proc_ok cf S" and fine: "fine (safe_inst R W) S" and rb: "robust R W (initialised S) M (s_os S)"
    and i: "i < length (s_cpus S)" "cpu_at (s_cpus S ! i) = C_run" "cpu_proc (s_cpus S ! i) = Some p"
  shows "returns (\<lambda>(r, s). robust R W (initialised S) M s) (run data0 (s_os S) p)"
proof (rule robust_run [OF rb])
  have p: "p \<in> set (owns (s_cpus S ! i))" using i(2,3) by (simp add: owns_def)
  then show "p < initialised S" using ready_loaded [OF ok, of p i] i(1) by (simp add: initialised_def)
  have "pcb_fine (safe_inst R W) (pcbs (s_os S) ! p)"
    using fine owned_valid [OF ok i(1) p] by (simp add: fine_def)
  then show "length (code_text (code (pcbs (s_os S) ! p))) = unat (code_size (code (pcbs (s_os S) ! p)))"
    "\<forall>i \<in> set (code_text (code (pcbs (s_os S) ! p))). safe_inst R W i"
    by (simp_all add: pcb_fine_def)
qed

lemma running_initialised:
  assumes ok: "proc_ok cf S" and M: "robust R W (initialised S) M (s_os S)" and so: "sched_only (s_os S) s"
  shows "set (running (sched s)) \<subseteq> {..<initialised S}"
proof
  fix q assume "q \<in> set (running (sched s))"
  then consider "q \<in> set (running (sched (s_os S)))" | "q \<in># ready_mset (sched (s_os S))"
    using so by (auto simp: sched_only_def)
  then show "q \<in> {..<initialised S}"
  proof cases
    case 1
    then show ?thesis using M running_items [of "sched (s_os S)" q] ok by (simp add: robust_def proc_ok_def)
  next
    case 2
    then show ?thesis using ready_loaded [OF ok, of q] by (simp add: initialised_def)
  qed
qed

lemma safe_cpu:
  assumes ok: "proc_ok cf S" and fine: "fine (safe_inst R W) S" and safe: "safe R W S"
    and i: "i < length (s_cpus S)"
    and st: "cpu_routine cf fin data0 (s_os S) (s_cpus S ! i) = Some (Inr (s, c))"
  shows "safe R W (S\<lparr>s_os := s\<rparr>)"
proof -
  obtain M where M: "robust R W (initialised S) M (s_os S)"
    and own: "ld_at (s_ld S) = L_own \<longrightarrow> (\<exists>m \<in> M. k_mm (s_os S) = Some m)" using safe by (auto simp: safe_def)
  have "robust R W (initialised S) M s \<and> (k_mm s = k_mm (s_os S) \<or> (\<exists>m \<in> M. k_mm s = Some m))"
  proof (cases "cpu_at (s_cpus S ! i) = C_run")
    case True
    then obtain p r where p: "cpu_proc (s_cpus S ! i) = Some p" and r: "run data0 (s_os S) p = Inr (r, s)"
      using st by (auto simp: cpu_routine_def cpu_run_def bindR_eq_Inr deref_Inr)
    from safe_run_returns [OF ok fine M i True p, of data0] run_keeps(3) [OF r] r show ?thesis by simp
  next
    case False
    have inv: "sched_inv (sched (s_os S))" using ok by (simp add: proc_ok_def)
    note so = cpu_routine_sched_only [OF inv st False] and k = cpu_routine_kernel [OF st False]
    have n: "ld_i (s_ld S) \<le> initialised S" by (simp add: initialised_def)
    have run: "set (running (sched s)) \<subseteq> {..<initialised S}" by (rule running_initialised [OF ok M so])
    have k_mm: "k_mm s = k_mm (s_os S) \<or> (\<exists>m \<in> M. k_mm s = Some m)"
    proof -
      have "m \<in> M" if p: "p \<in> set (owns (s_cpus S ! i))" "pcb_mm (pcbs (s_os S) ! p) = Some m" for p m
      proof -
        have "p < initialised S" using ready_loaded [OF ok, of p i] i p(1) n by linarith
        then show ?thesis using M p(2) by (auto simp: robust_def)
      qed
      then show ?thesis using k by blast
    qed
    have "sched_inv (sched s)" using cpu_routine_effect(1) [OF inv st] by simp
    from robust_cong [OF M this run _ _ _ _ _ k_mm] so k k_mm show ?thesis by (simp add: sched_only_def kernel_kept_def)
  qed
  then show ?thesis using own by (auto simp: safe_def initialised_def)
qed

text \<open>Steps of the loader.\<close>

lemma safe_load:
  assumes ok: "proc_ok cf S" and safe: "safe R W S" and l: "ld_at (s_ld S) = L_load"
    and st: "ld_load cf fs raw mem a (s_os S) (s_ld S) = Inr (s, avail, l)"
  shows "safe R W (S\<lparr>s_os := s, s_pid := avail, s_ld := l\<rparr>)"
proof -
  obtain pr where s: "s = (s_os S)\<lparr>pcbs := pcbs (s_os S) @ [pr]\<rparr>" and l': "l = (s_ld S)\<lparr>ld_cur := length (pcbs (s_os S)), ld_at := L_time\<rparr>"
    using st by (auto simp: ld_load_def Let_def bindR_eq_Inr)
  have "initialised S = length (pcbs (s_os S))" using ok l by (simp add: proc_ok_def initialised_def)
  then have "robust R W (initialised S) M (s_os S) \<Longrightarrow> robust R W (initialised S) M s" for M
    by (simp add: robust_def s nth_append)
  then show ?thesis using safe l l' by (auto simp: safe_def initialised_def)
qed

lemma safe_setup:
  assumes ok: "proc_ok cf S" and safe: "safe R W S" and mm0: "length (symrgtbl mm0) = PAGING_MAX_SYMTBL_SZ"
    and st: "ld_setup mm0 (s_os S) (s_ld S) = Some (Inr (s, l))"
  shows "safe R W (S\<lparr>s_os := s, s_ld := l\<rparr>)"
proof -
  obtain M where M: "robust R W (initialised S) M (s_os S)"
    and own: "ld_at (s_ld S) = L_own \<longrightarrow> (\<exists>m \<in> M. k_mm (s_os S) = Some m)" using safe by (auto simp: safe_def)
  from st show ?thesis
  proof (cases rule: ld_setup_cases)
    case 1
    have "robust R W (initialised S) M s"
      using M mm0 by (auto simp: robust_def 1(2) nth_append PAGING_MAX_SYMTBL_SZ_def)
    then show ?thesis using 1 by (auto simp: safe_def initialised_def)
  next
    case (2 m)
    have len: "m < length (mms (s_os S))" "length (symrgtbl (mms (s_os S) ! m)) = 30" using M 2(2) by (auto simp: robust_def)
    then have "robust_mm (init_mm (mms (s_os S) ! m))" by (intro robust_init) (simp add: PAGING_MAX_SYMTBL_SZ_def)
    then have "robust R W (initialised S) (insert m M) s"
      using M len symrgtbl_robust by (auto simp: robust_def 2(3) nth_list_update)
    then show ?thesis using 2 by (auto simp: safe_def initialised_def)
  next
    case 3
    obtain m where m: "m \<in> M" "k_mm (s_os S) = Some m" using own 3(1) by blast
    have len: "ld_cur (s_ld S) = initialised S" "initialised S < length (pcbs (s_os S))"
      using ok 3(1) by (simp_all add: proc_ok_def initialised_def)
    have "robust R W (Suc (initialised S)) M s"
      using M m len by (auto simp: robust_def 3(2) nth_list_update less_Suc_eq)
    then show ?thesis using 3 by (auto simp: safe_def initialised_def)
  qed
qed

lemma safe_add:
  assumes ok: "proc_ok cf S" and safe: "safe R W S" and l: "ld_at (s_ld S) = L_add"
    and st: "ld_add (s_os S) (s_ld S) = Inr (s, l)"
  shows "safe R W (S\<lparr>s_os := s, s_ld := l\<rparr>)"
proof -
  obtain M where M: "robust R W (initialised S) M (s_os S)" using safe by (auto simp: safe_def)
  have inv: "sched_inv (sched (s_os S))" using ok by (simp add: proc_ok_def)
  note e = ld_add_effect [OF inv st]
  have k: "k_add_proc (s_os S) (ld_cur (s_ld S)) = Inr s" using st by (auto simp: ld_add_def bindR_eq_Inr)
  then have so: "sched_only (s_os S) s" and same: "devs s = devs (s_os S)" "k_mram s = k_mram (s_os S)"
    "k_active_mswp s = k_active_mswp (s_os S)" "k_mm s = k_mm (s_os S)"
    using sched_only_put [OF inv] kernel_kept_sched(3) [OF k] by (auto simp: kernel_kept_def)
  have "robust R W (initialised S) M s"
    using robust_cong [OF M e(1) running_initialised [OF ok M so]] so same by (simp add: sched_only_def)
  then show ?thesis using l e(3) by (auto simp: safe_def initialised_def)
qed

lemma safe_step:
  "sys_step cf fs S S' \<Longrightarrow> proc_ok cf S \<Longrightarrow> fine (safe_inst R W) S \<Longrightarrow> safe R W S \<Longrightarrow> safe R W S'"
proof (induction rule: sys_step.induct)
  case (cpu i S data0 s c)
  then show ?case using safe_cpu by simp
next
  case (load S raw mem s avail l)
  then show ?case using safe_load by simp
next
  case (init_mm mm0 S s l)
  then show ?case using safe_setup by simp
next
  case (add S s l)
  then show ?case using safe_add by simp
qed (auto simp: safe_def initialised_def ld_time_def)

lemma safe_reach:
  assumes "sys_reach cf fs S" and "devices_fit cf" and "programs (safe_for cf) cf fs"
  shows "safe (unat (memramsz cf)) (unat (hd (memswpsz cf))) S"
  using assms
proof (induction rule: sys_reach.induct)
  case (main mp0)
  show ?case by (rule safe_init [OF assms(2)])
next
  case (step S S')
  then show ?case using safe_step [OF step(2) proc_ok_reach memory.fine_reach] by blast
qed

lemma safe_never_crashes:
  assumes "sys_reach cf fs S" and "devices_fit cf" and "programs (safe_for cf) cf fs"
  shows "\<not> crashed cf fs S"
proof (rule memory.safe_run [OF assms(1,3)])
  fix i data0 p
  assume i: "i < length (s_cpus S)" "cpu_at (s_cpus S ! i) = C_run" "cpu_proc (s_cpus S ! i) = Some p"
  obtain M where M: "robust (unat (memramsz cf)) (unat (hd (memswpsz cf))) (initialised S) M (s_os S)"
    using safe_reach [OF assms] by (auto simp: safe_def)
  from safe_run_returns [OF proc_ok_reach [OF assms(1)] memory.fine_reach [OF assms(1,3)] M i, of data0]
  show "\<exists>r. run data0 (s_os S) p = Inr r" by (auto simp: returns_def)
qed

section \<open>Calm runs\<close>

text \<open>No CPU moves \<open>krnl->mm\<close> while the loader sets up a process.\<close>

definition calm_run :: "(nat \<Rightarrow> sys_t) \<Rightarrow> bool" where
  "calm_run f \<longleftrightarrow> (\<forall>n. ld_at (s_ld (f n)) \<in> {L_mm, L_own} \<longrightarrow> k_mm (s_os (f (Suc n))) = k_mm (s_os (f n)))"

lemma calm_run_reach:
  assumes "sys_run cf fs f" and "calm_run f"
  shows "calm_reach cf fs (f n)"
proof (induction n)
  case 0
  then show ?case using assms(1) by (auto simp: sys_run_def intro: calm_reach.main)
next
  case (Suc n)
  have "calm_step cf fs (f n) (f (Suc n)) \<or> f (Suc n) = f n"
    using assms by (auto simp: sys_run_def calm_run_def calm_step_def)
  then show ?case using Suc by (auto intro: calm_reach.step)
qed

text \<open>Calm runs exist: while it sets up a process, the loader can always take the next step.\<close>

lemma calm_run_exists:
  assumes "programs (safe_inst R W) cf fs"
  shows "\<exists>f. sys_run cf fs f \<and> f 0 = main_init cf mp0 \<and> calm_run f"
proof -
  let ?next = "\<lambda>S T. (sys_step cf fs S T \<or> T = S \<and> \<not> (\<exists>S'. sys_step cf fs S S'))
    \<and> (ld_at (s_ld S) \<in> {L_mm, L_own} \<longrightarrow> k_mm (s_os T) = k_mm (s_os S))"
  have fresh: "length (symrgtbl fresh_mm) = PAGING_MAX_SYMTBL_SZ" using fresh_mm(1) by (simp add: mm_ok_def)
  have ex: "\<exists>T. sys_reach cf fs T \<and> ?next S T" if S: "sys_reach cf fs S" for S
  proof (cases "ld_at (s_ld S) \<in> {L_mm, L_own}")
    case True
    then obtain m where m: "k_mm (s_os S) = Some m" using memory.fine_reach [OF S assms] by (auto simp: fine_def)
    obtain s l where st: "ld_setup fresh_mm (s_os S) (s_ld S) = Some (Inr (s, l))" and k: "k_mm s = k_mm (s_os S)"
      using True m by (auto simp: ld_setup_def ld_mm_def ld_own_def)
    from sys_step.init_mm [OF fresh st] show ?thesis
      using k S by (intro exI [of _ "S\<lparr>s_os := s, s_ld := l\<rparr>"]) (auto intro: sys_reach.step)
  next
    case False
    then show ?thesis using S sys_reach.step [OF S] by blast
  qed
  have "\<exists>f. \<forall>n. (sys_reach cf fs (f n) \<and> (n = 0 \<longrightarrow> f n = main_init cf mp0)) \<and> ?next (f n) (f (Suc n))"
    using dependent_nat_choice [of "\<lambda>n S. sys_reach cf fs S \<and> (n = 0 \<longrightarrow> S = main_init cf mp0)" "\<lambda>_. ?next"]
      sys_reach.main ex by blast
  then obtain f where "\<forall>n. (sys_reach cf fs (f n) \<and> (n = 0 \<longrightarrow> f n = main_init cf mp0)) \<and> ?next (f n) (f (Suc n))" ..
  then show ?thesis unfolding sys_run_def calm_run_def by blast
qed

section \<open>A demo of the repository that uses memory\<close>

text \<open>The argument names a file that is read as a configuration.\<close>

definition config_reads ::
  "(string \<Rightarrow> string option) \<Rightarrow> string \<Rightarrow> nat \<Rightarrow> nat \<Rightarrow> u64 list option \<Rightarrow> (u64 \<times> string \<times> u64) list \<Rightarrow> bool" where
  "config_reads fs arg ts cpus mem prs \<longleftrightarrow>
     length arg < 94 \<and> (\<forall>prio0. read_config (fs (''input/'' @ arg)) prio0 = Inr (config_of ts cpus mem prs))"

lemma config_reads_run:
  assumes "config_reads fs arg ts cpus mem prs" and "os_run fs [prog, arg] f"
  shows "sys_run (config_of ts cpus mem prs) fs f"
  using assms by (auto simp: os_run_def os_main_def main_path_def config_reads_def)

text \<open>The text of \<open>input/os_1_singleCPU_mlq\<close> and of the files it names.\<close>

definition mlq_repository :: "string \<Rightarrow> string option" where
  "mlq_repository = map_of
     [(''input/os_1_singleCPU_mlq'', text_lines [''2 1  8'', ''0 p1s  2'', ''1 s4   4'', ''3 s1  0'', ''4 m0s  3'',
         ''6 s0  1'', ''7 s3   3'', ''9 m1s  2'', ''10 s2   3'']),
      (''input/proc/p1s'', text_lines (''1 10'' # replicate 10 ''calc'')),
      (''input/proc/s4'', text_lines (''20 7'' # replicate 7 ''calc'')),
      (''input/proc/s1'', text_lines (''20 7'' # replicate 7 ''calc'')),
      (''input/proc/s0'', text_lines (''12 15'' # replicate 15 ''calc'')),
      (''input/proc/s3'', text_lines (''7 11'' # replicate 11 ''calc'')),
      (''input/proc/s2'', text_lines (''20 12'' # replicate 12 ''calc'')),
      (''input/proc/m0s'', text_lines [''1 6'', ''alloc 300 0'', ''alloc 100 1'', ''free 0'', ''alloc 100 2'',
         ''write 102 1 20'', ''write 1 2 1000'']),
      (''input/proc/m1s'', text_lines [''1 6'', ''alloc 300 0'', ''alloc 100 1'', ''free 0'', ''alloc 100 2'',
         ''free 2'', ''free 1''])]"

definition mlq_procs :: "(u64 \<times> string \<times> u64) list" where
  "mlq_procs = [(0, ''p1s'', 2), (1, ''s4'', 4), (3, ''s1'', 0), (4, ''m0s'', 3), (6, ''s0'', 1), (7, ''s3'', 3),
     (9, ''m1s'', 2), (10, ''s2'', 3)]"

definition insts :: "(ins_opcode_t \<times> u64 \<times> u64 \<times> u64) list \<Rightarrow> inst_t list" where
  "insts = map (\<lambda>(op, a, b, c). \<lparr>opcode = op, arg_0 = a, arg_1 = b, arg_2 = c, arg_3 = 0\<rparr>)"

definition m0s :: "inst_t list" where
  "m0s = insts [(ALLOC, 300, 0, 0), (ALLOC, 100, 1, 0), (FREE, 0, 0, 0), (ALLOC, 100, 2, 0), (WRITE, 102, 1, 20),
     (WRITE, 1, 2, 1000)]"

definition m1s :: "inst_t list" where
  "m1s = insts [(ALLOC, 300, 0, 0), (ALLOC, 100, 1, 0), (FREE, 0, 0, 0), (ALLOC, 100, 2, 0), (FREE, 2, 0, 0),
     (FREE, 1, 0, 0)]"

definition mlq_progs :: "string \<Rightarrow> u32 \<times> inst_t list" where
  "mlq_progs w = (if w = ''m0s'' then (1, m0s) else if w = ''m1s'' then (1, m1s)
     else if w = ''p1s'' then (1, replicate 10 nop) else if w = ''s0'' then (12, replicate 15 nop)
     else if w = ''s2'' then (20, replicate 12 nop) else if w = ''s3'' then (7, replicate 11 nop)
     else (20, replicate 7 nop))"

lemma mlq_config: "config_reads mlq_repository ''os_1_singleCPU_mlq'' 2 1 None mlq_procs"
  unfolding config_reads_def by (intro conjI allI) code_simp+

lemma mlq_texts: "list_all (\<lambda>(t, w, p). mlq_repository (''input/proc/'' @ w) = Some (print_proc (fst (mlq_progs w)) (snd (mlq_progs w)))) mlq_procs"
  by code_simp

lemma mlq_programs: "program_files (safe_inst R W) mlq_repository mlq_progs mlq_procs"
proof -
  have "list_all (\<lambda>(t, w, p). length (snd (mlq_progs w)) < 2 ^ 32 \<and> unat (ucast p :: u32) < MAX_PRIO) mlq_procs"
    by (simp add: mlq_procs_def mlq_progs_def m0s_def m1s_def insts_def MAX_PRIO_def)
  moreover have "list_all (safe_inst R W) (snd (mlq_progs w))" for w
    by (simp add: mlq_progs_def m0s_def m1s_def insts_def safe_inst_def nop_def list_all_iff)
  ultimately show ?thesis using mlq_texts by (simp add: program_files_def list_all_iff split_beta)
qed

section \<open>Properties\<close>

text \<open>C2: Programs that use memory complete on one CPU.  When RAM has at least 2 MB and the first swap device
  two frames, and the processes (at most 50, priorities below 140) allocate, free, read and
  write with registers of the table and make no system call that reaches outside the devices,
  then for all sizes and addresses they use: in every run in which the CPU does not move
  \<open>krnl->mm\<close> while the loader sets up a process, no thread crashes, the loaded processes have
  distinct \<open>mm_struct\<close>s at every moment, \<open>main\<close> returns, and by then every process has the code of
  its file and has executed all of it.  On one CPU no two instructions overlap, and in these
  runs the loader works on memory that no instruction uses, so that instructions may be taken
  as single steps.\<close>

theorem os_memory_completes:
  assumes "config_reads fs arg ts 1 mem prs" and "length prs \<le> MAX_QUEUE_SIZE"
    and "devices_fit (config_of ts 1 mem prs)"
    and "program_files (safe_for (config_of ts 1 mem prs)) fs progs prs"
    and "os_run fs [prog, arg] f" and "calm_run f"
  shows "(\<forall>n. \<not> crashed (config_of ts 1 mem prs) fs (f n))
    \<and> (\<forall>n p q m. p < ld_i (s_ld (f n)) \<and> q < ld_i (s_ld (f n)) \<and> pcb_mm (pcbs (s_os (f n)) ! p) = Some m
        \<and> pcb_mm (pcbs (s_os (f n)) ! q) = Some m \<longrightarrow> p = q)
    \<and> (\<exists>n. programs_done progs prs (f n))"
proof (intro conjI allI impI)
  let ?cf = "config_of ts 1 mem prs"
  have run: "sys_run ?cf fs f" by (rule config_reads_run [OF assms(1,5)])
  show safe: "\<not> crashed ?cf fs (f n)" for n
    by (rule safe_never_crashes [OF run_reach [OF run] assms(3) config_of_programs [OF assms(4)]])
  show "\<exists>n. programs_done progs prs (f n)" by (rule programs_complete [OF _ assms(2,4) run safe]) simp
  show "p = q" if "p < ld_i (s_ld (f n)) \<and> q < ld_i (s_ld (f n)) \<and> pcb_mm (pcbs (s_os (f n)) ! p) = Some m
      \<and> pcb_mm (pcbs (s_os (f n)) ! q) = Some m" for n p q m
  proof -
    have "num_processes ?cf < 2 ^ 32" using assms(2) by (simp add: config_of_def MAX_QUEUE_SIZE_def)
    then have "mms_ok (initialised (f n)) (s_os (f n))"
      using iso_ok_reach [OF calm_run_reach [OF run assms(6)]] by (simp add: iso_ok_def)
    then show ?thesis using that by (auto simp: mms_ok_def initialised_def)
  qed
qed

text \<open>The demo \<open>os os_1_singleCPU_mlq\<close> of the repository, two of whose processes allocate, free and write (one
  of them at an address it never allocated), ends with all instructions executed.\<close>

theorem os_memory_completes_witness:
  "\<exists>f. os_run mlq_repository [''os'', ''os_1_singleCPU_mlq''] f \<and> calm_run f \<and> (\<exists>n. s_main (f n) = M_return
     \<and> map (\<lambda>pr. unat (pc pr)) (pcbs (s_os (f n))) = [10, 7, 7, 6, 15, 11, 6, 12])"
proof -
  let ?cf = "config_of 2 1 None mlq_procs"
  obtain f where f: "sys_run ?cf mlq_repository f" "f 0 = main_init ?cf blank_device" and calm: "calm_run f"
    using calm_run_exists [OF config_of_programs [OF mlq_programs]] by blast
  have "os_main mlq_repository undefined blank_device [''os'', ''os_1_singleCPU_mlq''] = Inr (Runs ?cf (f 0))"
    using mlq_config f(2) by (simp add: os_main_def main_path_def config_reads_def)
  then have r: "os_run mlq_repository [''os'', ''os_1_singleCPU_mlq''] f" using f(1) unfolding os_run_def by blast
  have fit: "devices_fit ?cf" by (simp add: devices_fit_def config_of_def)
  have "length mlq_procs \<le> MAX_QUEUE_SIZE" by (simp add: mlq_procs_def MAX_QUEUE_SIZE_def)
  from os_memory_completes [OF mlq_config this fit mlq_programs r calm]
  obtain n where n: "programs_done mlq_progs mlq_procs (f n)" by auto
  have "map (\<lambda>pr. unat (pc pr)) (pcbs (s_os (f n))) = map (\<lambda>(t, w, p). length (snd (mlq_progs w))) mlq_procs"
    by (rule nth_equalityI) (use n in \<open>auto simp: programs_done_def Let_def split: prod.splits\<close>)
  also have "\<dots> = [10, 7, 7, 6, 15, 11, 6, 12]"
    by (simp add: mlq_procs_def mlq_progs_def m0s_def m1s_def insts_def)
  finally have pcs: "map (\<lambda>pr. unat (pc pr)) (pcbs (s_os (f n))) = [10, 7, 7, 6, 15, 11, 6, 12]" .
  have "s_main (f n) = M_return" using n by (simp add: programs_done_def)
  then show ?thesis using r calm pcs by (intro exI conjI)
qed

text \<open>C40: the 2 MB are needed.  The entry that eviction leaves behind (swap frame \<open>g\<close>) reads as present with the
  frame number \<open>32 * (g mod 256)\<close>, so the next read or write of the page runs out of a RAM that
  ends below that frame; on a RAM of 8 KB or less that is the case for the swap frames 1 to 255.\<close>

theorem evicted_access_faults:
  assumes "os_wf s" and "proc_mm s p = Some mm" and "mm_ok mm" and "find_caller s (pid (pcbs s ! p)) \<noteq> None"
    and "rdmflg (ram s) \<noteq> 0" and "pte_of mm (scast (PAGING_PGN a)) = mark_swap v 0 g"
    and "length (storage (ram s)) \<le> 8192 * (unat g mod 256)"
  shows "pg_setval s p a b = Inl Out_of_bounds \<and> pg_getval s p a = Inl Out_of_bounds"
proof -
  let ?f = "PAGING_FPN (ucast (mark_swap v 0 g))"
  have get: "pg_getpage s p (PAGING_PGN a) = Inr ((0, Some ?f), s)"
    using pg_getpage_resident [OF assms(1-3), of "PAGING_PGN a"] assms(6) by (simp add: resident_def)
  have "unat (scast (phy_addr ?f (PAGING_OFFST a)) :: u64) = 32 * (unat g mod 256) * 256 + unat (PAGING_OFFST a)"
    using unat_phy_addr [OF unat_FPN unat_OFFST_less] by (simp add: unat_FPN_mark_swap)
  then have out: "\<not> unat (scast (phy_addr ?f (PAGING_OFFST a)) :: u64) < length (storage (ram s))" using assms(7) by simp
  then have "MEMPHY_write (ram s) (scast (phy_addr ?f (PAGING_OFFST a))) w = Inl Out_of_bounds"
    "MEMPHY_read (ram s) (scast (phy_addr ?f (PAGING_OFFST a))) 0 = Inl Out_of_bounds" for w
    using assms(5) by (simp_all add: MEMPHY_write_def MEMPHY_read_def set_at_def get_at_def)
  then show ?thesis
    by (simp_all add: pg_setval_def pg_getval_def get syscall_io [OF assms(1,4)])
qed

text \<open>The small machine (1 KB of RAM) with page 0 of process 0 in swap frame 1.\<close>

theorem evicted_access_faults_witness:
  "\<exists>s. pg_setval s 0 5 7 = Inl Out_of_bounds \<and> pg_getval s 0 5 = Inl Out_of_bounds"
proof -
  let ?mm = "set_pte fresh_mm 0 (\<lambda>v. mark_swap v 0 1)"
  let ?s = "set_proc_mm (small_os [] []) 0 ?mm"
  have wf: "os_wf ?s" by (rule os_wf_set_mm [OF small_os_wf])
  have mm: "proc_mm ?s 0 = Some ?mm" using proc_mm_set_mm [OF small_os_wf, where p = 0 and q = 0] by simp
  have ok: "mm_ok ?mm" by (rule mm_ok_set_pte [OF fresh_mm(1)])
  have call: "find_caller ?s (pid (pcbs ?s ! 0)) \<noteq> None" using small_os_caller(1) [of "[]" "[]"] by simp
  have page: "scast (PAGING_PGN (5 :: u32)) = (0 :: u64)" by code_simp
  have pte: "pte_of ?mm (scast (PAGING_PGN (5 :: u32))) = mark_swap (pte_of fresh_mm 0) 0 1"
    by (simp add: page pte_of_set_pte)
  have ram: "rdmflg (ram ?s) \<noteq> 0" "length (storage (ram ?s)) \<le> 8192 * (unat (1 :: u64) mod 256)"
    by (simp_all add: init_memphy_fields)
  show ?thesis using evicted_access_faults [OF wf mm ok call ram(1) pte ram(2)] by (intro exI)
qed

end
