(* ===== verification/OS_Mm32.thy ===== *)
theory OS_Mm32
  imports OS_Mm
begin

text \<open>
  The memory manager of \<open>mm.c\<close>, which replaces \<open>mm64.c\<close> when \<open>MM64\<close> is not defined: a flat page
  table of \<open>PAGING_MAX_PGN\<close> entries, a FIFO of resident pages, and byte accesses that bring a
  swapped page back.  \<open>addr_t\<close> is a 32 bit word here.  The devices are those of \<open>OS_Memphy\<close>;
  addresses and frame numbers are zero-extended when they reach them and truncated when they
  come back.  \<open>krnl32\<close> is what the functions reach through \<open>caller->krnl\<close>.

  \<open>PAGING_PAGE_SWAPPED\<close> and \<open>PAGING_OFF\<close> are used by \<open>mm.c\<close> and defined nowhere; they are the
  arguments \<open>swapped\<close> and \<open>pgoff\<close> of the functions that use them.
\<close>

section \<open>State\<close>

record rg32 =
  rg32_start :: u32
  rg32_end :: u32

record vma32 =
  vm_id32 :: u64
  vm_start32 :: u32
  vm_end32 :: u32
  sbrk32 :: u32
  vm_freerg_list32 :: "rg32 list"

record mm32 =
  pgd32 :: "u32 list"
  mmap32 :: "vma32 list"
  symrgtbl32 :: "rg32 list"
  fifo_pgn32 :: "u32 list"

record krnl32 =
  mm_of :: "mm32 option"
  mram32 :: memphy
  mswp0 :: memphy

section \<open>Entries\<close>

text \<open>The macros of \<open>mm.h\<close> on 32 bit entries.\<close>

definition SETBIT32 :: "u32 \<Rightarrow> u32 \<Rightarrow> u32" where
  "SETBIT32 v msk = v OR msk"

definition CLRBIT32 :: "u32 \<Rightarrow> u32 \<Rightarrow> u32" where
  "CLRBIT32 v msk = v AND NOT msk"

definition SETVAL32 :: "u32 \<Rightarrow> u32 \<Rightarrow> u32 \<Rightarrow> nat \<Rightarrow> u32" where
  "SETVAL32 v value msk offst = (v AND NOT msk) OR (push_bit offst value AND msk)"

definition init_pte32 :: "u32 \<Rightarrow> int \<Rightarrow> u32 \<Rightarrow> int \<Rightarrow> int \<Rightarrow> i32 \<Rightarrow> u32 \<Rightarrow> int \<times> u32" where
  "init_pte32 pte pre fpn drt swp swptyp swpoff =
     (if pre \<noteq> 0 then
        if swp = 0 then
          if fpn = 0 then (-1, pte)
          else let pte = SETBIT32 pte PAGING_PTE_PRESENT_MASK;
                   pte = CLRBIT32 pte PAGING_PTE_SWAPPED_MASK;
                   pte = CLRBIT32 pte PAGING_PTE_DIRTY_MASK
               in (0, SETVAL32 pte fpn PAGING_PTE_FPN_MASK 0)
        else let pte = SETBIT32 pte PAGING_PTE_PRESENT_MASK;
                 pte = SETBIT32 pte PAGING_PTE_SWAPPED_MASK;
                 pte = CLRBIT32 pte PAGING_PTE_DIRTY_MASK;
                 pte = SETVAL32 pte swptyp PAGING_PTE_SWPTYP_MASK 0
             in (0, SETVAL32 pte swpoff PAGING_PTE_SWPOFF_MASK 5)
      else (0, pte))"

text \<open>The assignments of \<open>pte_set_swap\<close> and \<open>pte_set_fpn\<close> to \<open>*pte\<close>.\<close>

definition mark_swap32 :: "u32 \<Rightarrow> i32 \<Rightarrow> u32 \<Rightarrow> u32" where
  "mark_swap32 pte swptyp swpoff =
     (let pte = SETBIT32 pte PAGING_PTE_PRESENT_MASK;
          pte = SETBIT32 pte PAGING_PTE_SWAPPED_MASK;
          pte = SETVAL32 pte swptyp PAGING_PTE_SWPTYP_MASK 0
      in SETVAL32 pte swpoff PAGING_PTE_SWPOFF_MASK 5)"

definition mark_fpn32 :: "u32 \<Rightarrow> u32 \<Rightarrow> u32" where
  "mark_fpn32 pte fpn =
     (let pte = SETBIT32 pte PAGING_PTE_PRESENT_MASK;
          pte = CLRBIT32 pte PAGING_PTE_SWAPPED_MASK
      in SETVAL32 pte fpn PAGING_PTE_FPN_MASK 0)"

text \<open>\<open>krnl->mm->pgd[pgn]\<close> and the assignment to it.\<close>

definition load32 :: "krnl32 \<Rightarrow> u32 \<Rightarrow> fault + u32" where
  "load32 k pgn = bindR (deref (mm_of k)) (\<lambda>mm. get_at (pgd32 mm) (unat pgn))"

definition store32 :: "krnl32 \<Rightarrow> u32 \<Rightarrow> u32 \<Rightarrow> fault + krnl32" where
  "store32 k pgn v =
     bindR (deref (mm_of k)) (\<lambda>mm.
     bindR (set_at (pgd32 mm) (unat pgn) v) (\<lambda>t. Inr (k\<lparr>mm_of := Some (mm\<lparr>pgd32 := t\<rparr>)\<rparr>)))"

definition pte_set_swap32 :: "krnl32 \<Rightarrow> u32 \<Rightarrow> i32 \<Rightarrow> u32 \<Rightarrow> fault + int \<times> krnl32" where
  "pte_set_swap32 k pgn swptyp swpoff =
     bindR (load32 k pgn) (\<lambda>v.
     bindR (store32 k pgn (mark_swap32 v swptyp swpoff)) (\<lambda>k. Inr (0, k)))"

definition pte_set_fpn32 :: "krnl32 \<Rightarrow> u32 \<Rightarrow> u32 \<Rightarrow> fault + int \<times> krnl32" where
  "pte_set_fpn32 k pgn fpn =
     bindR (load32 k pgn) (\<lambda>v.
     bindR (store32 k pgn (mark_fpn32 v fpn)) (\<lambda>k. Inr (0, k)))"

definition pte_get_entry32 :: "krnl32 \<Rightarrow> u32 \<Rightarrow> fault + u32" where
  "pte_get_entry32 k pgn = load32 k pgn"

definition pte_set_entry32 :: "krnl32 \<Rightarrow> u32 \<Rightarrow> u32 \<Rightarrow> fault + int \<times> krnl32" where
  "pte_set_entry32 k pgn pte_val = bindR (store32 k pgn pte_val) (\<lambda>k. Inr (0, k))"

section \<open>Mapping\<close>

text \<open>The loops \<open>for (i = 0; i < pgnum; i++)\<close> recurse on the remaining iterations.\<close>

fun memset_loop32 :: "nat \<Rightarrow> nat \<Rightarrow> krnl32 \<Rightarrow> u32 \<Rightarrow> fault + krnl32" where
  "memset_loop32 0 i k pgit = Inr k"
| "memset_loop32 (Suc n) i k pgit =
     bindR (pte_set_fpn32 k (pgit + of_nat i) 0) (\<lambda>(_, k). memset_loop32 n (Suc i) k pgit)"

definition vmap_pgd_memset32 :: "krnl32 \<Rightarrow> u32 \<Rightarrow> i32 \<Rightarrow> fault + int \<times> krnl32" where
  "vmap_pgd_memset32 k addr pgnum =
     bindR (memset_loop32 (nat (sint pgnum)) 0 k (PAGING_PGN addr)) (\<lambda>k. Inr (0, k))"

definition get_freefp32 :: "memphy \<Rightarrow> fault + u32 option \<times> memphy" where
  "get_freefp32 mp = bindR (MEMPHY_get_freefp mp) (\<lambda>(r, mp). Inr (map_option ucast r, mp))"

definition put_freefp32 :: "memphy \<Rightarrow> u32 \<Rightarrow> memphy" where
  "put_freefp32 mp f = MEMPHY_put_freefp mp (ucast f)"

text \<open>The allocation loop pushes every new node on \<open>head\<close>; \<open>None\<close> is the return \<open>-1\<close>.\<close>

fun push_frames ::
  "('m \<Rightarrow> fault + 'f option \<times> 'm) \<Rightarrow> nat \<Rightarrow> 'm \<Rightarrow> 'f list \<Rightarrow> fault + 'f list option \<times> 'm" where
  "push_frames get 0 m head = Inr (Some head, m)"
| "push_frames get (Suc n) m head =
     bindR (get m) (\<lambda>(r, m).
       case r of None \<Rightarrow> Inr (None, m) | Some f \<Rightarrow> push_frames get n m (f # head))"

text \<open>\<open>*frm_lst\<close> is an argument and a result: it is assigned on success only.\<close>

definition alloc_pages_range32 ::
  "krnl32 \<Rightarrow> i32 \<Rightarrow> u32 list \<Rightarrow> fault + u32 \<times> u32 list \<times> krnl32" where
  "alloc_pages_range32 k req_pgnum frm_lst =
     bindR (push_frames get_freefp32 (nat (sint req_pgnum)) (mram32 k) []) (\<lambda>(r, ram).
       case r of
         None \<Rightarrow> Inr (- 1, frm_lst, k\<lparr>mram32 := ram\<rparr>)
       | Some head \<Rightarrow> Inr (0, head, k\<lparr>mram32 := ram\<rparr>))"

definition enlist_pgn_node32 :: "u32 list \<Rightarrow> u32 \<Rightarrow> u32 list" where
  "enlist_pgn_node32 plist pgn = pgn # plist"

definition enlist32 :: "krnl32 \<Rightarrow> u32 \<Rightarrow> fault + krnl32" where
  "enlist32 k pgn =
     bindR (deref (mm_of k)) (\<lambda>mm.
     Inr (k\<lparr>mm_of := Some (mm\<lparr>fifo_pgn32 := enlist_pgn_node32 (fifo_pgn32 mm) pgn\<rparr>)\<rparr>))"

fun vmap_loop32 :: "nat \<Rightarrow> nat \<Rightarrow> krnl32 \<Rightarrow> u32 \<Rightarrow> u32 list \<Rightarrow> fault + krnl32" where
  "vmap_loop32 0 i k pgit fpit = Inr k"
| "vmap_loop32 (Suc n) i k pgit fpit =
     (case fpit of
        [] \<Rightarrow> Inr k
      | f # fs \<Rightarrow>
          bindR (pte_set_fpn32 k (pgit + of_nat i) f) (\<lambda>(_, k).
          bindR (enlist32 k (pgit + of_nat i)) (\<lambda>k. vmap_loop32 n (Suc i) k pgit fs)))"

definition vmap_page_range32 ::
  "krnl32 \<Rightarrow> u32 \<Rightarrow> i32 \<Rightarrow> u32 list \<Rightarrow> rg32 \<Rightarrow> fault + u32 \<times> rg32 \<times> krnl32" where
  "vmap_page_range32 k addr pgnum frames ret_rg =
     (let ret_rg = ret_rg\<lparr>rg32_start := addr, rg32_end := addr + pgnum * of_nat PAGING_PAGESZ\<rparr>
      in bindR (vmap_loop32 (nat (sint pgnum)) 0 k (PAGING_PGN addr) frames) (\<lambda>k.
         Inr (0, ret_rg, k)))"

text \<open>Both tests compare an unsigned value with 0, so neither branch is ever taken; they are kept
  as they are.\<close>

definition vm_map_range ::
  "krnl32 \<Rightarrow> u32 \<Rightarrow> u32 \<Rightarrow> u32 \<Rightarrow> i32 \<Rightarrow> rg32 \<Rightarrow> fault + u32 \<times> rg32 \<times> krnl32" where
  "vm_map_range k astart aend mapstart incpgnum ret_rg =
     bindR (alloc_pages_range32 k incpgnum []) (\<lambda>(r, frm_lst, k).
       if r < 0 then Inr (- 1, ret_rg, k)
       else bindR (vmap_page_range32 k mapstart incpgnum frm_lst ret_rg) (\<lambda>(r, ret_rg, k).
         if r < 0 then Inr (- 1, ret_rg, k\<lparr>mram32 := foldl put_freefp32 (mram32 k) frm_lst\<rparr>)
         else Inr (0, ret_rg, k)))"

section \<open>Regions and a new mm_struct\<close>

definition init_vm_rg32 :: "u32 \<Rightarrow> u32 \<Rightarrow> rg32" where
  "init_vm_rg32 s e = \<lparr>rg32_start = s, rg32_end = e\<rparr>"

definition enlist_vm_rg_node32 :: "rg32 list \<Rightarrow> rg32 \<Rightarrow> rg32 list" where
  "enlist_vm_rg_node32 rglist rgnode = rgnode # rglist"

definition init_mm32 :: "mm32 \<Rightarrow> int \<times> mm32" where
  "init_mm32 mm =
     (let mm = mm\<lparr>pgd32 := replicate PAGING_MAX_PGN 0\<rparr>;
          vma0 = \<lparr>vm_id32 = 0, vm_start32 = 0, vm_end32 = 0, sbrk32 = 0, vm_freerg_list32 = []\<rparr>
      in (0, mm\<lparr>mmap32 := [vma0], fifo_pgn32 := [],
               symrgtbl32 := replicate PAGING_MAX_SYMTBL_SZ (init_vm_rg32 0 0)\<rparr>))"

section \<open>Swapping\<close>

fun swap_cp_loop32 :: "nat \<Rightarrow> nat \<Rightarrow> memphy \<Rightarrow> u32 \<Rightarrow> memphy \<Rightarrow> u32 \<Rightarrow> fault + memphy \<times> memphy" where
  "swap_cp_loop32 0 cellidx mpsrc addrsrc mpdst addrdst = Inr (mpsrc, mpdst)"
| "swap_cp_loop32 (Suc n) cellidx mpsrc addrsrc mpdst addrdst =
     bindR (MEMPHY_read mpsrc (ucast (addrsrc + of_nat cellidx)) 0) (\<lambda>(r, data, mpsrc).
     if r \<noteq> 0 then Inl Uninit
     else bindR (MEMPHY_write mpdst (ucast (addrdst + of_nat cellidx)) data) (\<lambda>(_, mpdst).
          swap_cp_loop32 n (Suc cellidx) mpsrc addrsrc mpdst addrdst))"

definition swap_cp_page32 :: "memphy \<Rightarrow> u32 \<Rightarrow> memphy \<Rightarrow> u32 \<Rightarrow> fault + memphy \<times> memphy" where
  "swap_cp_page32 mpsrc srcfpn mpdst dstfpn =
     swap_cp_loop32 PAGING_PAGESZ 0 mpsrc (srcfpn * of_nat PAGING_PAGESZ) mpdst
       (dstfpn * of_nat PAGING_PAGESZ)"

text \<open>\<open>None\<close> is the return code \<open>-1\<close>, \<open>Some f\<close> is code 0 with \<open>*ret_fpn = f\<close>.  The head of the
  page list is the newest page, its last node the oldest.\<close>

definition swap_out_victim :: "(u32 \<Rightarrow> bool) \<Rightarrow> krnl32 \<Rightarrow> fault + u32 option \<times> krnl32" where
  "swap_out_victim swapped k =
     bindR (deref (mm_of k)) (\<lambda>mm.
       if fifo_pgn32 mm = [] then Inr (None, k)
       else let victim_pgn = last (fifo_pgn32 mm)
       in bindR (pte_get_entry32 k victim_pgn) (\<lambda>pte.
       if \<not> PAGING_PAGE_PRESENT pte \<or> swapped pte then Inr (None, k)
       else let victim_fpn = PAGING_FPN pte
       in bindR (get_freefp32 (mswp0 k)) (\<lambda>(r, swp).
       case r of
         None \<Rightarrow> Inr (None, k\<lparr>mswp0 := swp\<rparr>)
       | Some swpfpn \<Rightarrow>
           bindR (swap_cp_page32 (mram32 k) victim_fpn swp swpfpn) (\<lambda>(ram, swp).
           bindR (pte_set_swap32 (k\<lparr>mram32 := ram, mswp0 := swp\<rparr>) victim_pgn 0 swpfpn) (\<lambda>(_, k).
           bindR (deref (mm_of k)) (\<lambda>mm.
           Inr (Some victim_fpn,
                k\<lparr>mm_of := Some (mm\<lparr>fifo_pgn32 := butlast (fifo_pgn32 mm)\<rparr>)\<rparr>)))))))"

fun is_in_fifo :: "u32 list \<Rightarrow> u32 \<Rightarrow> bool" where
  "is_in_fifo [] pgn = False"
| "is_in_fifo (h # hs) pgn = (if h = pgn then True else is_in_fifo hs pgn)"

text \<open>The block \<open>if (PAGING_PAGE_SWAPPED(pte))\<close> that \<open>__read\<close> and \<open>__write\<close> share: the new entry,
  or \<open>None\<close> for the return \<open>-1\<close>.\<close>

definition swap_in32 :: "(u32 \<Rightarrow> bool) \<Rightarrow> krnl32 \<Rightarrow> u32 \<Rightarrow> u32 \<Rightarrow> fault + u32 option \<times> krnl32" where
  "swap_in32 swapped k pgn pte =
     (let swpoff = PAGING_SWP pte
      in bindR (get_freefp32 (mram32 k)) (\<lambda>(r, ram).
         bindR (case r of
                  Some f \<Rightarrow> Inr (Some f, k\<lparr>mram32 := ram\<rparr>)
                | None \<Rightarrow> swap_out_victim swapped (k\<lparr>mram32 := ram\<rparr>)) (\<lambda>(r, k).
         case r of
           None \<Rightarrow> Inr (None, k)
         | Some newfpn \<Rightarrow>
             bindR (swap_cp_page32 (mswp0 k) swpoff (mram32 k) newfpn) (\<lambda>(swp, ram).
             bindR (pte_set_fpn32 (k\<lparr>mswp0 := swp, mram32 := ram\<rparr>) pgn newfpn) (\<lambda>(_, k).
             bindR (deref (mm_of k)) (\<lambda>mm.
             bindR (if is_in_fifo (fifo_pgn32 mm) pgn then Inr k else enlist32 k pgn) (\<lambda>k.
             bindR (pte_get_entry32 k pgn) (\<lambda>pte. Inr (Some pte, k))))))))) "

text \<open>The common start of both accesses: the entry of the page, brought into RAM.\<close>

definition resolve32 :: "(u32 \<Rightarrow> bool) \<Rightarrow> krnl32 \<Rightarrow> u32 \<Rightarrow> fault + u32 option \<times> krnl32" where
  "resolve32 swapped k pgn =
     bindR (pte_get_entry32 k pgn) (\<lambda>pte.
       if pte = 0 then Inr (None, k)
       else if swapped pte then swap_in32 swapped k pgn pte
       else Inr (Some pte, k))"

text \<open>\<open>data\<close> is the pointer argument of \<open>__read\<close>: \<open>None\<close> for \<open>NULL\<close>, else the byte it points to.\<close>

definition read32 ::
  "(u32 \<Rightarrow> bool) \<Rightarrow> (u32 \<Rightarrow> u32) \<Rightarrow> krnl32 \<Rightarrow> u32 \<Rightarrow> u8 option \<Rightarrow> fault + int \<times> u8 option \<times> krnl32" where
  "read32 swapped pgoff k addr data =
     (case data of
        None \<Rightarrow> Inr (- 1, None, k)
      | Some d \<Rightarrow>
          bindR (resolve32 swapped k (PAGING_PGN addr)) (\<lambda>(r, k).
            case r of
              None \<Rightarrow> Inr (- 1, Some d, k)
            | Some pte \<Rightarrow>
                let phyaddr = PAGING_FPN pte * of_nat PAGING_PAGESZ + pgoff addr
                in bindR (MEMPHY_read (mram32 k) (ucast phyaddr) d) (\<lambda>(_, d, ram).
                   Inr (0, Some d, k\<lparr>mram32 := ram\<rparr>))))"

definition write32 ::
  "(u32 \<Rightarrow> bool) \<Rightarrow> (u32 \<Rightarrow> u32) \<Rightarrow> krnl32 \<Rightarrow> u32 \<Rightarrow> u8 \<Rightarrow> fault + int \<times> krnl32" where
  "write32 swapped pgoff k addr data =
     bindR (resolve32 swapped k (PAGING_PGN addr)) (\<lambda>(r, k).
       case r of
         None \<Rightarrow> Inr (- 1, k)
       | Some pte \<Rightarrow>
           let phyaddr = PAGING_FPN pte * of_nat PAGING_PAGESZ + pgoff addr
           in bindR (MEMPHY_write (mram32 k) (ucast phyaddr) data) (\<lambda>(_, ram).
              bindR (pte_get_entry32 (k\<lparr>mram32 := ram\<rparr>) (PAGING_PGN addr)) (\<lambda>newpte.
              bindR (pte_set_entry32 (k\<lparr>mram32 := ram\<rparr>) (PAGING_PGN addr)
                       (SETBIT32 newpte PAGING_PTE_DIRTY_MASK)) (\<lambda>(_, k).
              Inr (0, k)))))"

section \<open>Printing\<close>

text \<open>What \<open>print_pgtbl\<close> writes for one entry: page and frame, or page and swap offset.\<close>

datatype pgtbl_line = In_ram u32 u32 | In_swap u32 u32

text \<open>The traversal \<open>for (i = start; i < end; i++)\<close> over the flat table.\<close>

fun print_loop32 :: "(u32 \<Rightarrow> bool) \<Rightarrow> nat \<Rightarrow> krnl32 \<Rightarrow> u32 \<Rightarrow> fault + pgtbl_line list" where
  "print_loop32 swapped 0 k i = Inr []"
| "print_loop32 swapped (Suc n) k i =
     bindR (load32 k i) (\<lambda>pte.
     bindR (print_loop32 swapped n k (i + 1)) (\<lambda>ls.
       if pte = 0 then Inr ls
       else if PAGING_PAGE_PRESENT pte \<and> \<not> swapped pte then Inr (In_ram i (PAGING_FPN pte) # ls)
       else Inr (In_swap i (PAGING_SWP pte) # ls)))"

definition print_pgtbl32 :: "(u32 \<Rightarrow> bool) \<Rightarrow> krnl32 \<Rightarrow> u32 \<Rightarrow> u32 \<Rightarrow> fault + pgtbl_line list" where
  "print_pgtbl32 swapped k first past =
     (let past = (if past = - 1 then of_nat PAGING_MAX_PGN else past)
      in print_loop32 swapped (unat past - unat first) k first)"

end
