(* ===== verification/OS_Paging32.thy ===== *)
theory OS_Paging32
  imports OS_Mm32
begin

text \<open>
  Paged memory of \<open>mm.c\<close>: pages live in slots (frames of RAM or of the swap device); the
  invariant says that every mapped page has a slot of its own that is not on a free list.
  Copying a page and changing its entry is one abstract move, which both directions of
  swapping instantiate; the accesses then act as reads and updates of a map of bytes.
\<close>

section \<open>Bits of 32 bit entries\<close>

lemma bit_mark_fpn32:
  "bit (mark_fpn32 pte fpn) n \<longleftrightarrow> n < 32 \<and>
     (if n \<le> 12 then bit fpn n else if n = 30 then False else n = 31 \<or> bit pte n)"
  by (auto simp: mark_fpn32_def SETBIT32_def CLRBIT32_def SETVAL32_def mask_defs bit_masks bit_simps
      Let_def)

lemma bit_mark_swap32:
  "bit (mark_swap32 pte typ off) n \<longleftrightarrow> n < 32 \<and>
     (if n \<le> 4 then bit typ n else if n \<le> 25 then bit off (n - 5) else n = 30 \<or> n = 31 \<or> bit pte n)"
  by (auto simp: mark_swap32_def SETBIT32_def SETVAL32_def mask_defs bit_masks bit_simps Let_def)

lemma bit_dirty32: "bit (SETBIT32 v PAGING_PTE_DIRTY_MASK) n \<longleftrightarrow> bit v n \<or> n = 28"
  by (auto simp: SETBIT32_def mask_defs bit_masks bit_simps)

lemma take_bit_small32: "unat (x :: u32) < 2 ^ n \<Longrightarrow> take_bit n x = x"
  by (simp add: word_unat_eq_iff unat_take_bit)

text \<open>The slot an entry names: \<open>True\<close> for the swap device.\<close>

type_synonym slot = "bool \<times> nat"

definition home :: "u32 \<Rightarrow> slot" where
  "home pte = (if bit pte 30 then (True, unat (PAGING_SWP pte)) else (False, unat (PAGING_FPN pte)))"

lemma FPN_mark32: "PAGING_FPN (mark_fpn32 v f) = take_bit 13 f"
  unfolding FPN_eq by (rule bit_word_eqI) (auto simp: bit_mark_fpn32 bit_simps)

lemma SWP_mark32: "PAGING_SWP (mark_swap32 v t s) = take_bit 21 s"
  unfolding SWP_eq by (rule bit_word_eqI) (auto simp: bit_mark_swap32 bit_simps)

lemma FPN_dirty32: "PAGING_FPN (SETBIT32 v PAGING_PTE_DIRTY_MASK) = PAGING_FPN v"
  unfolding FPN_eq by (rule bit_word_eqI) (auto simp: bit_dirty32 bit_simps)

lemma SWP_dirty32: "PAGING_SWP (SETBIT32 v PAGING_PTE_DIRTY_MASK) = PAGING_SWP v"
  unfolding SWP_eq by (rule bit_word_eqI) (auto simp: bit_dirty32 bit_simps)

lemma home_mark [simp]:
  "unat f < 2 ^ 13 \<Longrightarrow> home (mark_fpn32 v f) = (False, unat f)"
  "unat s < 2 ^ 21 \<Longrightarrow> home (mark_swap32 v t s) = (True, unat s)"
  "home (SETBIT32 v PAGING_PTE_DIRTY_MASK) = home v"
  by (simp_all add: home_def bit_mark_fpn32 bit_mark_swap32 FPN_mark32 SWP_mark32 take_bit_small32
      bit_dirty32 FPN_dirty32 SWP_dirty32)

lemma bit_nonzero: "bit (x :: u32) n \<Longrightarrow> x \<noteq> 0"
  by auto

lemma marks_live [simp]:
  "bit (mark_fpn32 v f) 31" "bit (mark_swap32 v t s) 31" "\<not> bit (mark_fpn32 v f) 30"
  "bit (mark_swap32 v t s) 30"
  by (simp_all add: bit_mark_fpn32 bit_mark_swap32)

lemma home_bounds: "home e = (b, n) \<Longrightarrow> n < (if b then 2 ^ 21 else 2 ^ 13)"
proof -
  have "unat (PAGING_FPN e) < 2 ^ 13" "unat (PAGING_SWP e) < 2 ^ 21"
    using take_bit_nat_less_exp [of 13 "unat e"] take_bit_nat_less_exp [of 21 "unat (drop_bit 5 e)"]
    by (simp_all only: FPN_eq SWP_eq unsigned_take_bit_eq)
  then show "home e = (b, n) \<Longrightarrow> n < (if b then 2 ^ 21 else 2 ^ 13)"
    by (auto simp: home_def split: if_splits)
qed

section \<open>Slots and the invariant\<close>

definition dev :: "krnl32 \<Rightarrow> bool \<Rightarrow> memphy" where
  "dev k b = (if b then mswp0 k else mram32 k)"

definition slot_byte :: "krnl32 \<Rightarrow> slot \<Rightarrow> nat \<Rightarrow> u8" where
  "slot_byte k s x = storage (dev k (fst s)) ! (snd s * 256 + x)"

definition room :: "krnl32 \<Rightarrow> slot \<Rightarrow> bool" where
  "room k s \<longleftrightarrow> (snd s + 1) * 256 \<le> length (storage (dev k (fst s)))"

definition free_slots :: "krnl32 \<Rightarrow> slot set" where
  "free_slots k = {(b, n). n \<in> unat ` set (free_frames (dev k b))}"

definition dev32_ok :: "memphy \<Rightarrow> nat \<Rightarrow> bool" where
  "dev32_ok d m \<longleftrightarrow> rdmflg d \<noteq> 0 \<and> pool_ok d \<and> distinct (free_frames d) \<and> length (storage d) < 2 ^ 32
     \<and> (\<forall>f \<in> set (free_frames d). unat f < m \<and> (unat f + 1) * 256 \<le> length (storage d))"

definition entry :: "krnl32 \<Rightarrow> nat \<Rightarrow> u32" where
  "entry k p = pgd32 (the (mm_of k)) ! p"

definition fifo :: "krnl32 \<Rightarrow> u32 list" where
  "fifo k = fifo_pgn32 (the (mm_of k))"

definition paging_ok :: "krnl32 \<Rightarrow> bool" where
  "paging_ok k \<longleftrightarrow> (\<exists>mm. mm_of k = Some mm \<and> length (pgd32 mm) = PAGING_MAX_PGN)
     \<and> dev32_ok (mram32 k) (2 ^ 13) \<and> dev32_ok (mswp0 k) (2 ^ 21)
     \<and> (\<forall>p < PAGING_MAX_PGN. entry k p \<noteq> 0 \<longrightarrow>
          bit (entry k p) 31 \<and> room k (home (entry k p)) \<and> home (entry k p) \<notin> free_slots k)
     \<and> inj_on (\<lambda>p. home (entry k p)) {p. p < PAGING_MAX_PGN \<and> entry k p \<noteq> 0}
     \<and> distinct (fifo k)
     \<and> (\<forall>q \<in> set (fifo k). unat q < PAGING_MAX_PGN \<and> entry k (unat q) \<noteq> 0
          \<and> \<not> bit (entry k (unat q)) 30)"

text \<open>A slot in hand: taken from its free list and not yet the home of a page.\<close>

definition in_hand :: "krnl32 \<Rightarrow> slot \<Rightarrow> bool" where
  "in_hand k s \<longleftrightarrow> room k s \<and> s \<notin> free_slots k \<and> snd s < (if fst s then 2 ^ 21 else 2 ^ 13)
     \<and> (\<forall>p < PAGING_MAX_PGN. entry k p \<noteq> 0 \<longrightarrow> home (entry k p) \<noteq> s)"

definition pbyte :: "krnl32 \<Rightarrow> nat \<Rightarrow> nat \<Rightarrow> u8" where
  "pbyte k p x = slot_byte k (home (entry k p)) x"

definition same_view :: "krnl32 \<Rightarrow> krnl32 \<Rightarrow> bool" where
  "same_view k k' \<longleftrightarrow> (\<forall>p < PAGING_MAX_PGN. (entry k' p = 0 \<longleftrightarrow> entry k p = 0)
     \<and> (entry k p \<noteq> 0 \<longrightarrow> (\<forall>x < 256. pbyte k' p x = pbyte k p x)))"

lemma same_view_refl [simp]: "same_view k k"
  by (simp add: same_view_def)

lemma same_view_trans: "same_view k k' \<Longrightarrow> same_view k' k'' \<Longrightarrow> same_view k k''"
  by (simp add: same_view_def)

text \<open>Two devices with the same geometry and the same free list.\<close>

definition same_shape :: "memphy \<Rightarrow> memphy \<Rightarrow> bool" where
  "same_shape d d' \<longleftrightarrow> rdmflg d' = rdmflg d \<and> free_fp_list d' = free_fp_list d
     \<and> length (storage d') = length (storage d)"

lemma same_shape_dev_ok: "same_shape d d' \<Longrightarrow> dev32_ok d' m = dev32_ok d m"
  by (simp add: same_shape_def dev32_ok_def pool_ok_def free_frames_def)

definition shaped :: "krnl32 \<Rightarrow> krnl32 \<Rightarrow> bool" where
  "shaped k k' \<longleftrightarrow> (\<forall>b. same_shape (dev k b) (dev k' b))"

lemma shaped_slots: "shaped k k' \<Longrightarrow> room k' s = room k s \<and> free_slots k' = free_slots k"
  by (simp add: shaped_def same_shape_def room_def free_slots_def free_frames_def)

text \<open>The slot \<open>dst\<close> has received the bytes of \<open>src\<close>, all other slots are as before.\<close>

definition copied :: "krnl32 \<Rightarrow> krnl32 \<Rightarrow> slot \<Rightarrow> slot \<Rightarrow> bool" where
  "copied k k' src dst \<longleftrightarrow> shaped k k' \<and> (\<forall>s. room k s \<longrightarrow>
     (\<forall>x < 256. slot_byte k' s x = slot_byte k (if s = dst then src else s) x))"

definition frees :: "krnl32 \<Rightarrow> bool \<Rightarrow> u64 list" where
  "frees k b = free_frames (dev k b)"

lemma copied_frees: "copied k k' s d \<Longrightarrow> frees k' = frees k"
  by (simp add: copied_def shaped_def same_shape_def frees_def free_frames_def fun_eq_iff)

section \<open>Moving a page\<close>

lemma move_page:
  assumes ok: "paging_ok k" and p: "p < PAGING_MAX_PGN" "entry k p \<noteq> 0"
    and hand: "in_hand k g"
    and cp: "copied k k' (home (entry k p)) g"
    and e: "home e = g" "bit e 31"
    and mm: "mm_of k = Some mm" "mm_of k' = Some (mm\<lparr>pgd32 := (pgd32 mm)[p := e], fifo_pgn32 := ps\<rparr>)"
    and ps: "distinct ps" "\<forall>q \<in> set ps. unat q = p \<and> \<not> fst g \<or> q \<in> set (fifo k) \<and> unat q \<noteq> p"
  shows "paging_ok k'" and "in_hand k' (home (entry k p))" and "same_view k k'"
    and "entry k' p = e" and "fifo k' = ps"
proof -
  have len: "length (pgd32 mm) = PAGING_MAX_PGN" using ok mm(1) by (auto simp: paging_ok_def)
  have en: "entry k' q = (if q = p then e else entry k q)" if "q < PAGING_MAX_PGN" for q
    using that p(1) len mm by (auto simp: entry_def)
  have fk: "fifo k' = ps" using mm(2) by (simp add: fifo_def)
  have e0: "e \<noteq> 0" using e(2) by auto
  have sh: "shaped k k'" using cp by (simp add: copied_def)
  note sl = shaped_slots [OF sh]
  have devs: "dev32_ok (mram32 k') (2 ^ 13)" "dev32_ok (mswp0 k') (2 ^ 21)"
  proof -
    have "same_shape (mram32 k) (mram32 k')" "same_shape (mswp0 k) (mswp0 k')"
      using spec [OF sh [unfolded shaped_def], of False] spec [OF sh [unfolded shaped_def], of True]
      by (simp_all add: dev_def)
    then show "dev32_ok (mram32 k') (2 ^ 13)" "dev32_ok (mswp0 k') (2 ^ 21)"
      using ok by (simp_all only: same_shape_dev_ok paging_ok_def)
  qed
  have inj: "inj_on (\<lambda>q. home (entry k q)) {q. q < PAGING_MAX_PGN \<and> entry k q \<noteq> 0}"
    and old: "\<And>q. q < PAGING_MAX_PGN \<Longrightarrow> entry k q \<noteq> 0 \<Longrightarrow>
      bit (entry k q) 31 \<and> room k (home (entry k q)) \<and> home (entry k q) \<notin> free_slots k"
    using ok by (simp_all add: paging_ok_def)
  have g: "room k g" "g \<notin> free_slots k" "\<And>q. q < PAGING_MAX_PGN \<Longrightarrow> entry k q \<noteq> 0 \<Longrightarrow> home (entry k q) \<noteq> g"
    using hand by (auto simp: in_hand_def)
  have "inj_on (\<lambda>q. home (entry k' q)) {q. q < PAGING_MAX_PGN \<and> entry k' q \<noteq> 0}"
    using inj g(3) unfolding inj_on_def by (auto simp: en e(1) split: if_splits) (metis e(1))+
  moreover have "\<forall>q \<in> set ps. unat q < PAGING_MAX_PGN \<and> entry k' (unat q) \<noteq> 0 \<and> \<not> bit (entry k' (unat q)) 30"
  proof
    fix q assume q: "q \<in> set ps"
    have fok: "\<forall>q \<in> set (fifo k). unat q < PAGING_MAX_PGN \<and> entry k (unat q) \<noteq> 0
          \<and> \<not> bit (entry k (unat q)) 30"
      using ok by (simp add: paging_ok_def)
    consider "unat q = p" "\<not> fst g" | "q \<in> set (fifo k)" "unat q \<noteq> p" using ps(2) q by blast
    then show "unat q < PAGING_MAX_PGN \<and> entry k' (unat q) \<noteq> 0 \<and> \<not> bit (entry k' (unat q)) 30"
    proof cases
      case 1
      then show ?thesis using en [OF p(1)] e e0 p(1) by (auto simp: home_def split: if_splits)
    next
      case 2
      then show ?thesis using fok en by auto
    qed
  qed
  ultimately show "paging_ok k'"
    using devs mm(2) len ps(1) old g e e0
    by (auto simp: paging_ok_def fk sl en)
  show "in_hand k' (home (entry k p))"
    using old [OF p] home_bounds [of "entry k p"] g(3) [OF p] e(1) inj p
    by (cases "home (entry k p)") (auto simp: in_hand_def sl en inj_on_def)
  have cpD: "slot_byte k' s x = slot_byte k (if s = g then home (entry k p) else s) x"
    if "room k s" "x < 256" for s x
    using cp that unfolding copied_def by blast
  show "same_view k k'"
    using cpD g(1,3) old e0 p(2) by (simp add: same_view_def pbyte_def en e(1))
  show "entry k' p = e" using en [OF p(1)] by simp
  show "fifo k' = ps" by (rule fk)
qed

section \<open>Copying a page\<close>

lemma unat_up [simp]: "unat (ucast (x :: u32) :: u64) = unat x"
  by (simp add: unsigned_ucast_eq take_bit_nat_eq_self_iff order_less_trans [OF unsigned_less])

lemma cell_addr:
  assumes "unat (f :: u32) * 256 + 256 \<le> 2 ^ 32" and "i < 256"
  shows "(ucast (f * of_nat PAGING_PAGESZ + of_nat i) :: u64) = ucast f * of_nat PAGING_PAGESZ + of_nat i"
proof -
  have a: "unat f * 256 + i < 2 ^ 32" using assms by linarith
  have "unat (f * 256 + of_nat i) = unat f * 256 + i"
    using a by (simp add: unat_word_ariths unat_of_nat)
  moreover have "unat ((ucast f :: u64) * 256 + of_nat i) = unat f * 256 + i"
    using a by (simp add: unat_word_ariths unat_of_nat)
  ultimately show ?thesis
    by (simp add: word_unat_eq_iff PAGING_PAGESZ_def)
qed

lemma swap_cp_loop32_eq:
  assumes "unat sf * 256 + 256 \<le> 2 ^ 32" and "unat df * 256 + 256 \<le> 2 ^ 32"
  shows "i + n \<le> 256 \<Longrightarrow> swap_cp_loop32 n i src (sf * of_nat PAGING_PAGESZ) dst (df * of_nat PAGING_PAGESZ)
    = swap_cp_loop n i src (ucast sf) dst (ucast df)"
proof (induction n arbitrary: i src dst)
  case 0
  then show ?case by simp
next
  case (Suc n)
  then have "i < 256" by simp
  with Suc show ?case
    by (simp add: cell_addr [OF assms(1)] cell_addr [OF assms(2)] Let_def bindR_def split: sum.split)
qed

text \<open>One copy between the two devices of the kernel, as the relation \<open>copied\<close>.\<close>

lemma swap_cp_page32_copied:
  assumes ok: "rdmflg (dev k a) \<noteq> 0" "rdmflg (dev k b) \<noteq> 0"
      "length (storage (dev k a)) < 2 ^ 32" "length (storage (dev k b)) < 2 ^ 32"
    and ab: "a \<noteq> b"
    and r: "room k (a, unat sf)" "room k (b, unat df)"
  shows "\<exists>d'. swap_cp_page32 (dev k a) sf (dev k b) df = Inr (dev k a, d')
    \<and> (\<forall>k'. dev k' a = dev k a \<and> dev k' b = d' \<longrightarrow> copied k k' (a, unat sf) (b, unat df))"
proof -
  have b: "unat sf * 256 + 256 \<le> length (storage (dev k a))" "unat df * 256 + 256 \<le> length (storage (dev k b))"
    using r by (simp_all add: room_def)
  have eq: "swap_cp_page32 (dev k a) sf (dev k b) df = swap_cp_loop 256 0 (dev k a) (ucast sf) (dev k b) (ucast df)"
    unfolding swap_cp_page32_def using swap_cp_loop32_eq [of sf df 0 256 "dev k a" "dev k b"] b ok
    by (simp add: PAGING_PAGESZ_def)
  obtain d' where d: "swap_cp_loop 256 0 (dev k a) (ucast sf) (dev k b) (ucast df) = Inr (dev k a, d')"
    "\<And>j. storage d' ! j = (if unat df * 256 \<le> j \<and> j < unat df * 256 + 256
          then storage (dev k a) ! (unat sf * 256 + (j - unat df * 256)) else storage (dev k b) ! j)"
    "length (storage d') = length (storage (dev k b))" "d' = (dev k b)\<lparr>storage := storage d'\<rparr>"
    using swap_cp_loop_copies [OF ok(1,2), of "ucast sf" 0 256 "ucast df"] b ok(3,4) by auto
  have shape: "same_shape (dev k b) d'"
    unfolding same_shape_def by (subst (1 2) d(4)) (simp add: d(3))
  have other: "storage d' ! (n * 256 + x) = (if n = unat df then storage (dev k a) ! (unat sf * 256 + x)
      else storage (dev k b) ! (n * 256 + x))" if "x < 256" for n x
  proof (cases "n = unat df")
    case True
    then show ?thesis using that by (simp add: d(2))
  next
    case False
    then have "n + 1 \<le> unat df \<or> unat df + 1 \<le> n" by linarith
    then have "\<not> (unat df * 256 \<le> n * 256 + x \<and> n * 256 + x < unat df * 256 + 256)" using that by auto
    with False show ?thesis by (simp only: d(2) if_False)
  qed
  have cs: "c = a \<or> c = b" for c using ab by auto
  have "copied k k' (a, unat sf) (b, unat df)" if k': "dev k' a = dev k a" "dev k' b = d'" for k'
    unfolding copied_def
  proof (intro conjI allI impI)
    show "shaped k k'" unfolding shaped_def
    proof
      fix c show "same_shape (dev k c) (dev k' c)"
        using cs [of c] shape k' by (auto simp: same_shape_def)
    qed
    fix s x assume "room k s" "(x :: nat) < 256"
    then show "slot_byte k' s x = slot_byte k (if s = (b, unat df) then (a, unat sf) else s) x"
      using cs [of "fst s"] k' ab other [OF \<open>x < 256\<close>] by (cases s) (auto simp: slot_byte_def)
  qed
  then show ?thesis using d(1) eq by auto
qed

section \<open>Taking a frame\<close>

interpretation fpool32: frame_pool pool_ok "\<lambda>d. map ucast (free_frames d)" get_freefp32 put_freefp32 device_core
proof unfold_locales
  fix m and f :: u32 and fs
  show "pool_ok m \<Longrightarrow> map ucast (free_frames m) = ([] :: u32 list) \<Longrightarrow> get_freefp32 m = Inr (None, m)"
    using fpool.get_empty [of m] by (simp add: get_freefp32_def)
  show "\<exists>m'. get_freefp32 m = Inr (Some f, m') \<and> pool_ok m' \<and> map ucast (free_frames m') = fs
      \<and> device_core m' = device_core m" if m: "pool_ok m" "map ucast (free_frames m) = f # fs"
  proof -
    obtain g gs where "free_frames m = g # gs" "ucast g = f" "map ucast gs = fs"
      using m(2) by (cases "free_frames m") auto
    then show ?thesis using fpool.get_Cons [OF m(1)] by (fastforce simp: get_freefp32_def)
  qed
  show "pool_ok m \<Longrightarrow> pool_ok (put_freefp32 m f)"
    using fpool.put_inv by (simp add: put_freefp32_def)
  show "map ucast (free_frames (put_freefp32 m f)) = f # map ucast (free_frames m)" if "pool_ok m"
    using fpool.put_free [OF that] by (simp add: put_freefp32_def ucast_up_ucast_id is_up)
  show "device_core (put_freefp32 m f) = device_core m"
    using fpool.put_frame by (simp add: put_freefp32_def)
qed

lemma get_freefp32_None: "pool_ok d \<Longrightarrow> free_frames d = [] \<Longrightarrow> get_freefp32 d = Inr (None, d)"
  using fpool32.get_empty by simp

text \<open>A frame that is taken off a free list is in hand; nothing else changes.\<close>

definition set_dev32 :: "krnl32 \<Rightarrow> bool \<Rightarrow> memphy \<Rightarrow> krnl32" where
  "set_dev32 k b d = (if b then k\<lparr>mswp0 := d\<rparr> else k\<lparr>mram32 := d\<rparr>)"

lemma dev_set_dev32 [simp]: "dev (set_dev32 k b d) c = (if c = b then d else dev k c)"
  by (simp add: dev_def set_dev32_def)

lemma mm_set_dev [simp]: "mm_of (set_dev32 k b d) = mm_of k" "entry (set_dev32 k b d) p = entry k p"
    "fifo (set_dev32 k b d) = fifo k"
  by (simp_all add: set_dev32_def entry_def fifo_def)

lemma dev_updates [simp]:
  "entry (k\<lparr>mswp0 := d\<rparr>) p = entry k p" "entry (k\<lparr>mram32 := d\<rparr>) p = entry k p"
  "fifo (k\<lparr>mswp0 := d\<rparr>) = fifo k" "fifo (k\<lparr>mram32 := d\<rparr>) = fifo k"
  by (simp_all add: entry_def fifo_def)

lemma paging_devs: "paging_ok k \<Longrightarrow> dev32_ok (dev k b) (if b then 2 ^ 21 else 2 ^ 13)"
  by (simp add: paging_ok_def dev_def)

lemma paging_okI:
  assumes "mm_of k = Some mm" "length (pgd32 mm) = PAGING_MAX_PGN"
    and "\<And>b. dev32_ok (dev k b) (if b then 2 ^ 21 else 2 ^ 13)"
    and "\<And>p. p < PAGING_MAX_PGN \<Longrightarrow> entry k p \<noteq> 0 \<Longrightarrow>
      bit (entry k p) 31 \<and> room k (home (entry k p)) \<and> home (entry k p) \<notin> free_slots k"
    and "inj_on (\<lambda>p. home (entry k p)) {p. p < PAGING_MAX_PGN \<and> entry k p \<noteq> 0}"
    and "distinct (fifo k)"
    and "\<And>q. q \<in> set (fifo k) \<Longrightarrow> unat q < PAGING_MAX_PGN \<and> entry k (unat q) \<noteq> 0
          \<and> \<not> bit (entry k (unat q)) 30"
  shows "paging_ok k"
  using assms assms(3) [of False] assms(3) [of True] by (simp add: paging_ok_def dev_def)

lemma shrink_free:
  assumes ok: "paging_ok k" and d: "pool_ok d" "free_frames d = drop n (frees k b)"
      "device_core d = device_core (dev k b)"
  shows "paging_ok (set_dev32 k b d)" and "same_view k (set_dev32 k b d)"
    and "\<forall>f \<in> set (take n (frees k b)). in_hand (set_dev32 k b d) (b, unat (ucast f :: u32))
      \<and> unat (ucast f :: u32) = unat f"
proof -
  have dok: "dev32_ok (dev k b) (if b then 2 ^ 21 else 2 ^ 13)" by (rule paging_devs [OF ok])
  have core: "storage d = storage (dev k b)" "rdmflg d = rdmflg (dev k b)"
    using d(3) by (simp_all add: device_core_def)
  let ?k = "set_dev32 k b d"
  let ?taken = "set (take n (frees k b))"
  have split: "set (frees k b) = ?taken \<union> set (free_frames d)" "?taken \<inter> set (free_frames d) = {}"
      "distinct (free_frames d)"
    using dok d(2) set_append [of "take n (frees k b)" "drop n (frees k b)"]
      set_take_disj_set_drop_if_distinct [of "frees k b" n n]
    by (simp_all add: dev32_ok_def frees_def)
  have bnd: "unat g < (if b then 2 ^ 21 else 2 ^ 13)" "(unat g + 1) * 256 \<le> length (storage (dev k b))"
      if "g \<in> set (frees k b)" for g
    using dok that by (simp_all add: dev32_ok_def frees_def)
  have ug: "unat (ucast g :: u32) = unat g" if "g \<in> set (frees k b)" for g
    using bnd(1) [OF that] by (simp add: unsigned_ucast_eq take_bit_nat_eq_self_iff split: if_splits)
  have dok': "dev32_ok d (if b then 2 ^ 21 else 2 ^ 13)"
    using dok split d(1) core bnd by (simp add: dev32_ok_def frees_def)
  have rm: "room ?k s = room k s" for s by (cases s) (simp add: room_def core)
  have sb: "slot_byte ?k s x = slot_byte k s x" for s x by (cases s) (simp add: slot_byte_def core)
  have fs: "s \<in> free_slots k \<longleftrightarrow> s \<in> free_slots ?k \<or> (\<exists>g \<in> ?taken. s = (b, unat g))" for s
    using split(1) by (cases s) (auto simp: free_slots_def frees_def)
  have out: "(b, unat g) \<notin> free_slots ?k" if "g \<in> ?taken" for g
    using split(2) that by (auto simp: free_slots_def word_unat_eq_iff [symmetric])
  obtain mm where "mm_of k = Some mm" "length (pgd32 mm) = PAGING_MAX_PGN"
    using ok by (auto simp: paging_ok_def)
  moreover have "dev32_ok (dev ?k c) (if c then 2 ^ 21 else 2 ^ 13)" for c
    using dok' paging_devs [OF ok, of c] by (cases "c = b") simp_all
  ultimately show "paging_ok ?k"
    using ok fs by (intro paging_okI [of _ mm]) (simp_all add: paging_ok_def rm)
  have "home (entry k p) \<noteq> (b, unat g)" if "g \<in> ?taken" "p < PAGING_MAX_PGN" "entry k p \<noteq> 0" for g p
    using ok fs that by (auto simp: paging_ok_def)
  then show "\<forall>f \<in> ?taken. in_hand ?k (b, unat (ucast f :: u32)) \<and> unat (ucast f :: u32) = unat f"
    using bnd out ug split(1) by (auto simp: in_hand_def rm) (simp_all add: room_def)
  show "same_view k ?k" by (simp add: same_view_def pbyte_def sb)
qed

lemma take_frame:
  assumes ok: "paging_ok k" and ne: "free_frames (dev k b) \<noteq> []"
  shows "\<exists>f d. get_freefp32 (dev k b) = Inr (Some f, d) \<and> paging_ok (set_dev32 k b d)
    \<and> in_hand (set_dev32 k b d) (b, unat f) \<and> same_view k (set_dev32 k b d)
    \<and> free_frames d = tl (frees k b)"
proof -
  obtain g gs where fr: "free_frames (dev k b) = g # gs" using ne by (cases "free_frames (dev k b)") auto
  have pool: "pool_ok (dev k b)" using paging_devs [OF ok, of b] by (simp add: dev32_ok_def)
  obtain d where d: "MEMPHY_get_freefp (dev k b) = Inr (Some g, d)" "pool_ok d" "free_frames d = gs"
      "device_core d = device_core (dev k b)"
    using fpool.get_Cons [OF pool fr] by blast
  have "free_frames d = drop 1 (frees k b)" using d(3) fr by (simp add: frees_def)
  note sh = shrink_free [OF ok d(2) this d(4)]
  show ?thesis using sh d(1,3) fr by (auto simp: get_freefp32_def frees_def)
qed

section \<open>Swapping out and in\<close>

text \<open>The two undefined macros, as far as their names and the comments of \<open>mm.c\<close> say what they
  compute: the swapped bit of an entry, and the offset of an address in its page.\<close>

definition macros32 :: "(u32 \<Rightarrow> bool) \<Rightarrow> (u32 \<Rightarrow> u32) \<Rightarrow> bool" where
  "macros32 swapped pgoff \<longleftrightarrow>
     (\<forall>pte. swapped pte \<longleftrightarrow> pte AND PAGING_PTE_SWAPPED_MASK \<noteq> 0) \<and> (\<forall>a. pgoff a = PAGING_OFFST a)"

lemma swapped_bit: "macros32 swapped pgoff \<Longrightarrow> swapped pte \<longleftrightarrow> bit pte 30"
  by (simp add: macros32_def PAGING_PTE_SWAPPED_MASK_def BIT_def bit_iff_and_push_bit_not_eq_0)

lemma load32_entry: "paging_ok k \<Longrightarrow> unat p < PAGING_MAX_PGN \<Longrightarrow> load32 k p = Inr (entry k (unat p))"
  by (auto simp: load32_def paging_ok_def entry_def)

lemma store32_eq:
  "mm_of k = Some mm \<Longrightarrow> length (pgd32 mm) = PAGING_MAX_PGN \<Longrightarrow> unat p < PAGING_MAX_PGN \<Longrightarrow>
   store32 k p v = Inr (k\<lparr>mm_of := Some (mm\<lparr>pgd32 := (pgd32 mm)[unat p := v]\<rparr>)\<rparr>)"
  by (simp add: store32_def)

text \<open>One copy and the new entry together, in either direction: the source slot comes in hand.\<close>

lemma transfer:
  assumes ok: "paging_ok k" and p: "unat p < PAGING_MAX_PGN" "entry k (unat p) \<noteq> 0"
    and h: "home (entry k (unat p)) = (\<not> b, unat sf)" and hand: "in_hand k (b, unat df)"
    and e: "home e = (b, unat df)" "bit e 31"
    and mm: "mm_of k = Some mm"
    and ps: "distinct ps" "\<forall>q \<in> set ps. q = p \<and> \<not> b \<or> q \<in> set (fifo k) \<and> q \<noteq> p"
  shows "\<exists>d'. swap_cp_page32 (dev k (\<not> b)) sf (dev k b) df = Inr (dev k (\<not> b), d') \<and>
    (let k' = (set_dev32 k b d')\<lparr>mm_of := Some (mm\<lparr>pgd32 := (pgd32 mm)[unat p := e], fifo_pgn32 := ps\<rparr>)\<rparr>
     in paging_ok k' \<and> in_hand k' (\<not> b, unat sf) \<and> same_view k k' \<and> entry k' (unat p) = e \<and> fifo k' = ps
       \<and> frees k' = frees k)"
proof -
  have r: "room k (\<not> b, unat sf)" "room k (b, unat df)"
    using ok p h hand by (auto simp: paging_ok_def in_hand_def)
  have dv: "rdmflg (dev k c) \<noteq> 0" "length (storage (dev k c)) < 2 ^ 32" for c
    using paging_devs [OF ok, of c] by (simp_all add: dev32_ok_def)
  obtain d' where d: "swap_cp_page32 (dev k (\<not> b)) sf (dev k b) df = Inr (dev k (\<not> b), d')"
    "\<And>k'. dev k' (\<not> b) = dev k (\<not> b) \<and> dev k' b = d' \<longrightarrow> copied k k' (\<not> b, unat sf) (b, unat df)"
    using swap_cp_page32_copied [OF dv(1) dv(1) dv(2) dv(2) _ r] by auto
  let ?k = "(set_dev32 k b d')\<lparr>mm_of := Some (mm\<lparr>pgd32 := (pgd32 mm)[unat p := e], fifo_pgn32 := ps\<rparr>)\<rparr>"
  have "dev ?k c = dev (set_dev32 k b d') c" for c by (simp add: dev_def)
  then have cp: "copied k ?k (home (entry k (unat p))) (b, unat df)" using d(2) [of ?k] h by simp
  have m2: "mm_of ?k = Some (mm\<lparr>pgd32 := (pgd32 mm)[unat p := e], fifo_pgn32 := ps\<rparr>)" by simp
  have m3: "\<forall>q \<in> set ps. unat q = unat p \<and> \<not> fst (b, unat df) \<or> q \<in> set (fifo k) \<and> unat q \<noteq> unat p"
    using ps(2) by (simp only: word_unat_eq_iff [symmetric] fst_conv)
  note mv = move_page [OF ok p hand cp e mm m2 ps(1) m3]
  show ?thesis unfolding Let_def
    by (intro exI [of _ d'] conjI d(1) mv(1) mv(2) [unfolded h] mv(3) mv(4) mv(5) copied_frees [OF cp])
qed

lemma paging_fifo: "paging_ok k \<Longrightarrow> q \<in> set (fifo k) \<Longrightarrow>
    unat q < PAGING_MAX_PGN \<and> entry k (unat q) \<noteq> 0 \<and> \<not> bit (entry k (unat q)) 30"
  unfolding paging_ok_def by blast

lemma paging_mm: "paging_ok k \<Longrightarrow> \<exists>mm. mm_of k = Some mm \<and> length (pgd32 mm) = PAGING_MAX_PGN"
  unfolding paging_ok_def by blast

lemma paging_entry: "paging_ok k \<Longrightarrow> p < PAGING_MAX_PGN \<Longrightarrow> entry k p \<noteq> 0 \<Longrightarrow>
    bit (entry k p) 31 \<and> room k (home (entry k p)) \<and> home (entry k p) \<notin> free_slots k"
  unfolding paging_ok_def by blast

lemma paging_inj: "paging_ok k \<Longrightarrow> p < PAGING_MAX_PGN \<Longrightarrow> entry k p \<noteq> 0 \<Longrightarrow> q < PAGING_MAX_PGN \<Longrightarrow>
    entry k q \<noteq> 0 \<Longrightarrow> home (entry k p) = home (entry k q) \<Longrightarrow> p = q"
  unfolding paging_ok_def inj_on_def by blast

lemma last_not_butlast: "distinct xs \<Longrightarrow> xs \<noteq> [] \<Longrightarrow> last xs \<notin> set (butlast xs)"
  by (induction xs) auto

lemma swap_out:
  assumes ok: "paging_ok k" and mac: "macros32 swapped pgoff"
  shows "if fifo k = [] \<or> free_frames (mswp0 k) = [] then swap_out_victim swapped k = Inr (None, k)
    else \<exists>f k'. swap_out_victim swapped k = Inr (Some f, k') \<and> paging_ok k'
      \<and> in_hand k' (False, unat f) \<and> same_view k k' \<and> fifo k' = butlast (fifo k)
      \<and> frees k' = (frees k)(True := tl (frees k True))
      \<and> entry k' (unat (last (fifo k))) \<noteq> 0
      \<and> (\<forall>p < PAGING_MAX_PGN. p \<noteq> unat (last (fifo k)) \<longrightarrow> entry k' p = entry k p)"
proof (cases "fifo k = []")
  case True
  then show ?thesis using paging_mm [OF ok] by (auto simp: swap_out_victim_def fifo_def)
next
  case False
  let ?v = "last (fifo k)"
  obtain mm where mm: "mm_of k = Some mm" "length (pgd32 mm) = PAGING_MAX_PGN"
    using paging_mm [OF ok] by blast
  have fifo: "fifo_pgn32 mm = fifo k" using mm(1) by (simp add: fifo_def)
  have v: "unat ?v < PAGING_MAX_PGN" "entry k (unat ?v) \<noteq> 0" "\<not> bit (entry k (unat ?v)) 30"
    "bit (entry k (unat ?v)) 31"
    using paging_fifo [OF ok last_in_set [OF False]] paging_entry [OF ok, of "unat ?v"] by blast+
  let ?e = "entry k (unat ?v)"
  have pres: "PAGING_PAGE_PRESENT ?e" "\<not> swapped ?e"
    using v by (simp_all add: present_iff_bit swapped_bit [OF mac])
  have en: "pgd32 mm ! unat ?v = ?e" using mm(1) by (simp add: entry_def)
  have dist: "distinct (fifo k)" using ok by (simp add: paging_ok_def)
  note start = swap_out_victim_def mm(1) fifo False Let_def pte_get_entry32_def load32_entry [OF ok v(1)] pres
  show ?thesis
  proof (cases "free_frames (mswp0 k) = []")
    case True
    have "pool_ok (mswp0 k)" using ok by (simp add: paging_ok_def dev32_ok_def)
    then show ?thesis using True by (simp add: start get_freefp32_None)
  next
    case ne: False
    obtain s d where t: "get_freefp32 (mswp0 k) = Inr (Some s, d)" "paging_ok (set_dev32 k True d)"
      "in_hand (set_dev32 k True d) (True, unat s)" "same_view k (set_dev32 k True d)"
      "free_frames d = tl (frees k True)"
      using take_frame [OF ok, of True] ne by (auto simp: dev_def frees_def)
    let ?k = "set_dev32 k True d"
    have s: "unat s < 2 ^ 21" using t(3) by (simp add: in_hand_def)
    have h: "home (entry ?k (unat ?v)) = (\<not> True, unat (PAGING_FPN ?e))" using v by (simp add: home_def)
    have e2: "entry ?k (unat ?v) \<noteq> 0" and m2: "mm_of ?k = Some mm" using v(2) mm(1) by simp_all
    have ps: "distinct (butlast (fifo ?k))" "\<forall>q \<in> set (butlast (fifo ?k)). q = ?v \<and> \<not> True \<or> q \<in> set (fifo ?k) \<and> q \<noteq> ?v"
      using distinct_butlast [OF dist] last_not_butlast [OF dist False] in_set_butlastD [of _ "fifo k"]
      by auto
    obtain d' where d: "swap_cp_page32 (dev ?k (\<not> True)) (PAGING_FPN ?e) (dev ?k True) s = Inr (dev ?k (\<not> True), d')"
      "let k' = (set_dev32 ?k True d')\<lparr>mm_of := Some (mm\<lparr>pgd32 := (pgd32 mm)[unat ?v := mark_swap32 ?e 0 s],
           fifo_pgn32 := butlast (fifo ?k)\<rparr>)\<rparr>
       in paging_ok k' \<and> in_hand k' (\<not> True, unat (PAGING_FPN ?e)) \<and> same_view ?k k'
         \<and> entry k' (unat ?v) = mark_swap32 ?e 0 s \<and> fifo k' = butlast (fifo ?k) \<and> frees k' = frees ?k"
      using transfer [OF t(2) v(1) e2 h t(3) home_mark(2) [OF s] marks_live(2) m2 ps] by blast
    let ?k2 = "(set_dev32 ?k True d')\<lparr>mm_of := Some (mm\<lparr>pgd32 := (pgd32 mm)[unat ?v := mark_swap32 ?e 0 s],
           fifo_pgn32 := butlast (fifo ?k)\<rparr>)\<rparr>"
    have "swap_out_victim swapped k = Inr (Some (PAGING_FPN ?e), ?k2)"
      using d(1) mm v(1) ne t(1)
      by (simp add: start dev_def set_dev32_def pte_set_swap32_def load32_def store32_def en)
    moreover have "entry ?k2 p = entry k p" if "p \<noteq> unat ?v" for p
      using that mm(1) by (simp add: entry_def)
    moreover have k2: "paging_ok ?k2" "in_hand ?k2 (False, unat (PAGING_FPN ?e))" "same_view ?k ?k2"
        "entry ?k2 (unat ?v) = mark_swap32 ?e 0 s" "fifo ?k2 = butlast (fifo k)"
        "frees ?k2 = frees ?k"
      using d(2) by (simp_all only: Let_def not_True_eq_False mm_set_dev simp_thms)
    moreover have "entry ?k2 (unat ?v) \<noteq> 0"
      unfolding k2(4) by (rule bit_nonzero [OF marks_live(2)])
    moreover have "frees ?k2 = (frees k)(True := tl (frees k True))"
      unfolding k2(6) using t(5) by (simp add: frees_def fun_eq_iff)
    ultimately show ?thesis
      using False ne same_view_trans [OF t(4) k2(3)] by auto
  qed
qed

text \<open>A page can be brought back when RAM has a free frame, or a resident page can be evicted.\<close>

definition can_load :: "krnl32 \<Rightarrow> bool" where
  "can_load k \<longleftrightarrow> free_frames (mram32 k) \<noteq> [] \<or> fifo k \<noteq> [] \<and> free_frames (mswp0 k) \<noteq> []"

lemma is_in_fifo_set [simp]: "is_in_fifo ps p \<longleftrightarrow> p \<in> set ps"
  by (induction ps) auto

text \<open>With a RAM frame in hand, the swapped page is loaded into it.\<close>

lemma load_page:
  assumes ok: "paging_ok k" and p: "unat p < PAGING_MAX_PGN" "bit (entry k (unat p)) 30"
      "entry k (unat p) \<noteq> 0" and hand: "in_hand k (False, unat f)"
  shows "\<exists>k'. bindR (swap_cp_page32 (mswp0 k) (PAGING_SWP (entry k (unat p))) (mram32 k) f) (\<lambda>(swp, ram).
             bindR (pte_set_fpn32 (k\<lparr>mswp0 := swp, mram32 := ram\<rparr>) p f) (\<lambda>(_, k).
             bindR (deref (mm_of k)) (\<lambda>mm.
             bindR (if is_in_fifo (fifo_pgn32 mm) p then Inr k else enlist32 k p) (\<lambda>k.
             bindR (pte_get_entry32 k p) (\<lambda>pte. Inr (Some pte, k))))))
      = Inr (Some (entry k' (unat p)), k')
    \<and> paging_ok k' \<and> same_view k k' \<and> \<not> bit (entry k' (unat p)) 30 \<and> fifo k' = p # fifo k
    \<and> in_hand k' (home (entry k (unat p))) \<and> frees k' = frees k"
proof -
  let ?e = "entry k (unat p)"
  obtain mm where mm: "mm_of k = Some mm" "length (pgd32 mm) = PAGING_MAX_PGN"
    using paging_mm [OF ok] by blast
  have en: "pgd32 mm ! unat p = ?e" using mm(1) by (simp add: entry_def)
  have fifo: "fifo_pgn32 mm = fifo k" using mm(1) by (simp add: fifo_def)
  have new: "p \<notin> set (fifo k)" using paging_fifo [OF ok] p(2) by blast
  have h: "home ?e = (\<not> False, unat (PAGING_SWP ?e))" using p(2) by (simp add: home_def)
  have f: "unat f < 2 ^ 13" using hand by (simp add: in_hand_def)
  have ps: "distinct (p # fifo k)" "\<forall>q \<in> set (p # fifo k). q = p \<and> \<not> False \<or> q \<in> set (fifo k) \<and> q \<noteq> p"
    using new ok by (auto simp: paging_ok_def)
  obtain d' where d: "swap_cp_page32 (dev k (\<not> False)) (PAGING_SWP ?e) (dev k False) f = Inr (dev k (\<not> False), d')"
      "let k' = (set_dev32 k False d')\<lparr>mm_of := Some (mm\<lparr>pgd32 := (pgd32 mm)[unat p := mark_fpn32 ?e f],
           fifo_pgn32 := p # fifo k\<rparr>)\<rparr>
       in paging_ok k' \<and> in_hand k' (\<not> False, unat (PAGING_SWP ?e)) \<and> same_view k k'
         \<and> entry k' (unat p) = mark_fpn32 ?e f \<and> fifo k' = p # fifo k \<and> frees k' = frees k"
    using transfer [OF ok p(1,3) h hand home_mark(1) [OF f] marks_live(1) mm(1) ps] by blast
  let ?k2 = "(set_dev32 k False d')\<lparr>mm_of := Some (mm\<lparr>pgd32 := (pgd32 mm)[unat p := mark_fpn32 ?e f],
           fifo_pgn32 := p # fifo k\<rparr>)\<rparr>"
  have k2: "paging_ok ?k2" "in_hand ?k2 (home ?e)" "same_view k ?k2"
      "entry ?k2 (unat p) = mark_fpn32 ?e f" "fifo ?k2 = p # fifo k"
      "frees ?k2 = frees k"
    using d(2) unfolding h by (simp_all only: Let_def not_False_eq_True)
  show ?thesis
    using d(1) mm p(1) new k2
    by (intro exI [of _ ?k2])
      (simp add: dev_def set_dev32_def pte_set_fpn32_def pte_get_entry32_def enlist32_def
        enlist_pgn_node32_def load32_def store32_def en fifo)
qed

lemma resolve_swapped:
  assumes ok: "paging_ok k" and mac: "macros32 swapped pgoff" and p: "unat p < PAGING_MAX_PGN"
    and e: "entry k (unat p) \<noteq> 0" "bit (entry k (unat p)) 30"
  shows "if can_load k
    then \<exists>k'. resolve32 swapped k p = Inr (Some (entry k' (unat p)), k') \<and> paging_ok k' \<and> same_view k k'
       \<and> \<not> bit (entry k' (unat p)) 30 \<and> in_hand k' (home (entry k (unat p)))
       \<and> (let b = (frees k False = []) in frees k' = (frees k)(b := tl (frees k b)))
    else resolve32 swapped k p = Inr (None, k)"
proof -
  have pool: "pool_ok (mram32 k)" using paging_devs [OF ok, of False] by (simp add: dev32_ok_def dev_def)
  have start: "resolve32 swapped k p = swap_in32 swapped k p (entry k (unat p))"
    using e by (simp add: resolve32_def pte_get_entry32_def load32_entry [OF ok p] swapped_bit [OF mac])
  show ?thesis
  proof (cases "free_frames (mram32 k) = []")
    case False
    obtain f d where t: "get_freefp32 (dev k False) = Inr (Some f, d)" "paging_ok (set_dev32 k False d)"
        "in_hand (set_dev32 k False d) (False, unat f)" "same_view k (set_dev32 k False d)"
        "free_frames d = tl (frees k False)"
      using take_frame [OF ok, of False] False by (auto simp: dev_def frees_def)
    have fr: "frees (set_dev32 k False d) = (frees k)(False := tl (frees k False))" "frees k False \<noteq> []"
      using t(5) False by (simp_all add: frees_def fun_eq_iff) (simp add: dev_def)
    show ?thesis
      using load_page [OF t(2) p _ _ t(3)] e t(1) False same_view_trans [OF t(4)] fr unfolding start
      by (auto simp: swap_in32_def dev_def set_dev32_def can_load_def Let_def)
  next
    case True
    have none: "get_freefp32 (mram32 k) = Inr (None, k32)" if "k32 = mram32 k" for k32
      using get_freefp32_None [OF pool True] that by simp
    show ?thesis
    proof (cases "can_load k")
      case False
      then show ?thesis
        using swap_out [OF ok mac] True
        by (auto simp: start swap_in32_def none [OF refl] can_load_def Let_def)
    next
      case can: True
      obtain f k1 where t: "swap_out_victim swapped k = Inr (Some f, k1)" "paging_ok k1"
          "in_hand k1 (False, unat f)" "same_view k k1"
          "\<forall>q < PAGING_MAX_PGN. q \<noteq> unat (last (fifo k)) \<longrightarrow> entry k1 q = entry k q"
          "frees k1 = (frees k)(True := tl (frees k True))"
        using swap_out [OF ok mac] can True by (auto simp: can_load_def)
      have "unat (last (fifo k)) \<noteq> unat p"
        using paging_fifo [OF ok last_in_set, unfolded can_load_def] can True e
        by (auto simp: can_load_def)
      then have en: "entry k1 (unat p) = entry k (unat p)" using t(5) p by auto
      show ?thesis
        using load_page [OF t(2) p _ _ t(3)] e t(1) can True same_view_trans [OF t(4)] t(6) unfolding en start
        by (auto simp: swap_in32_def none [OF refl] Let_def frees_def [of k False] dev_def)
    qed
  qed
qed

section \<open>Bytes\<close>

definition vbyte32 :: "krnl32 \<Rightarrow> u32 \<Rightarrow> u8 option" where
  "vbyte32 k a =
     (let p = unat (PAGING_PGN a)
      in if entry k p = 0 then None else Some (pbyte k p (unat (PAGING_OFFST a))))"

lemma pgn_less: "unat (PAGING_PGN a) < PAGING_MAX_PGN"
  using take_bit_nat_less_exp [of 14 "unat (drop_bit 8 a)"]
  by (simp add: PGN_eq unsigned_take_bit_eq PAGING_MAX_PGN_def PAGING_CPU_BUS_WIDTH_def PAGING_PAGESZ_def)

lemma offst_less: "unat (PAGING_OFFST a) < 256"
  using take_bit_nat_less_exp [of 8 "unat a"] by (simp add: OFFST_eq unsigned_take_bit_eq)

lemma same_view_vbyte: "same_view k k' \<Longrightarrow> vbyte32 k' = vbyte32 k"
  using pgn_less offst_less by (auto simp: vbyte32_def same_view_def Let_def fun_eq_iff)

lemma page_byte_eq: "PAGING_PGN x = PAGING_PGN a \<and> PAGING_OFFST x = PAGING_OFFST a
    \<longleftrightarrow> take_bit 22 x = take_bit 22 a"
proof
  assume "PAGING_PGN x = PAGING_PGN a \<and> PAGING_OFFST x = PAGING_OFFST a"
  then have b: "bit (take_bit 14 (drop_bit 8 x)) n = bit (take_bit 14 (drop_bit 8 a)) n"
      "bit (take_bit 8 x) n = bit (take_bit 8 a) n" for n
    by (simp_all add: PGN_eq OFFST_eq)
  show "take_bit 22 x = take_bit 22 a"
  proof (rule bit_word_eqI)
    fix n
    show "bit (take_bit 22 x) n = bit (take_bit 22 a) n"
      using b(1) [of "n - 8"] b(2) [of n] by (cases "n < 8") (auto simp: bit_simps)
  qed
next
  assume "take_bit 22 x = take_bit 22 a"
  then have b: "bit (take_bit 22 x) n = bit (take_bit 22 a) n" for n by simp
  show "PAGING_PGN x = PAGING_PGN a \<and> PAGING_OFFST x = PAGING_OFFST a"
  proof (intro conjI; unfold PGN_eq OFFST_eq; rule bit_word_eqI)
    fix n
    show "bit (take_bit 14 (drop_bit 8 x)) n = bit (take_bit 14 (drop_bit 8 a)) n"
      using b [of "8 + n"] by (auto simp: bit_simps)
    show "bit (take_bit 8 x) n = bit (take_bit 8 a) n" using b [of n] by (auto simp: bit_simps)
  qed
qed

text \<open>The physical address of a resident page.\<close>

lemma phys_addr:
  assumes ok: "paging_ok k" and e: "entry k (unat (PAGING_PGN a)) = pte" "pte \<noteq> 0" "\<not> bit pte 30"
  shows "unat (ucast (PAGING_FPN pte * of_nat PAGING_PAGESZ + PAGING_OFFST a) :: u64)
      = snd (home pte) * 256 + unat (PAGING_OFFST a)"
    and "snd (home pte) * 256 + unat (PAGING_OFFST a) < length (storage (mram32 k))"
    and "home pte = (False, unat (PAGING_FPN pte))"
proof -
  show h: "home pte = (False, unat (PAGING_FPN pte))" using e(3) by (simp add: home_def)
  have "room k (home pte)" using paging_entry [OF ok pgn_less [of a]] e by simp
  then have r: "(unat (PAGING_FPN pte) + 1) * 256 \<le> length (storage (mram32 k))"
    by (simp add: room_def h dev_def)
  then show "snd (home pte) * 256 + unat (PAGING_OFFST a) < length (storage (mram32 k))"
    using offst_less [of a] h by simp
  have "length (storage (mram32 k)) < 2 ^ 32"
    using paging_devs [OF ok, of False] by (simp add: dev32_ok_def dev_def)
  then have "unat (PAGING_FPN pte) * 256 + 256 \<le> 2 ^ 32" using r by (simp add: distrib_right)
  from cell_addr [OF this offst_less [of a]] this r
  show "unat (ucast (PAGING_FPN pte * of_nat PAGING_PAGESZ + PAGING_OFFST a) :: u64)
      = snd (home pte) * 256 + unat (PAGING_OFFST a)"
    using offst_less [of a]
    by (simp add: h PAGING_PAGESZ_def unat_word_ariths)
qed

text \<open>Changing bytes of one slot and the flags of entries keeps the invariant.\<close>

lemma relabel:
  assumes ok: "paging_ok k" and sh: "shaped k k'"
    and mm: "mm_of k' = Some mm'" "length (pgd32 mm') = PAGING_MAX_PGN"
    and en: "\<And>q. q < PAGING_MAX_PGN \<Longrightarrow> (entry k' q = 0 \<longleftrightarrow> entry k q = 0) \<and> home (entry k' q) = home (entry k q)
        \<and> bit (entry k' q) 31 = bit (entry k q) 31 \<and> bit (entry k' q) 30 = bit (entry k q) 30"
    and fi: "fifo k' = fifo k"
  shows "paging_ok k'"
proof (rule paging_okI [OF mm])
  show "dev32_ok (dev k' b) (if b then 2 ^ 21 else 2 ^ 13)" for b
    using paging_devs [OF ok, of b] same_shape_dev_ok [of "dev k b" "dev k' b"] sh
    by (simp only: shaped_def)
  show "bit (entry k' p) 31 \<and> room k' (home (entry k' p)) \<and> home (entry k' p) \<notin> free_slots k'"
    if "p < PAGING_MAX_PGN" "entry k' p \<noteq> 0" for p
    using paging_entry [OF ok that(1)] en [OF that(1)] that(2) shaped_slots [OF sh] by simp
  have "{p. p < PAGING_MAX_PGN \<and> entry k' p \<noteq> 0} = {p. p < PAGING_MAX_PGN \<and> entry k p \<noteq> 0}"
    using en by auto
  moreover have "inj_on (\<lambda>p. home (entry k p)) {p. p < PAGING_MAX_PGN \<and> entry k p \<noteq> 0}"
    using ok by (simp add: paging_ok_def)
  ultimately show "inj_on (\<lambda>p. home (entry k' p)) {p. p < PAGING_MAX_PGN \<and> entry k' p \<noteq> 0}"
    using en by (simp add: inj_on_def)
  show "distinct (fifo k')" using ok fi by (simp add: paging_ok_def)
  show "unat q < PAGING_MAX_PGN \<and> entry k' (unat q) \<noteq> 0 \<and> \<not> bit (entry k' (unat q)) 30"
    if "q \<in> set (fifo k')" for q
    using paging_fifo [OF ok, of q] that fi en [of "unat q"] by auto
qed

text \<open>What a page access starts with: the page is unmapped, or it is resident afterwards, or it
  cannot be loaded.\<close>

definition reachable :: "krnl32 \<Rightarrow> u32 \<Rightarrow> bool" where
  "reachable k a \<longleftrightarrow> entry k (unat (PAGING_PGN a)) \<noteq> 0
     \<and> (bit (entry k (unat (PAGING_PGN a))) 30 \<longrightarrow> can_load k)"

lemma resolve32_spec:
  assumes ok: "paging_ok k" and mac: "macros32 swapped pgoff"
  shows "if reachable k a
    then \<exists>k'. resolve32 swapped k (PAGING_PGN a) = Inr (Some (entry k' (unat (PAGING_PGN a))), k')
       \<and> paging_ok k' \<and> same_view k k' \<and> entry k' (unat (PAGING_PGN a)) \<noteq> 0
       \<and> \<not> bit (entry k' (unat (PAGING_PGN a))) 30
    else resolve32 swapped k (PAGING_PGN a) = Inr (None, k)"
proof (cases "entry k (unat (PAGING_PGN a)) = 0 \<or> \<not> bit (entry k (unat (PAGING_PGN a))) 30")
  case True
  then show ?thesis
    using ok same_view_refl [of k]
    by (auto simp: resolve32_def pte_get_entry32_def load32_entry [OF ok pgn_less] reachable_def
        swapped_bit [OF mac])
next
  case False
  have nz: "entry k' (unat (PAGING_PGN a)) \<noteq> 0" if "same_view k k'" for k'
    using that False pgn_less [of a] by (simp add: same_view_def)
  show ?thesis
    using resolve_swapped [OF ok mac pgn_less, of a] False nz
    by (auto simp: reachable_def split: if_splits)
qed

lemma read_resolved:
  assumes mac: "macros32 swapped pgoff"
    and r: "resolve32 swapped k (PAGING_PGN a) = Inr (Some (entry k' (unat (PAGING_PGN a))), k')"
    and k': "paging_ok k'" "entry k' (unat (PAGING_PGN a)) \<noteq> 0" "\<not> bit (entry k' (unat (PAGING_PGN a))) 30"
  shows "read32 swapped pgoff k a (Some d) = Inr (0, vbyte32 k' a, k')"
proof -
  note ad = phys_addr [OF k'(1) refl k'(2,3)]
  have "rdmflg (mram32 k') \<noteq> 0" using paging_devs [OF k'(1), of False] by (simp add: dev32_ok_def dev_def)
  from MEMPHY_read_random [OF this] ad(1,2)
  show ?thesis
    using r k'(2) mac
    by (simp add: read32_def Let_def macros32_def vbyte32_def pbyte_def slot_byte_def ad(3) dev_def)
qed

lemma read32_spec:
  assumes ok: "paging_ok k" and mac: "macros32 swapped pgoff"
  shows "if reachable k a
    then \<exists>k'. read32 swapped pgoff k a (Some d) = Inr (0, vbyte32 k a, k') \<and> paging_ok k' \<and> vbyte32 k' = vbyte32 k
    else read32 swapped pgoff k a (Some d) = Inr (- 1, Some d, k)"
proof (cases "reachable k a")
  case False
  then show ?thesis using resolve32_spec [OF ok mac, of a] by (simp add: read32_def)
next
  case True
  obtain k' where k': "resolve32 swapped k (PAGING_PGN a) = Inr (Some (entry k' (unat (PAGING_PGN a))), k')"
      "paging_ok k'" "same_view k k'" "entry k' (unat (PAGING_PGN a)) \<noteq> 0"
      "\<not> bit (entry k' (unat (PAGING_PGN a))) 30"
    using resolve32_spec [OF ok mac, of a] True by auto
  show ?thesis
    using True read_resolved [OF mac k'(1,2,4,5)] k'(2) same_view_vbyte [OF k'(3)] by simp
qed

text \<open>A byte of one slot of RAM is written: the other bytes of all slots stay.\<close>

lemma slot_update:
  assumes h: "home e = (False, f)" and i: "snd (home e) * 256 + y < length (storage (mram32 k))"
    and y: "y < 256" and x: "x < 256"
  shows "slot_byte (k\<lparr>mram32 := (mram32 k)\<lparr>storage := (storage (mram32 k))[snd (home e) * 256 + y := v]\<rparr>, mm_of := m\<rparr>) s x
    = (if s = home e \<and> x = y then v else slot_byte k s x)"
proof -
  have ix: "n * 256 + x = f * 256 + y \<longleftrightarrow> n = f \<and> x = y" for n
  proof
    assume eq: "n * 256 + x = f * 256 + y"
    then have "(n * 256 + x) div 256 = (f * 256 + y) div 256" by simp
    then have "n = f" using x y by simp
    then show "n = f \<and> x = y" using eq by simp
  qed simp
  obtain b n where s: "s = (b, n)" by (cases s)
  show ?thesis
  proof (cases "b \<or> n \<noteq> f \<or> x \<noteq> y")
    case True
    then have "b \<or> n * 256 + x \<noteq> f * 256 + y" using ix [of n] by blast
    then show ?thesis using True by (auto simp: slot_byte_def dev_def h s)
  next
    case False
    then show ?thesis using i by (simp add: slot_byte_def dev_def h s)
  qed
qed

lemma write32_spec:
  assumes ok: "paging_ok k" and mac: "macros32 swapped pgoff"
  shows "if reachable k a
    then \<exists>k'. write32 swapped pgoff k a v = Inr (0, k') \<and> paging_ok k'
      \<and> vbyte32 k' = (\<lambda>x. if take_bit 22 x = take_bit 22 a then Some v else vbyte32 k x)
    else write32 swapped pgoff k a v = Inr (- 1, k)"
proof (cases "reachable k a")
  case False
  then show ?thesis using resolve32_spec [OF ok mac, of a] by (simp add: write32_def)
next
  case True
  let ?p = "unat (PAGING_PGN a)"
  obtain k1 where k1: "resolve32 swapped k (PAGING_PGN a) = Inr (Some (entry k1 ?p), k1)" "paging_ok k1"
      "same_view k k1" "entry k1 ?p \<noteq> 0" "\<not> bit (entry k1 ?p) 30"
    using resolve32_spec [OF ok mac, of a] True by auto
  let ?e = "entry k1 ?p"
  note ad = phys_addr [OF k1(2) refl k1(4,5)]
  let ?c = "snd (home ?e) * 256 + unat (PAGING_OFFST a)"
  obtain mm where mm: "mm_of k1 = Some mm" "length (pgd32 mm) = PAGING_MAX_PGN"
    using paging_mm [OF k1(2)] by blast
  have en: "pgd32 mm ! ?p = ?e" using mm(1) by (simp add: entry_def)
  let ?ram = "(mram32 k1)\<lparr>storage := (storage (mram32 k1))[?c := v]\<rparr>"
  let ?k = "k1\<lparr>mram32 := ?ram, mm_of := Some (mm\<lparr>pgd32 := (pgd32 mm)[?p := SETBIT32 ?e PAGING_PTE_DIRTY_MASK]\<rparr>)\<rparr>"
  have "rdmflg (mram32 k1) \<noteq> 0" using paging_devs [OF k1(2), of False] by (simp add: dev32_ok_def dev_def)
  from MEMPHY_write_random [OF this] ad(1,2)
  have w: "write32 swapped pgoff k a v = Inr (0, ?k)"
    using k1(1) mac mm pgn_less [of a]
    by (simp add: write32_def Let_def macros32_def pte_get_entry32_def pte_set_entry32_def load32_def
        store32_def en)
  have e': "entry ?k q = (if q = ?p then SETBIT32 ?e PAGING_PTE_DIRTY_MASK else entry k1 q)" for q
    using mm pgn_less [of a] by (simp add: entry_def)
  have nz: "SETBIT32 ?e PAGING_PTE_DIRTY_MASK \<noteq> 0"
    using bit_nonzero [of _ 28] by (simp add: bit_dirty32)
  have sh: "shaped k1 ?k" by (simp add: shaped_def same_shape_def dev_def)
  have "paging_ok ?k"
  proof (rule relabel [OF k1(2) sh])
    show "mm_of ?k = Some (mm\<lparr>pgd32 := (pgd32 mm)[?p := SETBIT32 ?e PAGING_PTE_DIRTY_MASK]\<rparr>)" by simp
    show "fifo ?k = fifo k1" using mm by (simp add: fifo_def)
  qed (use mm nz k1(4) in \<open>auto simp: e' bit_dirty32\<close>)
  moreover have "vbyte32 ?k x = (if take_bit 22 x = take_bit 22 a then Some v else vbyte32 k1 x)" for x
  proof (cases "entry k1 (unat (PAGING_PGN x)) = 0")
    case True
    then have "PAGING_PGN x \<noteq> PAGING_PGN a" using k1(4) by auto
    then show ?thesis using True page_byte_eq [of x a]
      by (auto simp: vbyte32_def Let_def e' word_unat_eq_iff [symmetric])
  next
    case False
    let ?q = "unat (PAGING_PGN x)"
    have inj: "home (entry k1 ?q) = home ?e \<longleftrightarrow> PAGING_PGN x = PAGING_PGN a"
      using paging_inj [OF k1(2) pgn_less [of x] False pgn_less [of a] k1(4)]
      by (auto simp: word_unat_eq_iff [symmetric])
    have hk: "home (entry ?k ?q) = home (entry k1 ?q)" "entry ?k ?q \<noteq> 0"
      using False nz by (auto simp: e' word_unat_eq_iff [symmetric])
    have "slot_byte ?k (home (entry k1 ?q)) (unat (PAGING_OFFST x))
        = (if PAGING_PGN x = PAGING_PGN a \<and> PAGING_OFFST x = PAGING_OFFST a then v
           else slot_byte k1 (home (entry k1 ?q)) (unat (PAGING_OFFST x)))"
      unfolding slot_update [OF ad(3,2) offst_less offst_less]
      by (simp add: inj word_unat_eq_iff [symmetric])
    then show ?thesis using False hk page_byte_eq [of x a]
      by (simp add: vbyte32_def Let_def pbyte_def)
  qed
  ultimately show ?thesis using True w same_view_vbyte [OF k1(3)] by auto
qed

section \<open>Mapping a range\<close>

text \<open>An unmapped page gets a frame that is in hand; other frames in hand stay so.\<close>

definition mapped32 :: "krnl32 \<Rightarrow> u32 \<Rightarrow> u32 \<Rightarrow> krnl32" where
  "mapped32 k p f = (let mm = the (mm_of k)
     in k\<lparr>mm_of := Some (mm\<lparr>pgd32 := (pgd32 mm)[unat p := mark_fpn32 (entry k (unat p)) f],
          fifo_pgn32 := p # fifo k\<rparr>)\<rparr>)"

lemma mapped32_step:
  assumes ok: "paging_ok k" and p: "unat p < PAGING_MAX_PGN"
  shows "bindR (pte_set_fpn32 k p f) (\<lambda>(_, k). bindR (enlist32 k p) g) = g (mapped32 k p f)"
    and "entry (mapped32 k p f) q = (if q = unat p then mark_fpn32 (entry k (unat p)) f else entry k q)"
    and "fifo (mapped32 k p f) = p # fifo k" and "dev (mapped32 k p f) = dev k"
    and "mram32 (mapped32 k p f) = mram32 k"
proof -
  obtain mm where mm: "mm_of k = Some mm" "length (pgd32 mm) = PAGING_MAX_PGN"
    using paging_mm [OF ok] by blast
  show "bindR (pte_set_fpn32 k p f) (\<lambda>(_, k). bindR (enlist32 k p) g) = g (mapped32 k p f)"
    using mm p by (simp add: pte_set_fpn32_def load32_def store32_def enlist32_def enlist_pgn_node32_def
        mapped32_def entry_def fifo_def)
  show "entry (mapped32 k p f) q = (if q = unat p then mark_fpn32 (entry k (unat p)) f else entry k q)"
    using mm p by (simp add: mapped32_def entry_def)
  show "fifo (mapped32 k p f) = p # fifo k" by (simp add: mapped32_def fifo_def Let_def)
  show "dev (mapped32 k p f) = dev k" by (simp add: mapped32_def dev_def Let_def fun_eq_iff)
  show "mram32 (mapped32 k p f) = mram32 k" by (simp add: mapped32_def Let_def)
qed

lemma map_page:
  assumes ok: "paging_ok k" and p: "unat p < PAGING_MAX_PGN" "entry k (unat p) = 0"
    and hand: "in_hand k (False, unat f)"
  shows "paging_ok (mapped32 k p f)"
    and "in_hand k (False, n) \<Longrightarrow> n \<noteq> unat f \<Longrightarrow> in_hand (mapped32 k p f) (False, n)"
proof -
  note st = mapped32_step [OF ok p(1), of f]
  have f: "unat f < 2 ^ 13" using hand by (simp add: in_hand_def)
  have sl: "room (mapped32 k p f) s = room k s" "free_slots (mapped32 k p f) = free_slots k" for s
    by (simp_all add: room_def free_slots_def st(4))
  have new: "p \<notin> set (fifo k)" using paging_fifo [OF ok] p(2) by blast
  have nz: "mark_fpn32 0 f \<noteq> 0" by (rule bit_nonzero [OF marks_live(1)])
  have home_f: "home (entry k q) \<noteq> (False, unat f)" if "q < PAGING_MAX_PGN" "entry k q \<noteq> 0" for q
    using hand that by (simp add: in_hand_def)
  obtain mm where mm: "mm_of k = Some mm" "length (pgd32 mm) = PAGING_MAX_PGN"
    using paging_mm [OF ok] by blast
  show "paging_ok (mapped32 k p f)"
  proof (rule paging_okI)
    show "mm_of (mapped32 k p f) = Some (the (mm_of (mapped32 k p f)))"
      "length (pgd32 (the (mm_of (mapped32 k p f)))) = PAGING_MAX_PGN"
      using mm by (simp_all add: mapped32_def)
    show "dev32_ok (dev (mapped32 k p f) b) (if b then 2 ^ 21 else 2 ^ 13)" for b
      unfolding st(4) by (rule paging_devs [OF ok])
    show "bit (entry (mapped32 k p f) q) 31 \<and> room (mapped32 k p f) (home (entry (mapped32 k p f) q))
        \<and> home (entry (mapped32 k p f) q) \<notin> free_slots (mapped32 k p f)"
      if "q < PAGING_MAX_PGN" "entry (mapped32 k p f) q \<noteq> 0" for q
      using that paging_entry [OF ok that(1)] hand home_mark(1) [OF f] marks_live(1)
      by (auto simp: st(2) sl in_hand_def p(2))
    show "inj_on (\<lambda>q. home (entry (mapped32 k p f) q)) {q. q < PAGING_MAX_PGN \<and> entry (mapped32 k p f) q \<noteq> 0}"
    proof (rule inj_onI)
      fix q r
      assume q: "q \<in> {q. q < PAGING_MAX_PGN \<and> entry (mapped32 k p f) q \<noteq> 0}"
        and r: "r \<in> {q. q < PAGING_MAX_PGN \<and> entry (mapped32 k p f) q \<noteq> 0}"
        and eq: "home (entry (mapped32 k p f) q) = home (entry (mapped32 k p f) r)"
      show "q = r"
        using q r eq home_f [of q] home_f [of r] paging_inj [OF ok, of q r] home_mark(1) [OF f]
        by (cases "q = unat p"; cases "r = unat p") (auto simp: st(2) p(2))
    qed
    show "distinct (fifo (mapped32 k p f))" using ok new by (simp add: paging_ok_def st(3))
    show "unat q < PAGING_MAX_PGN \<and> entry (mapped32 k p f) (unat q) \<noteq> 0 \<and> \<not> bit (entry (mapped32 k p f) (unat q)) 30"
      if "q \<in> set (fifo (mapped32 k p f))" for q
      using that paging_fifo [OF ok, of q] p(1) nz by (auto simp: st(2,3) p(2) word_unat_eq_iff [symmetric])
  qed
  show "in_hand (mapped32 k p f) (False, n)" if "in_hand k (False, n)" "n \<noteq> unat f"
    using that home_mark(1) [OF f] by (auto simp: in_hand_def sl st(2) p(2))
qed

lemma vmap_loop32_spec:
  assumes "paging_ok k" and "n = length fs" and "unat p + i + n \<le> PAGING_MAX_PGN"
    and "\<forall>j < n. entry k (unat p + i + j) = 0"
    and "distinct fs" and "\<forall>f \<in> set fs. in_hand k (False, unat f)"
  shows "\<exists>k'. vmap_loop32 n i k p fs = Inr k' \<and> paging_ok k' \<and> dev k' = dev k
    \<and> (\<forall>j < n. entry k' (unat p + i + j) = mark_fpn32 0 (fs ! j))
    \<and> (\<forall>q. q < unat p + i \<or> unat p + i + n \<le> q \<longrightarrow> entry k' q = entry k q)
    \<and> fifo k' = rev (map (\<lambda>j. p + of_nat (i + j)) [0..<n]) @ fifo k"
  using assms
proof (induction n arbitrary: i k fs)
  case 0
  then show ?case by simp
next
  case (Suc n)
  obtain f gs where fs: "fs = f # gs" using Suc.prems(2) by (cases fs) auto
  have "PAGING_MAX_PGN < 2 ^ 32" by (simp add: PAGING_MAX_PGN_def PAGING_CPU_BUS_WIDTH_def PAGING_PAGESZ_def)
  then have u: "unat (p + of_nat i) = unat p + i"
    using Suc.prems(3) by (simp add: unat_word_ariths unat_of_nat)
  have pg: "unat (p + of_nat i) < PAGING_MAX_PGN" "entry k (unat (p + of_nat i)) = 0"
    using Suc.prems(3) Suc.prems(4) [rule_format, of 0] u by simp_all
  have hf: "in_hand k (False, unat f)" using Suc.prems(6) fs by simp
  let ?k = "mapped32 k (p + of_nat i) f"
  note st = mapped32_step [OF Suc.prems(1) pg(1), of f]
  have hands: "\<forall>g \<in> set gs. in_hand ?k (False, unat g)"
  proof
    fix g assume g: "g \<in> set gs"
    then have "unat g \<noteq> unat f" "in_hand k (False, unat g)"
      using Suc.prems(5,6) fs by (auto simp: word_unat_eq_iff [symmetric])
    then show "in_hand ?k (False, unat g)" by (rule map_page(2) [OF Suc.prems(1) pg hf, rotated])
  qed
  have zero: "\<forall>j < n. entry ?k (unat p + Suc i + j) = 0"
  proof (intro allI impI)
    fix j assume "j < n"
    then show "entry ?k (unat p + Suc i + j) = 0"
      using Suc.prems(4) [rule_format, of "Suc j"] by (simp add: st(2) u)
  qed
  have "n = length gs" "unat p + Suc i + n \<le> PAGING_MAX_PGN" "distinct gs"
    using Suc.prems(2,3,5) fs by simp_all
  from Suc.IH [OF map_page(1) [OF Suc.prems(1) pg hf] this(1,2) zero this(3) hands]
  obtain k' where k': "vmap_loop32 n (Suc i) ?k p gs = Inr k'" "paging_ok k'" "dev k' = dev ?k"
    "\<forall>j < n. entry k' (unat p + Suc i + j) = mark_fpn32 0 (gs ! j)"
    "\<forall>q. q < unat p + Suc i \<or> unat p + Suc i + n \<le> q \<longrightarrow> entry k' q = entry ?k q"
    "fifo k' = rev (map (\<lambda>j. p + of_nat (Suc i + j)) [0..<n]) @ fifo ?k"
    by blast
  have loop: "vmap_loop32 (Suc n) i k p fs = Inr k'" using k'(1) by (simp add: fs st(1))
  have set: "\<forall>j < Suc n. entry k' (unat p + i + j) = mark_fpn32 0 (fs ! j)"
  proof (intro allI impI)
    fix j assume j: "j < Suc n"
    show "entry k' (unat p + i + j) = mark_fpn32 0 (fs ! j)"
    proof (cases j)
      case 0
      then show ?thesis using k'(5) [rule_format, of "unat p + i"] pg(2) by (simp add: st(2) u fs)
    next
      case (Suc l)
      then show ?thesis using k'(4) [rule_format, of l] j by (simp add: fs)
    qed
  qed
  have rest: "\<forall>q. q < unat p + i \<or> unat p + i + Suc n \<le> q \<longrightarrow> entry k' q = entry k q"
  proof (intro allI impI)
    fix q assume q: "q < unat p + i \<or> unat p + i + Suc n \<le> q"
    then have "entry k' q = entry ?k q" by (intro k'(5) [rule_format]) linarith
    then show "entry k' q = entry k q" using q by (auto simp: st(2) u)
  qed
  have "fifo k' = rev (map (\<lambda>j. p + of_nat (i + j)) [0..<Suc n]) @ fifo k"
    unfolding k'(6) st(3) upt_conv_Cons [OF zero_less_Suc] map_Suc_upt [symmetric] by simp
  then show ?case using k'(2,3) st(4) loop set rest by (intro exI [of _ k']) simp
qed

context frame_pool begin

text \<open>The pushing loop of \<open>mm.c\<close> returns the frames of the common loop in reverse, or fails with all
  of them taken.\<close>

lemma push_frames_eq:
  "push_frames get n m head = bindR (take_frames get n m) (\<lambda>(ok, fs, m).
     Inr (if ok then Some (rev fs @ head) else None, m))"
  by (induction n arbitrary: m head) (auto simp: bindR_def split: sum.split option.split)

lemma push_frames_short:
  assumes "inv m" and "length (free m) < n"
  shows "\<exists>m'. push_frames get n m [] = Inr (None, m') \<and> inv m' \<and> free m' = [] \<and> frame m' = frame m"
  using take_frames_short [OF assms] by (auto simp: push_frames_eq)

end

lemma push_frames_lift:
  "push_frames get_freefp32 n d head = bindR (take_frames MEMPHY_get_freefp n d) (\<lambda>(ok, fs, d).
     Inr (if ok then Some (rev (map ucast fs) @ head) else None, d))"
  by (induction n arbitrary: d head)
    (auto simp: get_freefp32_def bindR_def split: sum.split option.split)

lemma vm_map_range_spec:
  assumes ok: "paging_ok k" and n: "nat (sint cnt) \<le> length (frees k False)"
    and pg: "unat (PAGING_PGN m) + nat (sint cnt) \<le> PAGING_MAX_PGN"
    and new: "\<forall>j < nat (sint cnt). entry k (unat (PAGING_PGN m) + j) = 0"
  shows "\<exists>k'. vm_map_range k s e m cnt rg
      = Inr (0, \<lparr>rg32_start = m, rg32_end = m + cnt * 256, \<dots> = rg32.more rg\<rparr>, k')
    \<and> paging_ok k' \<and> frees k' = (frees k)(False := drop (nat (sint cnt)) (frees k False))
    \<and> (\<forall>j < nat (sint cnt). entry k' (unat (PAGING_PGN m) + j)
          = mark_fpn32 0 (ucast (frees k False ! (nat (sint cnt) - 1 - j))))
    \<and> (\<forall>q. q < unat (PAGING_PGN m) \<or> unat (PAGING_PGN m) + nat (sint cnt) \<le> q \<longrightarrow> entry k' q = entry k q)
    \<and> (\<forall>a. vbyte32 k a \<noteq> None \<longrightarrow> vbyte32 k' a = vbyte32 k a)"
proof -
  let ?n = "nat (sint cnt)" and ?p = "PAGING_PGN m"
  have pool: "pool_ok (mram32 k)" using paging_devs [OF ok, of False] by (simp add: dev32_ok_def dev_def)
  have fk: "frees k False = free_frames (mram32 k)" by (simp add: frees_def dev_def)
  obtain d where d: "take_frames MEMPHY_get_freefp ?n (mram32 k) = Inr (True, take ?n (frees k False), d)"
      "pool_ok d" "free_frames d = drop ?n (frees k False)" "device_core d = device_core (dev k False)"
    using fpool.take_frames_enough [OF pool, of ?n] n by (auto simp: fk dev_def)
  let ?k = "set_dev32 k False d"
  note sh = shrink_free [OF ok d(2-4)]
  let ?fs = "rev (map ucast (take ?n (frees k False))) :: u32 list"
  have dist: "distinct (take ?n (frees k False))"
    using paging_devs [OF ok, of False] by (simp add: dev32_ok_def frees_def)
  have "inj_on (ucast :: u64 \<Rightarrow> u32) (set (take ?n (frees k False)))"
  proof (rule inj_onI)
    fix x y assume "x \<in> set (take ?n (frees k False))" "y \<in> set (take ?n (frees k False))"
      "(ucast x :: u32) = ucast y"
    then have "unat x = unat y" using sh(3) by metis
    then show "x = y" by (simp add: word_unat_eq_iff)
  qed
  then have fs: "distinct ?fs" "\<forall>f \<in> set ?fs. in_hand ?k (False, unat f)" "length ?fs = ?n"
    using dist sh(3) n by (auto simp: distinct_map)
  obtain k' where k': "vmap_loop32 ?n 0 ?k ?p ?fs = Inr k'" "paging_ok k'" "dev k' = dev ?k"
    "\<forall>j < ?n. entry k' (unat ?p + j) = mark_fpn32 0 (?fs ! j)"
    "\<forall>q. q < unat ?p \<or> unat ?p + ?n \<le> q \<longrightarrow> entry k' q = entry ?k q"
    using vmap_loop32_spec [OF sh(1) fs(3) [symmetric], of ?p 0] fs(1,2) pg new by auto
  have al: "alloc_pages_range32 k cnt [] = Inr (0, ?fs, ?k)"
    using d(1) by (simp add: alloc_pages_range32_def push_frames_lift set_dev32_def)
  have "vm_map_range k s e m cnt rg
      = Inr (0, \<lparr>rg32_start = m, rg32_end = m + cnt * 256, \<dots> = rg32.more rg\<rparr>, k')"
    using k'(1) by (simp add: vm_map_range_def al vmap_page_range32_def Let_def PAGING_PAGESZ_def)
  moreover have "?fs ! j = ucast (frees k False ! (?n - 1 - j))" if "j < ?n" for j
    using that n by (simp add: rev_nth)
  moreover have "frees k' = (frees k)(False := drop ?n (frees k False))"
    using d(3) k'(3) by (simp add: frees_def fun_eq_iff)
  moreover have "vbyte32 k' a = vbyte32 k a" if a: "vbyte32 k a \<noteq> None" for a
  proof -
    have e: "entry k (unat (PAGING_PGN a)) \<noteq> 0" using a by (auto simp: vbyte32_def Let_def)
    have "entry k' (unat (PAGING_PGN a)) = entry k (unat (PAGING_PGN a))"
    proof (cases "unat (PAGING_PGN a) < unat ?p \<or> unat ?p + ?n \<le> unat (PAGING_PGN a)")
      case True
      from k'(5) [rule_format, OF True] show ?thesis by simp
    next
      case False
      then have "entry k (unat ?p + (unat (PAGING_PGN a) - unat ?p)) = 0"
        by (intro new [rule_format]) linarith
      then show ?thesis using e False by simp
    qed
    moreover have "storage (dev k' b) = storage (dev k b)" for b
      using d(4) k'(3) by (simp add: device_core_def)
    ultimately show ?thesis by (simp add: vbyte32_def pbyte_def slot_byte_def Let_def)
  qed
  ultimately show ?thesis using k'(2,4,5) by (intro exI [of _ k']) simp
qed

end
