(* ===== verification/OS_Access32.thy ===== *)
theory OS_Access32
  imports OS_Paging32
begin

text \<open>
  The properties of \<open>mm.c\<close>: byte accesses over swapping pages are reads and updates of a map of
  bytes, what mapping a range does with and without enough frames, how swapping loses swap
  frames, and the equivalence of the flat page table with the five-level table of \<open>mm64.c\<close>.
\<close>

section \<open>A fresh kernel\<close>

definition blank_mm32 :: mm32 where
  "blank_mm32 = \<lparr>pgd32 = [], mmap32 = [], symrgtbl32 = [], fifo_pgn32 = []\<rparr>"

definition fresh32 :: "u64 \<Rightarrow> u64 \<Rightarrow> krnl32" where
  "fresh32 ramsz swpsz = \<lparr>mm_of = Some (snd (init_mm32 blank_mm32)),
     mram32 = snd (init_memphy blank_device ramsz 1), mswp0 = snd (init_memphy blank_device swpsz 1)\<rparr>"

lemma fresh_device:
  assumes sz: "512 \<le> unat sz" "unat sz \<le> 256 * m" "m \<le> 2 ^ 21"
  shows "dev32_ok (snd (init_memphy mp sz 1)) m"
    and "free_frames (snd (init_memphy mp sz 1)) = map of_nat [0..<unat sz div 256]"
proof -
  let ?d = "snd (init_memphy mp sz 1)"
  obtain n where n_eq: "unat sz div 256 = n" by blast
  have s31: "unat sz < 2 ^ 31" using sz(2,3) by simp
  have n: "2 \<le> n" "n \<le> m" "n * 256 \<le> unat sz"
    using div_le_mono [OF sz(1), of 256] div_le_mono [OF sz(2), of 256] unfolding n_eq
    by (simp_all add: n_eq [symmetric])
  have small: "i < 2 ^ 64" if "i < n" for i using that n(2) sz(3) by simp
  have fl: "free_fp_list ?d = Fp_node 0 (format_rest 1 (n - 1))"
    using n s31 by (simp add: init_memphy_fields Let_def PAGING_PAGESZ_def n_eq)
  have "(0 :: u64) # map of_nat [1..<n] = map of_nat [0..<n]" using n(1) by (simp add: upt_conv_Cons)
  then have ff: "free_frames ?d = map of_nat [0..<n]" using n(1) by (simp add: free_frames_def fl)
  then show "free_frames ?d = map of_nat [0..<unat sz div 256]" by (simp only: n_eq)
  have u: "unat (of_nat i :: u64) = i" if "i < n" for i using small [OF that] by (simp add: unat_of_nat)
  have di: "distinct (map (of_nat :: nat \<Rightarrow> u64) [0..<n])"
  proof (subst distinct_map, intro conjI inj_onI)
    fix i j assume ij: "i \<in> set [0..<n]" "j \<in> set [0..<n]" and eq: "(of_nat i :: u64) = of_nat j"
    have "unat (of_nat i :: u64) = i" "unat (of_nat j :: u64) = j" using ij by (auto intro: u)
    then show "i = j" unfolding eq by (rule subst)
  qed simp
  have bnd: "unat f < m \<and> (unat f + 1) * 256 \<le> unat sz" if f: "f \<in> set (map (of_nat :: nat \<Rightarrow> u64) [0..<n])" for f
  proof -
    obtain i where i: "f = of_nat i" "i < n" using f by auto
    then have "(i + 1) * 256 \<le> n * 256" by (intro mult_le_mono1) simp
    then show ?thesis using i n u by simp
  qed
  have "length (storage ?d) = unat sz" "rdmflg ?d = 1" using s31 by (simp_all add: init_memphy_fields)
  moreover have "pool_ok ?d" by (simp add: pool_ok_def fl)
  ultimately show "dev32_ok ?d m" unfolding dev32_ok_def ff using di bnd s31 by simp
qed

lemma fresh32_ok:
  assumes "512 \<le> unat ramsz" "unat ramsz \<le> 2 ^ 21" "512 \<le> unat swpsz" "unat swpsz \<le> 2 ^ 29"
  shows "paging_ok (fresh32 ramsz swpsz)"
    and "frees (fresh32 ramsz swpsz) False = map of_nat [0..<unat ramsz div 256]"
    and "p < PAGING_MAX_PGN \<Longrightarrow> entry (fresh32 ramsz swpsz) p = 0"
proof -
  let ?k = "fresh32 ramsz swpsz"
  have mm: "mm_of ?k = Some (snd (init_mm32 blank_mm32))"
      "length (pgd32 (snd (init_mm32 blank_mm32))) = PAGING_MAX_PGN" "fifo ?k = []"
    by (simp_all add: fresh32_def init_mm32_def Let_def fifo_def)
  have e: "entry ?k q = 0" if "q < PAGING_MAX_PGN" for q
    using that by (simp add: entry_def fresh32_def init_mm32_def Let_def)
  have d: "dev ?k b = snd (init_memphy blank_device (if b then swpsz else ramsz) 1)" for b
    by (simp add: dev_def fresh32_def)
  show "paging_ok ?k"
    using fresh_device(1) [of ramsz "2 ^ 13" blank_device] fresh_device(1) [of swpsz "2 ^ 21" blank_device] assms
    by (intro paging_okI [OF mm(1,2)] inj_onI) (auto simp: mm(3) e d)
  show "frees ?k False = map of_nat [0..<unat ramsz div 256]"
    using fresh_device(2) [of ramsz "2 ^ 13" blank_device] assms by (simp add: frees_def d)
  show "p < PAGING_MAX_PGN \<Longrightarrow> entry ?k p = 0" by (rule e)
qed

text \<open>The two macros as their names suggest, for the examples.\<close>

definition swapped_demo :: "u32 \<Rightarrow> bool" where
  "swapped_demo pte \<longleftrightarrow> pte AND PAGING_PTE_SWAPPED_MASK \<noteq> 0"

lemma macros_demo: "macros32 swapped_demo PAGING_OFFST"
  by (simp add: macros32_def swapped_demo_def)

text \<open>A kernel with one RAM frame and two swap frames: page 0 is resident and holds ones, page 1
  is swapped and holds twos.\<close>

definition full32 :: krnl32 where
  "full32 = \<lparr>mm_of = Some \<lparr>pgd32 = (replicate PAGING_MAX_PGN 0)[0 := mark_fpn32 0 0, 1 := mark_swap32 0 0 0],
       mmap32 = [], symrgtbl32 = [], fifo_pgn32 = [0]\<rparr>,
     mram32 = \<lparr>storage = replicate 256 1, maxsz = 256, rdmflg = 1, cursor = 0,
       free_fp_list = Fp_null, used_fp_list = [0]\<rparr>,
     mswp0 = \<lparr>storage = replicate 256 2 @ replicate 256 0, maxsz = 512, rdmflg = 1, cursor = 0,
       free_fp_list = Fp_node 1 Fp_null, used_fp_list = [0]\<rparr>\<rparr>"

lemma max_pgn [simp]: "PAGING_MAX_PGN = 16384"
  by (simp add: PAGING_MAX_PGN_def PAGING_CPU_BUS_WIDTH_def PAGING_PAGESZ_def)

lemma full32_entry: "p < PAGING_MAX_PGN \<Longrightarrow> entry full32 p =
    (if p = 0 then mark_fpn32 0 0 else if p = 1 then mark_swap32 0 0 0 else 0)"
  by (simp add: entry_def full32_def)

lemma full32_ok: "paging_ok full32"
proof (rule paging_okI)
  have h: "home (mark_fpn32 0 0) = (False, 0)" "home (mark_swap32 0 0 0) = (True, 0)"
    using home_mark(1) [of 0 0] home_mark(2) [of 0 0 0] by simp_all
  show "mm_of full32 = Some (the (mm_of full32))" "length (pgd32 (the (mm_of full32))) = PAGING_MAX_PGN"
    by (simp_all add: full32_def)
  show "dev32_ok (dev full32 b) (if b then 2 ^ 21 else 2 ^ 13)" for b
    by (simp add: full32_def dev_def dev32_ok_def pool_ok_def free_frames_def)
  show "bit (entry full32 p) 31 \<and> room full32 (home (entry full32 p)) \<and> home (entry full32 p) \<notin> free_slots full32"
    if "p < PAGING_MAX_PGN" "entry full32 p \<noteq> 0" for p
    using that(2) unfolding full32_entry [OF that(1)]
    by (auto simp: h room_def free_slots_def dev_def full32_def free_frames_def split: if_splits)
  show "inj_on (\<lambda>p. home (entry full32 p)) {p. p < PAGING_MAX_PGN \<and> entry full32 p \<noteq> 0}"
    by (rule inj_onI) (auto simp: full32_entry h split: if_splits)
  show "distinct (fifo full32)" by (simp add: full32_def fifo_def)
  show "unat q < PAGING_MAX_PGN \<and> entry full32 (unat q) \<noteq> 0 \<and> \<not> bit (entry full32 (unat q)) 30"
    if "q \<in> set (fifo full32)" for q
    using that bit_nonzero [OF marks_live(1)] by (simp add: full32_def fifo_def entry_def)
qed

section \<open>Accesses\<close>

text \<open>A sequence of accesses: a read into a byte that holds \<open>0\<close>, or a write.  Each gives its
  return code and, for a read, the byte.\<close>

datatype access32 = Rd u32 | Wr u32 u8

fun accesses ::
  "(u32 \<Rightarrow> bool) \<Rightarrow> (u32 \<Rightarrow> u32) \<Rightarrow> krnl32 \<Rightarrow> access32 list \<Rightarrow> fault + (int \<times> u8 option) list \<times> krnl32" where
  "accesses swapped pgoff k [] = Inr ([], k)"
| "accesses swapped pgoff k (a # as) =
     bindR (case a of
              Rd x \<Rightarrow> bindR (read32 swapped pgoff k x (Some 0)) (\<lambda>(r, d, k). Inr ((r, d), k))
            | Wr x v \<Rightarrow> bindR (write32 swapped pgoff k x v) (\<lambda>(r, k). Inr ((r, None), k))) (\<lambda>(r, k).
     bindR (accesses swapped pgoff k as) (\<lambda>(rs, k). Inr (r # rs, k)))"

text \<open>The specification: a partial map of bytes, in which addresses are compared on their 22 bits.
  An access that is refused leaves it alone.\<close>

inductive byte_run :: "(u32 \<Rightarrow> u8 option) \<Rightarrow> access32 list \<Rightarrow> (int \<times> u8 option) list \<Rightarrow> (u32 \<Rightarrow> u8 option) \<Rightarrow> bool" where
  Done: "byte_run m [] [] m"
| Refused_read: "byte_run m as rs m' \<Longrightarrow> byte_run m (Rd x # as) ((- 1, Some 0) # rs) m'"
| Refused_write: "byte_run m as rs m' \<Longrightarrow> byte_run m (Wr x v # as) ((- 1, None) # rs) m'"
| Read: "m x = Some v \<Longrightarrow> byte_run m as rs m' \<Longrightarrow> byte_run m (Rd x # as) ((0, Some v) # rs) m'"
| Write: "m x \<noteq> None \<Longrightarrow>
    byte_run (\<lambda>y. if take_bit 22 y = take_bit 22 x then Some v else m y) as rs m' \<Longrightarrow>
    byte_run m (Wr x v # as) ((0, None) # rs) m'"

text \<open>C9: the accesses of \<open>mm.c\<close> refine a map of bytes: on well-formed page tables and devices, any
  sequence of \<open>__read\<close> and \<open>__write\<close> runs without a fault, keeps the invariant, and returns what
  the same accesses on a plain partial map of bytes return, although pages are evicted to the
  swap device and brought back along the way.\<close>

theorem paged_memory_refines_bytes:
  assumes "paging_ok k" and "macros32 swapped pgoff"
  shows "\<exists>rs k'. accesses swapped pgoff k as = Inr (rs, k') \<and> paging_ok k'
    \<and> byte_run (vbyte32 k) as rs (vbyte32 k')"
  using assms(1)
proof (induction as arbitrary: k)
  case Nil
  then show ?case by (auto intro: byte_run.Done)
next
  case (Cons a as)
  have mapped: "reachable k x \<Longrightarrow> vbyte32 k x \<noteq> None" for x by (simp add: reachable_def vbyte32_def Let_def)
  show ?case
  proof (cases a)
    case (Rd x)
    then show ?thesis
      using read32_spec [OF Cons.prems assms(2), of x 0] Cons.IH Cons.prems mapped [of x]
      by (cases "reachable k x") (fastforce intro: byte_run.Refused_read byte_run.Read)+
  next
    case (Wr x v)
    then show ?thesis
      using write32_spec [OF Cons.prems assms(2), of x v] Cons.IH Cons.prems mapped [of x]
      by (cases "reachable k x") (fastforce intro: byte_run.Refused_write byte_run.Write)+
  qed
qed

theorem paged_memory_refines_bytes_witness:
  "\<exists>rs k'. accesses swapped_demo PAGING_OFFST full32 [Rd 256, Wr 257 9, Rd 257, Rd 0] = Inr (rs, k')
    \<and> paging_ok k' \<and> byte_run (vbyte32 full32) [Rd 256, Wr 257 9, Rd 257, Rd 0] rs (vbyte32 k')"
  by (rule paged_memory_refines_bytes [OF full32_ok macros_demo])

text \<open>C10: one access of \<open>mm.c\<close>.  It is refused (\<open>-1\<close>, nothing changes) exactly when the page was
  never mapped, or is swapped while RAM is full and nothing can be evicted.  Otherwise a read
  returns the byte of that address and a write changes the bytes with the same 22 address bits
  and no other byte, wherever the pages are afterwards.\<close>

theorem access32_correct:
  assumes "paging_ok k" and "macros32 swapped pgoff"
  shows "(if vbyte32 k a = None \<or> bit (entry k (unat (PAGING_PGN a))) 30 \<and> \<not> can_load k
      then read32 swapped pgoff k a (Some d) = Inr (- 1, Some d, k)
        \<and> write32 swapped pgoff k a v = Inr (- 1, k)
      else (\<exists>k'. read32 swapped pgoff k a (Some d) = Inr (0, vbyte32 k a, k') \<and> vbyte32 k' = vbyte32 k)
        \<and> (\<exists>k'. write32 swapped pgoff k a v = Inr (0, k')
            \<and> vbyte32 k' = (\<lambda>x. if take_bit 22 x = take_bit 22 a then Some v else vbyte32 k x)))
    \<and> read32 swapped pgoff k a None = Inr (- 1, None, k)"
proof -
  have "vbyte32 k a = None \<or> bit (entry k (unat (PAGING_PGN a))) 30 \<and> \<not> can_load k \<longleftrightarrow> \<not> reachable k a"
    by (auto simp: reachable_def vbyte32_def Let_def)
  then show ?thesis
    using read32_spec [OF assms, of a d] write32_spec [OF assms, of a v]
    by (cases "reachable k a") (auto simp: read32_def)
qed

lemma full32_facts:
  "vbyte32 full32 256 = Some 2" "bit (entry full32 (unat (PAGING_PGN 256))) 30" "can_load full32"
  "frees full32 False = []" "frees full32 True = [1]"
proof -
  have pg: "PAGING_PGN 256 = 1" "PAGING_OFFST 256 = 0" by code_simp+
  have e: "entry full32 (Suc 0) = mark_swap32 0 0 0" using full32_entry [of 1] by simp
  show "bit (entry full32 (unat (PAGING_PGN 256))) 30" by (simp add: pg e)
  show "vbyte32 full32 256 = Some 2"
  proof -
    have "slot_byte full32 (True, 0) 0 = 2" by (simp add: slot_byte_def dev_def full32_def nth_append)
    then show ?thesis using bit_nonzero [OF marks_live(2)] home_mark(2) [of 0 0 0]
      by (simp add: vbyte32_def pg e pbyte_def)
  qed
  show "can_load full32" by (simp add: can_load_def full32_def fifo_def free_frames_def)
  show "frees full32 False = []" "frees full32 True = [1]"
    by (simp_all add: frees_def dev_def full32_def free_frames_def)
qed

theorem access32_correct_witness:
  "\<exists>k'. read32 swapped_demo PAGING_OFFST full32 256 (Some 0) = Inr (0, Some 2, k') \<and> vbyte32 k' = vbyte32 full32"
  using access32_correct [OF full32_ok macros_demo, of 256 0 0] full32_facts by auto

text \<open>Swap frames are lost.  When RAM is full and a swapped page is read, the read succeeds,
  the evicted page takes a swap frame off the free list, and the swap frame the page came
  from is afterwards neither on the free list nor the home of any page.\<close>

theorem swap_frames_lost:
  assumes "paging_ok k" and "macros32 swapped pgoff"
    and "bit (entry k (unat (PAGING_PGN a))) 30" and "frees k False = []" and "can_load k"
  shows "\<exists>k'. read32 swapped pgoff k a (Some d) = Inr (0, vbyte32 k a, k') \<and> paging_ok k'
    \<and> frees k' False = [] \<and> frees k True \<noteq> [] \<and> frees k' True = tl (frees k True)
    \<and> home (entry k (unat (PAGING_PGN a))) \<notin> free_slots k'
    \<and> (\<forall>p < PAGING_MAX_PGN. entry k' p \<noteq> 0 \<longrightarrow> home (entry k' p) \<noteq> home (entry k (unat (PAGING_PGN a))))"
proof -
  have nz: "entry k (unat (PAGING_PGN a)) \<noteq> 0" using assms(3) by (rule bit_nonzero)
  obtain k' where k': "resolve32 swapped k (PAGING_PGN a) = Inr (Some (entry k' (unat (PAGING_PGN a))), k')"
      "paging_ok k'" "same_view k k'" "\<not> bit (entry k' (unat (PAGING_PGN a))) 30"
      "in_hand k' (home (entry k (unat (PAGING_PGN a))))" "frees k' = (frees k)(True := tl (frees k True))"
    using resolve_swapped [OF assms(1,2) pgn_less nz assms(3)] assms(4,5) by (auto simp: Let_def)
  have "entry k' (unat (PAGING_PGN a)) \<noteq> 0" using k'(3) nz pgn_less [of a] by (simp add: same_view_def)
  from read_resolved [OF assms(2) k'(1,2) this k'(4)] same_view_vbyte [OF k'(3)]
  have "read32 swapped pgoff k a (Some d) = Inr (0, vbyte32 k a, k')" by simp
  then show ?thesis
    using k'(2,5,6) assms(4,5)
    by (intro exI [of _ k']) (auto simp: in_hand_def can_load_def frees_def dev_def)
qed

theorem swap_frames_lost_witness:
  "\<exists>k'. read32 swapped_demo PAGING_OFFST full32 256 (Some 0) = Inr (0, Some 2, k') \<and> \<not> can_load k'"
  using swap_frames_lost [OF full32_ok macros_demo full32_facts(2,4,3), of 0] full32_facts(1,5)
  by (auto simp: can_load_def frees_def dev_def)

section \<open>Mapping\<close>

text \<open>C25: \<open>vm_map_range\<close> of \<open>mm.c\<close> with enough free frames on unmapped pages: it returns 0 and the
  region, page \<open>j\<close> of the range gets the frame \<open>n - 1 - j\<close> of the free list (the list is built
  backwards), no other entry and no byte that was accessible changes, and the invariant of the
  paged memory holds again.\<close>

theorem vm_map_range_maps:
  assumes "paging_ok k" and "nat (sint cnt) \<le> length (frees k False)"
    and "unat (PAGING_PGN m) + nat (sint cnt) \<le> PAGING_MAX_PGN"
    and "\<forall>j < nat (sint cnt). entry k (unat (PAGING_PGN m) + j) = 0"
  shows "\<exists>k'. vm_map_range k s e m cnt rg
      = Inr (0, \<lparr>rg32_start = m, rg32_end = m + cnt * 256, \<dots> = rg32.more rg\<rparr>, k')
    \<and> paging_ok k' \<and> frees k' = (frees k)(False := drop (nat (sint cnt)) (frees k False))
    \<and> (\<forall>j < nat (sint cnt). entry k' (unat (PAGING_PGN m) + j)
          = mark_fpn32 0 (ucast (frees k False ! (nat (sint cnt) - 1 - j))))
    \<and> (\<forall>q. q < unat (PAGING_PGN m) \<or> unat (PAGING_PGN m) + nat (sint cnt) \<le> q \<longrightarrow> entry k' q = entry k q)
    \<and> (\<forall>a. vbyte32 k a \<noteq> None \<longrightarrow> vbyte32 k' a = vbyte32 k a)"
  by (rule vm_map_range_spec [OF assms])

theorem vm_map_range_maps_witness:
  "\<exists>k'. vm_map_range (fresh32 1024 512) 512 1024 512 2 \<lparr>rg32_start = 0, rg32_end = 0\<rparr>
      = Inr (0, \<lparr>rg32_start = 512, rg32_end = 1024\<rparr>, k')
    \<and> entry k' 2 = mark_fpn32 0 1 \<and> entry k' 3 = mark_fpn32 0 0 \<and> frees k' False = [2, 3]"
proof -
  have f: "frees (fresh32 1024 512) False = [0, 1, 2, 3]"
    using fresh32_ok(2) [of 1024 512] by (simp add: upt_rec)
  have pg: "unat (PAGING_PGN 512) = 2" "nat (sint (2 :: i32)) = 2" by code_simp+
  have sz: "512 \<le> unat (1024 :: u64)" "unat (1024 :: u64) \<le> 2 ^ 21" "512 \<le> unat (512 :: u64)"
    "unat (512 :: u64) \<le> 2 ^ 29" by simp_all
  have e0: "\<forall>j < nat (sint (2 :: i32)). entry (fresh32 1024 512) (unat (PAGING_PGN 512) + j) = 0"
    by (simp add: pg fresh32_ok(3) [OF sz])
  have n: "nat (sint (2 :: i32)) \<le> length (frees (fresh32 1024 512) False)"
    "unat (PAGING_PGN 512) + nat (sint (2 :: i32)) \<le> PAGING_MAX_PGN" by (simp_all add: f pg)
  obtain k' where k': "vm_map_range (fresh32 1024 512) 512 1024 512 2 \<lparr>rg32_start = 0, rg32_end = 0\<rparr>
      = Inr (0, \<lparr>rg32_start = 512, rg32_end = 512 + 2 * 256\<rparr>, k')"
    "frees k' = (frees (fresh32 1024 512))(False := drop 2 (frees (fresh32 1024 512) False))"
    "\<forall>j < 2. entry k' (2 + j) = mark_fpn32 0 (ucast (frees (fresh32 1024 512) False ! (2 - 1 - j)))"
    using vm_map_range_maps [OF fresh32_ok(1) [OF sz] n e0, of 512 1024 "\<lparr>rg32_start = 0, rg32_end = 0\<rparr>"]
    unfolding pg by auto
  show ?thesis
    using k'(1,2) k'(3) [rule_format, of 0] k'(3) [rule_format, of 1] by (simp add: f)
qed

text \<open>\<open>vm_map_range\<close> of \<open>mm.c\<close> with too few free frames: it still returns 0 and the whole
  region, but no page is mapped (the page table is unchanged), and all remaining frames have
  been taken off the free list.\<close>

theorem vm_map_range_out_of_frames:
  assumes "pool_ok (mram32 k)" and "length (frees k False) < nat (sint cnt)"
    and "mm_of k \<noteq> None"
  shows "\<exists>k'. vm_map_range k s e m cnt rg
      = Inr (0, \<lparr>rg32_start = m, rg32_end = m + cnt * 256, \<dots> = rg32.more rg\<rparr>, k')
    \<and> mm_of k' = mm_of k \<and> mswp0 k' = mswp0 k \<and> frees k' False = []"
proof -
  have "length (map ucast (free_frames (mram32 k)) :: u32 list) < nat (sint cnt)"
    using assms(2) by (simp add: frees_def dev_def)
  from fpool32.push_frames_short [OF assms(1) this]
  obtain d where d: "push_frames get_freefp32 (nat (sint cnt)) (mram32 k) [] = Inr (None, d)"
      "free_frames d = []" by auto
  have "vmap_loop32 n i k' p [] = Inr k'" for n i k' p by (cases n) simp_all
  then show ?thesis
    using d by (simp add: vm_map_range_def alloc_pages_range32_def vmap_page_range32_def Let_def
        PAGING_PAGESZ_def frees_def dev_def)
qed

theorem vm_map_range_out_of_frames_witness:
  "\<exists>k'. vm_map_range full32 512 768 512 1 \<lparr>rg32_start = 0, rg32_end = 0\<rparr>
      = Inr (0, \<lparr>rg32_start = 512, rg32_end = 768\<rparr>, k') \<and> mm_of k' = mm_of full32"
proof -
  have "pool_ok (mram32 full32)" "mm_of full32 \<noteq> None" by (simp_all add: full32_def pool_ok_def)
  moreover have "nat (sint (1 :: i32)) = 1" by code_simp
  ultimately show ?thesis
    using vm_map_range_out_of_frames [of full32 1 512 768 512 "\<lparr>rg32_start = 0, rg32_end = 0\<rparr>"] full32_facts(4)
    by auto
qed

section \<open>The two page tables\<close>

text \<open>Updates of page-table entries, run on the flat table of \<open>mm.c\<close> and on the five-level table of
  \<open>mm64.c\<close>.\<close>

datatype pt_op = Set_fpn u32 u32 | Set_swap u32 i32 u32 | Set_entry u32 u32

fun op_page :: "pt_op \<Rightarrow> u32" where
  "op_page (Set_fpn p f) = p"
| "op_page (Set_swap p t s) = p"
| "op_page (Set_entry p v) = p"

fun flat_op :: "pt_op \<Rightarrow> krnl32 \<Rightarrow> fault + int \<times> krnl32" where
  "flat_op (Set_fpn p f) k = pte_set_fpn32 k p f"
| "flat_op (Set_swap p t s) k = pte_set_swap32 k p t s"
| "flat_op (Set_entry p v) k = pte_set_entry32 k p v"

fun tree_op :: "pt_op \<Rightarrow> caller \<Rightarrow> fault + int \<times> caller" where
  "tree_op (Set_fpn p f) c = pte_set_fpn c (ucast p) (ucast f)"
| "tree_op (Set_swap p t s) c = pte_set_swap c (ucast p) t (ucast s)"
| "tree_op (Set_entry p v) c = pte_set_entry c (ucast p) v"

fun run_ops :: "('o \<Rightarrow> 's \<Rightarrow> fault + int \<times> 's) \<Rightarrow> 'o list \<Rightarrow> 's \<Rightarrow> fault + 's" where
  "run_ops f [] s = Inr s"
| "run_ops f (x # xs) s = bindR (f x s) (\<lambda>(r, s). run_ops f xs s)"

text \<open>The two tables hold the same entries.\<close>

definition same_tables :: "krnl32 \<Rightarrow> caller \<Rightarrow> bool" where
  "same_tables k c \<longleftrightarrow> (\<exists>m32 m64. mm_of k = Some m32 \<and> length (pgd32 m32) = PAGING_MAX_PGN
     \<and> own_mm c = Some m64 \<and> mm_ok m64
     \<and> (\<forall>p :: u32. unat p < PAGING_MAX_PGN \<longrightarrow> pgd32 m32 ! unat p = ucast (pte_of m64 (ucast p))))"

lemma mark_same:
  "ucast (mark_fpn v (ucast f)) = mark_fpn32 (ucast v) f"
  "ucast (mark_swap v t (ucast s)) = mark_swap32 (ucast v) t s"
  by (rule bit_word_eqI, auto simp: bit_mark_fpn bit_mark_fpn32 bit_simps)
     (rule bit_word_eqI, auto simp: bit_mark_swap bit_mark_swap32 bit_simps)

lemma pte_set_entry_eq:
  "own_mm c = Some mm \<Longrightarrow>
   pte_set_entry c p v = Inr (0, c\<lparr>own_mm := Some (set_pte mm p (\<lambda>_. ucast v))\<rparr>)"
  by (simp add: pte_set_entry_def get_pte_def store_pte_def set_pte_def tbl_update_def
      case_prod_unfold Let_def)

text \<open>One update keeps the tables the same: both sides apply the same change to the same page.\<close>

lemma same_update:
  fixes p :: u32
  assumes st: "same_tables k c" and p: "unat p < PAGING_MAX_PGN"
    and g: "\<And>v. ucast (g64 v :: u64) = (g32 (ucast v) :: u32)"
  shows "\<exists>m32 m64. mm_of k = Some m32 \<and> own_mm c = Some m64 \<and> length (pgd32 m32) = PAGING_MAX_PGN
    \<and> same_tables (k\<lparr>mm_of := Some (m32\<lparr>pgd32 := (pgd32 m32)[unat p := g32 (pgd32 m32 ! unat p)]\<rparr>)\<rparr>)
        (c\<lparr>own_mm := Some (set_pte m64 (ucast p) g64)\<rparr>)"
proof -
  obtain m32 m64 where m: "mm_of k = Some m32" "length (pgd32 m32) = PAGING_MAX_PGN" "own_mm c = Some m64"
      "mm_ok m64" "\<And>p :: u32. unat p < PAGING_MAX_PGN \<Longrightarrow> pgd32 m32 ! unat p = ucast (pte_of m64 (ucast p))"
    using st by (auto simp: same_tables_def)
  have sep: "same_entry (ucast q :: u64) (ucast p) \<longleftrightarrow> q = p" for q :: u32
  proof -
    have "unat (ucast x :: u64) < 2 ^ 45" for x :: u32
      using unsigned_less [of x, where ?'a = nat] by simp
    from same_entry_small [OF this this] show ?thesis
      by (simp add: word_unat_eq_iff)
  qed
  have "pgd32 (m32\<lparr>pgd32 := (pgd32 m32)[unat p := g32 (pgd32 m32 ! unat p)]\<rparr>) ! unat q
      = ucast (pte_of (set_pte m64 (ucast p) g64) (ucast q))" if "unat q < PAGING_MAX_PGN" for q :: u32
    using m(5) [OF that] m(5) [OF p] m(2) p g
    by (simp add: pte_of_set_pte [OF m(4)] nth_list_update sep word_unat_eq_iff [symmetric])
  then have "same_tables (k\<lparr>mm_of := Some (m32\<lparr>pgd32 := (pgd32 m32)[unat p := g32 (pgd32 m32 ! unat p)]\<rparr>)\<rparr>)
        (c\<lparr>own_mm := Some (set_pte m64 (ucast p) g64)\<rparr>)"
    using m(2) mm_ok_set_pte [OF m(4)] by (simp add: same_tables_def)
  then show ?thesis using m by blast
qed

lemma same_op:
  assumes "same_tables k c" and "unat (op_page x) < PAGING_MAX_PGN"
  shows "\<exists>k' c'. flat_op x k = Inr (0, k') \<and> tree_op x c = Inr (0, c') \<and> same_tables k' c'"
proof (cases x)
  case (Set_fpn p f)
  then show ?thesis
    using same_update [OF assms(1), of p "\<lambda>v. mark_fpn v (ucast f)" "\<lambda>v. mark_fpn32 v f"] assms(2)
    by (auto simp: mark_same pte_set_fpn_eq pte_set_fpn32_def load32_def store32_def)
next
  case (Set_swap p t s)
  then show ?thesis
    using same_update [OF assms(1), of p "\<lambda>v. mark_swap v t (ucast s)" "\<lambda>v. mark_swap32 v t s"] assms(2)
    by (auto simp: mark_same pte_set_swap_eq pte_set_swap32_def load32_def store32_def)
next
  case (Set_entry p v)
  then show ?thesis
    using same_update [OF assms(1), of p "\<lambda>_. ucast v" "\<lambda>_. v"] assms(2)
    by (auto simp: pte_set_entry_eq pte_set_entry32_def store32_def ucast_down_ucast_id is_down)
qed

text \<open>C11: the flat table of \<open>mm.c\<close> and the five-level table of \<open>mm64.c\<close> are equivalent on the pages
  both have: after any sequence of \<open>pte_set_fpn\<close>, \<open>pte_set_swap\<close> and \<open>pte_set_entry\<close> on tables that
  agree, \<open>pte_get_entry\<close> returns the same entry for every page, and no call faults.\<close>

theorem flat_table_equals_tree:
  assumes "same_tables k c" and "\<forall>x \<in> set xs. unat (op_page x) < PAGING_MAX_PGN"
  shows "\<exists>k' c'. run_ops flat_op xs k = Inr k' \<and> run_ops tree_op xs c = Inr c'
    \<and> (\<forall>p. unat p < PAGING_MAX_PGN \<longrightarrow>
        (\<exists>v c''. pte_get_entry32 k' p = Inr v \<and> pte_get_entry c' (ucast p) = Inr (v, c'')))"
proof -
  have "\<exists>k' c'. run_ops flat_op xs k = Inr k' \<and> run_ops tree_op xs c = Inr c' \<and> same_tables k' c'"
    using assms
  proof (induction xs arbitrary: k c)
    case (Cons x xs)
    then obtain k1 c1 where "flat_op x k = Inr (0, k1)" "tree_op x c = Inr (0, c1)" "same_tables k1 c1"
      using same_op [of k c x] by auto
    then show ?case using Cons.IH [of k1 c1] Cons.prems(2) by auto
  qed simp
  then obtain k' c' where "run_ops flat_op xs k = Inr k'" "run_ops tree_op xs c = Inr c'" "same_tables k' c'"
    by blast
  then show ?thesis
    by (intro exI [of _ k'] exI [of _ c'])
      (auto simp: same_tables_def pte_get_entry32_def load32_def pte_get_entry_eq)
qed

theorem flat_table_equals_tree_witness:
  "\<exists>k' c'. run_ops flat_op [Set_fpn 3 7, Set_swap 3 0 5, Set_entry 4 9] (fresh32 1024 512) = Inr k'
    \<and> run_ops tree_op [Set_fpn 3 7, Set_swap 3 0 5, Set_entry 4 9] (fresh_caller 512) = Inr c'
    \<and> (\<exists>v c''. pte_get_entry32 k' 3 = Inr v \<and> pte_get_entry c' 3 = Inr (v, c''))"
proof -
  have "same_tables (fresh32 1024 512) (fresh_caller 512)"
    by (simp add: same_tables_def fresh32_def fresh_caller_def init_mm32_def Let_def)
  from flat_table_equals_tree [OF this, of "[Set_fpn 3 7, Set_swap 3 0 5, Set_entry 4 9]"]
  show ?thesis by (auto dest!: spec [of _ "3 :: u32"])
qed

section \<open>Printing and dummy pages\<close>

text \<open>\<open>print_pgtbl\<close> of \<open>mm.c\<close> lists the mapped pages of the range in order: the frame of a resident
  page, the swap offset of a swapped one.\<close>

definition line_of :: "krnl32 \<Rightarrow> nat \<Rightarrow> pgtbl_line" where
  "line_of k p = (let pte = entry k p in
     if bit pte 30 then In_swap (of_nat p) (PAGING_SWP pte) else In_ram (of_nat p) (PAGING_FPN pte))"

lemma print_loop32_lists:
  assumes ok: "paging_ok k" and mac: "macros32 swapped pgoff"
  shows "i + n \<le> PAGING_MAX_PGN \<Longrightarrow>
    print_loop32 swapped n k (of_nat i) = Inr (map (line_of k) (filter (\<lambda>p. entry k p \<noteq> 0) [i..<i + n]))"
proof (induction n arbitrary: i)
  case 0
  then show ?case by simp
next
  case (Suc n)
  have i: "unat (of_nat i :: u32) = i" using Suc.prems by (simp add: unat_of_nat)
  have l: "load32 k (of_nat i) = Inr (entry k i)"
    using load32_entry [OF ok, of "of_nat i"] Suc.prems by (simp add: i)
  have "print_loop32 swapped n k (of_nat i + 1)
      = Inr (map (line_of k) (filter (\<lambda>p. entry k p \<noteq> 0) [Suc i..<Suc i + n]))"
    using Suc.IH [of "Suc i"] Suc.prems by (simp add: add.commute)
  moreover have "bit (entry k i) 31" if "entry k i \<noteq> 0"
    using paging_entry [OF ok _ that] Suc.prems by simp
  moreover have "[i..<i + Suc n] = i # [Suc i..<Suc i + n]" by (simp add: upt_conv_Cons)
  ultimately show ?case
    by (auto simp: l line_of_def [of k i] Let_def present_iff_bit swapped_bit [OF mac, of "entry k i"]
        simp del: upt_Suc)
qed

theorem print_pgtbl32_lists:
  assumes "paging_ok k" and "macros32 swapped pgoff" and "i \<le> n" and "n \<le> PAGING_MAX_PGN"
  shows "print_pgtbl32 swapped k (of_nat i) (of_nat n)
    = Inr (map (line_of k) (filter (\<lambda>p. entry k p \<noteq> 0) [i..<n]))"
proof -
  have u: "unat (of_nat x :: u32) = x" if "x \<le> PAGING_MAX_PGN" for x
    using that by (simp add: unat_of_nat)
  have "(of_nat n :: u32) \<noteq> - 1"
  proof
    assume eq: "(of_nat n :: u32) = - 1"
    have "unat (- 1 :: u32) = n" using u [OF assms(4)] unfolding eq .
    moreover have "unat (- 1 :: u32) = 2 ^ 32 - 1" by (simp add: unsigned_minus_1_eq_mask mask_eq_exp_minus_1)
    ultimately show False using assms(4) by simp
  qed
  then show ?thesis
    using print_loop32_lists [OF assms(1,2), of i "n - i"] assms(3,4) u [of n] u [of i]
    by (simp add: print_pgtbl32_def)
qed

text \<open>\<open>vmap_pgd_memset\<close> makes a page read as present in frame 0, whoever owns that frame.\<close>

lemma memset_loop32_entries:
  "mm_of k = Some mm \<Longrightarrow> length (pgd32 mm) = PAGING_MAX_PGN \<Longrightarrow> unat p + i + n \<le> PAGING_MAX_PGN \<Longrightarrow>
   \<exists>k' mm'. memset_loop32 n i k p = Inr k' \<and> mm_of k' = Some mm' \<and> length (pgd32 mm') = PAGING_MAX_PGN
     \<and> (\<forall>q < PAGING_MAX_PGN. pgd32 mm' ! q =
          (if unat p + i \<le> q \<and> q < unat p + i + n then mark_fpn32 (pgd32 mm ! q) 0 else pgd32 mm ! q))"
proof (induction n arbitrary: i k mm)
  case 0
  then show ?case by auto
next
  case (Suc n)
  have u: "unat (p + of_nat i) = unat p + i"
    using Suc.prems(3) by (simp add: unat_word_ariths unat_of_nat)
  let ?mm = "mm\<lparr>pgd32 := (pgd32 mm)[unat p + i := mark_fpn32 (pgd32 mm ! (unat p + i)) 0]\<rparr>"
  have "pte_set_fpn32 k (p + of_nat i) 0 = Inr (0, k\<lparr>mm_of := Some ?mm\<rparr>)"
    using Suc.prems by (simp add: pte_set_fpn32_def load32_def store32_def u)
  moreover obtain k' mm' where k': "memset_loop32 n (Suc i) (k\<lparr>mm_of := Some ?mm\<rparr>) p = Inr k'"
    "mm_of k' = Some mm'" "length (pgd32 mm') = PAGING_MAX_PGN"
    "\<forall>q < PAGING_MAX_PGN. pgd32 mm' ! q = (if unat p + Suc i \<le> q \<and> q < unat p + Suc i + n
        then mark_fpn32 (pgd32 ?mm ! q) 0 else pgd32 ?mm ! q)"
    using Suc.IH [of "k\<lparr>mm_of := Some ?mm\<rparr>" ?mm "Suc i"] Suc.prems by auto
  moreover have "pgd32 mm' ! q = (if unat p + i \<le> q \<and> q < unat p + i + Suc n
      then mark_fpn32 (pgd32 mm ! q) 0 else pgd32 mm ! q)" if "q < PAGING_MAX_PGN" for q
    using k'(4) [rule_format, OF that] Suc.prems(2) that
    by (cases "q = unat p + i") auto
  ultimately show ?case by (intro exI [of _ k'] exI [of _ mm']) simp
qed

theorem vmap_pgd_memset32_aliases:
  assumes "mm_of k = Some mm" and "length (pgd32 mm) = PAGING_MAX_PGN"
    and "unat (PAGING_PGN a) + nat (sint cnt) \<le> PAGING_MAX_PGN"
  shows "\<exists>k'. vmap_pgd_memset32 k a cnt = Inr (0, k') \<and> (\<forall>j < nat (sint cnt).
    PAGING_PAGE_PRESENT (entry k' (unat (PAGING_PGN a) + j)) \<and> home (entry k' (unat (PAGING_PGN a) + j)) = (False, 0))"
proof -
  have "home (mark_fpn32 v 0) = (False, 0)" for v using home_mark(1) [of 0 v] by simp
  then show ?thesis
    using memset_loop32_entries [OF assms(1,2), of "PAGING_PGN a" 0 "nat (sint cnt)"] assms(3)
    by (fastforce simp: vmap_pgd_memset32_def entry_def present_iff_bit)
qed

end
