(* ===== verification/OS_Mem.thy ===== *)
theory OS_Mem
  imports OS_Prelude
begin

unbundle bit_operations_syntax

text \<open>
  The segment memory of \<open>mem.c\<close> and the instructions of \<open>cpu.c\<close> that use it when \<open>MM_PAGING\<close> is
  not defined.  The static arrays \<open>_ram\<close> and \<open>_mem_stat\<close> are the record \<open>seg_mem\<close>; \<open>seg_proc\<close>
  holds the fields of \<open>pcb_t\<close> these functions touch.  Most bodies were emptied by the authors
  (\<open>DO NOTHING HERE\<close>); they are kept as they are.  \<open>mem_lock\<close> is left out.
\<close>

section \<open>State\<close>

definition ADDRESS_SIZE :: nat where "ADDRESS_SIZE = 20"
definition OFFSET_LEN :: nat where "OFFSET_LEN = 10"
definition FIRST_LV_LEN :: nat where "FIRST_LV_LEN = 5"
definition SECOND_LV_LEN :: nat where "SECOND_LV_LEN = 5"
definition PAGE_LEN :: nat where "PAGE_LEN = SECOND_LV_LEN"
definition NUM_PAGES :: nat where "NUM_PAGES = 2 ^ (ADDRESS_SIZE - OFFSET_LEN)"
definition PAGE_SIZE :: u32 where "PAGE_SIZE = push_bit OFFSET_LEN 1"
definition RAM_SIZE :: nat where "RAM_SIZE = 2 ^ ADDRESS_SIZE"

record mem_stat =
  ms_proc :: u32
  ms_index :: i32
  ms_next :: i32

record seg_mem =
  seg_ram :: "u8 list"
  seg_stat :: "mem_stat list"

text \<open>Rows of the second and of the first level: the indices, and the pointer to the second level.\<close>

record trans_table_t =
  tt_rows :: "(u64 \<times> u64) list"
  tt_size :: int

record page_table_t =
  pt_rows :: "(u64 \<times> trans_table_t option) list"
  pt_size :: int

record seg_proc =
  seg_regs :: "u64 list"
  page_table :: "page_table_t option"
  bp :: u32

definition init_mem :: "seg_mem \<Rightarrow> seg_mem" where
  "init_mem m = m\<lparr>seg_stat := replicate NUM_PAGES \<lparr>ms_proc = 0, ms_index = 0, ms_next = 0\<rparr>,
     seg_ram := replicate RAM_SIZE 0\<rparr>"

section \<open>Addresses\<close>

definition get_offset :: "u64 \<Rightarrow> u64" where
  "get_offset addr = addr AND ucast (NOT (push_bit OFFSET_LEN (- 1)) :: u32)"

definition get_first_lv :: "u64 \<Rightarrow> u64" where
  "get_first_lv addr = drop_bit (OFFSET_LEN + PAGE_LEN) addr"

definition get_second_lv :: "u64 \<Rightarrow> u64" where
  "get_second_lv addr = drop_bit OFFSET_LEN addr - push_bit PAGE_LEN (get_first_lv addr)"

text \<open>The search loop has an empty body.\<close>

definition get_trans_table :: "u64 \<Rightarrow> page_table_t option \<Rightarrow> fault + trans_table_t option" where
  "get_trans_table idx pt = bindR (deref pt) (\<lambda>pt. Inr None)"

fun search_rows :: "u64 \<Rightarrow> nat \<Rightarrow> nat \<Rightarrow> (u64 \<times> u64) list \<Rightarrow> fault + bool" where
  "search_rows v 0 i rows = Inr False"
| "search_rows v (Suc n) i rows =
     bindR (get_at rows i) (\<lambda>(vi, pi). if vi = v then Inr True else search_rows v n (Suc i) rows)"

text \<open>\<open>translate\<close> returns whether the address is valid.  It never assigns \<open>*physical_addr\<close>.\<close>

definition translate :: "u64 \<Rightarrow> seg_proc \<Rightarrow> fault + bool" where
  "translate virtual_addr proc =
     (let first_lv = get_first_lv virtual_addr;
          second_lv = get_second_lv virtual_addr
      in bindR (get_trans_table first_lv (page_table proc)) (\<lambda>trans_table.
         case trans_table of
           None \<Rightarrow> Inr False
         | Some t \<Rightarrow> search_rows second_lv (nat (tt_size t)) 0 (tt_rows t)))"

section \<open>Operations\<close>

text \<open>\<open>mem_avail\<close> is the constant 0; the branch it guards is kept.\<close>

definition alloc_mem :: "u32 \<Rightarrow> seg_proc \<Rightarrow> u64 \<times> seg_proc" where
  "alloc_mem sz proc =
     (let ret_mem = 0;
          num_pages = (if sz mod PAGE_SIZE \<noteq> 0 then sz div PAGE_SIZE else sz div PAGE_SIZE + 1);
          mem_avail = (0 :: int)
      in if mem_avail \<noteq> 0
         then (ucast (bp proc), proc\<lparr>bp := bp proc + num_pages * PAGE_SIZE\<rparr>)
         else (ret_mem, proc))"

definition free_mem :: "u64 \<Rightarrow> seg_proc \<Rightarrow> int" where
  "free_mem address proc = 0"

text \<open>A valid translation would use \<open>physical_addr\<close>, which has no value.  \<open>data\<close> is what \<open>*data\<close>
  holds before the call.\<close>

definition read_mem :: "u64 \<Rightarrow> seg_proc \<Rightarrow> u8 \<Rightarrow> seg_mem \<Rightarrow> fault + int \<times> u8" where
  "read_mem address proc data m =
     bindR (translate address proc) (\<lambda>ok. if ok then Inl Uninit else Inr (1, data))"

definition write_mem :: "u64 \<Rightarrow> seg_proc \<Rightarrow> u8 \<Rightarrow> seg_mem \<Rightarrow> fault + int \<times> seg_mem" where
  "write_mem address proc data m =
     bindR (translate address proc) (\<lambda>ok. if ok then Inl Uninit else Inr (1, m))"

text \<open>What \<open>dump\<close> prints for a used page: the page, and its non-zero bytes with their addresses.\<close>

datatype dump_line = Page_line nat mem_stat | Byte_line nat u8

definition dump_page :: "seg_mem \<Rightarrow> nat \<Rightarrow> dump_line list" where
  "dump_page m i =
     (if ms_proc (seg_stat m ! i) \<noteq> 0
      then Page_line i (seg_stat m ! i) #
        map (\<lambda>j. Byte_line j (seg_ram m ! j))
          (filter (\<lambda>j. seg_ram m ! j \<noteq> 0) [i * 2 ^ OFFSET_LEN ..< (i + 1) * 2 ^ OFFSET_LEN - 1])
      else [])"

definition dump :: "seg_mem \<Rightarrow> dump_line list" where
  "dump m = concat (map (dump_page m) [0..<NUM_PAGES])"

section \<open>Instructions of cpu.c without paging\<close>

definition seg_alloc :: "seg_proc \<Rightarrow> u32 \<Rightarrow> u32 \<Rightarrow> fault + int \<times> seg_proc" where
  "seg_alloc proc sz reg_index =
     (let (addr, proc) = alloc_mem sz proc
      in if addr = 0 then Inr (1, proc)
         else bindR (set_at (seg_regs proc) (unat reg_index) addr) (\<lambda>rs.
              Inr (0, proc\<lparr>seg_regs := rs\<rparr>)))"

definition free_data :: "seg_proc \<Rightarrow> u32 \<Rightarrow> fault + int" where
  "free_data proc reg_index =
     bindR (get_at (seg_regs proc) (unat reg_index)) (\<lambda>a. Inr (free_mem a proc))"

text \<open>\<open>data0\<close> is the indeterminate value of the local variable \<open>data\<close>, as in \<open>libread\<close>.\<close>

definition seg_read :: "u8 \<Rightarrow> seg_proc \<Rightarrow> u32 \<Rightarrow> u32 \<Rightarrow> u32 \<Rightarrow> seg_mem \<Rightarrow> fault + int \<times> seg_proc" where
  "seg_read data0 proc source offset destination m =
     bindR (get_at (seg_regs proc) (unat source)) (\<lambda>base.
     bindR (read_mem (base + ucast offset) proc data0 m) (\<lambda>(r, data).
       if r \<noteq> 0 then
         bindR (set_at (seg_regs proc) (unat destination) (scast data)) (\<lambda>rs.
         Inr (0, proc\<lparr>seg_regs := rs\<rparr>))
       else Inr (1, proc)))"

definition seg_write :: "seg_proc \<Rightarrow> u8 \<Rightarrow> u32 \<Rightarrow> u32 \<Rightarrow> seg_mem \<Rightarrow> fault + int \<times> seg_mem" where
  "seg_write proc data destination offset m =
     bindR (get_at (seg_regs proc) (unat destination)) (\<lambda>base.
     write_mem (base + ucast offset) proc data m)"

section \<open>Lemmas\<close>

lemma offset_eq: "get_offset a = take_bit 10 a"
  by (rule bit_word_eqI) (auto simp: get_offset_def OFFSET_LEN_def bit_simps)

lemma first_eq: "get_first_lv a = drop_bit 15 a"
  by (simp add: get_first_lv_def OFFSET_LEN_def PAGE_LEN_def SECOND_LV_LEN_def)

lemma second_eq: "get_second_lv a = take_bit 5 (drop_bit 10 a)"
proof -
  have "push_bit 5 (drop_bit 15 a) + take_bit 5 (drop_bit 10 a) = drop_bit 10 a"
    using bits_ident [of 5 "drop_bit 10 a"] by simp
  then show ?thesis
    by (simp add: get_second_lv_def first_eq OFFSET_LEN_def PAGE_LEN_def SECOND_LV_LEN_def algebra_simps)
qed

text \<open>The three parts of an address are in range for the tables exactly when it has 20 bits, and
  they put it together again.\<close>

theorem seg_address_split:
  "push_bit (OFFSET_LEN + PAGE_LEN) (get_first_lv a) + push_bit OFFSET_LEN (get_second_lv a) + get_offset a = a
   \<and> unat (get_second_lv a) < 2 ^ SECOND_LV_LEN \<and> unat (get_offset a) < 2 ^ OFFSET_LEN
   \<and> (unat (get_first_lv a) < 2 ^ FIRST_LV_LEN \<longleftrightarrow> unat a < 2 ^ ADDRESS_SIZE)"
proof -
  have "push_bit 10 (push_bit 5 (drop_bit 15 a) + take_bit 5 (drop_bit 10 a)) + take_bit 10 a = a"
    using bits_ident [of 5 "drop_bit 10 a"] bits_ident [of 10 a] by simp
  then have "push_bit 15 (drop_bit 15 a) + push_bit 10 (take_bit 5 (drop_bit 10 a)) + take_bit 10 a = a"
    by (simp add: push_bit_add)
  moreover have "unat (take_bit 5 (drop_bit 10 a)) < 2 ^ 5" "unat (take_bit 10 a) < 2 ^ 10"
    by (simp_all add: unsigned_take_bit_eq take_bit_nat_less_exp [where n = 5, simplified] take_bit_nat_less_exp [where n = 10, simplified])
  moreover have "unat (drop_bit 15 a) < 2 ^ 5 \<longleftrightarrow> unat a < 2 ^ 20"
    by (simp add: drop_bit_eq_div unat_div div_less_iff_less_mult)
  ultimately show ?thesis
    by (simp add: offset_eq first_eq second_eq OFFSET_LEN_def PAGE_LEN_def SECOND_LV_LEN_def
        FIRST_LV_LEN_def ADDRESS_SIZE_def)
qed

lemma translate_fails: "page_table p \<noteq> None \<Longrightarrow> translate a p = Inr False"
  by (auto simp: translate_def get_trans_table_def Let_def)

text \<open>Without \<open>MM_PAGING\<close> no memory can be used: for a process with a page table \<open>alloc\<close> and \<open>write\<close> always
  report failure, \<open>free_data\<close> always reports success, and \<open>read\<close>, which takes the failure code of
  \<open>read_mem\<close> for success, stores the byte \<open>data\<close> was left with and reports success.\<close>

lemma segment_memory_unusable:
  assumes "page_table p \<noteq> None" and "unat r < length (seg_regs p)"
  shows "seg_alloc p n x = Inr (1, p)" and "free_data p r = Inr 0" and "seg_write p b r off m = Inr (1, m)"
    and "unat x < length (seg_regs p) \<Longrightarrow>
      seg_read data0 p r off x m = Inr (0, p\<lparr>seg_regs := (seg_regs p)[unat x := scast data0]\<rparr>)"
  using translate_fails [OF assms(1)] assms(2)
  by (simp_all add: seg_alloc_def alloc_mem_def free_data_def free_mem_def seg_write_def write_mem_def
      seg_read_def read_mem_def set_at_def Let_def)

text \<open>The dump of a page stops one byte early.\<close>

theorem dump_skips_last_byte:
  "Byte_line ((i + 1) * 2 ^ OFFSET_LEN - 1) b \<notin> set (dump m)"
proof -
  have last: "\<not> (j * 1024 \<le> (i + 1) * 1024 - 1 \<and> (i + 1) * 1024 - 1 < (j + 1) * 1024 - 1)" for j :: nat
  proof
    assume j: "j * 1024 \<le> (i + 1) * 1024 - 1 \<and> (i + 1) * 1024 - 1 < (j + 1) * 1024 - 1"
    have "0 < (i + 1) * 1024" by simp
    with j have "j * 1024 < (i + 1) * 1024" "(i + 1) * 1024 < (j + 1) * 1024" by linarith+
    then have "j < i + 1" "i + 1 < j + 1" by (simp_all only: mult_less_cancel2)
    then show False by simp
  qed
  have "Byte_line ((i + 1) * 1024 - 1) b \<notin> set (dump_page m j)" for j
    using last [of j] by (simp add: dump_page_def OFFSET_LEN_def image_iff)
  then show ?thesis by (simp add: dump_def OFFSET_LEN_def)
qed

lemma dump_after_init: "dump (init_mem m) = []"
  by (auto simp: dump_def dump_page_def init_mem_def)

end
