(* ===== verification/OS_Print.thy ===== *)
theory OS_Print
  imports OS_Mm OS_Config
begin

text \<open>
  The \<open>print_list\<close> functions of \<open>mm64.c\<close> (frames, free regions, areas and page numbers), as the
  characters they print and the value they return; \<open>NULL\<close> is the empty list.  The locale
  \<open>line_format\<close> states what one line of such a listing must satisfy for the listing to determine the
  list, and the four line formats are instances.
\<close>

section \<open>The functions\<close>

text \<open>The four functions have the same shape: a title, \<open>NULL list\<close> and the code -1 for the empty list,
  otherwise one line per element and an empty line.\<close>

definition print_lines :: "string \<Rightarrow> ('a \<Rightarrow> string) \<Rightarrow> 'a list \<Rightarrow> int \<times> string" where
  "print_lines title line xs =
     (if xs = [] then (- 1, title @ ''NULL list'' @ [newline])
      else (0, title @ [newline] @ concat (map (\<lambda>x. line x @ [newline]) xs) @ [newline]))"

definition fp_line :: "u64 \<Rightarrow> string" where
  "fp_line fpn = ''fp['' @ dec (unat fpn) @ '']''"

definition print_list_fp :: "u64 list \<Rightarrow> int \<times> string" where
  "print_list_fp ifp = print_lines ''print_list_fp: '' fp_line ifp"

definition range_line :: "string \<Rightarrow> u64 \<times> u64 \<Rightarrow> string" where
  "range_line tag = (\<lambda>(a, b). tag @ dec (unat a) @ ''->'' @ dec (unat b) @ '']'')"

definition print_list_rg :: "vm_rg list \<Rightarrow> int \<times> string" where
  "print_list_rg irg =
     print_lines ''print_list_rg: '' (range_line ''rg['') (map (\<lambda>rg. (rg_start rg, rg_end rg)) irg)"

definition print_list_vma :: "vma list \<Rightarrow> int \<times> string" where
  "print_list_vma ivma =
     print_lines ''print_list_vma: '' (range_line ''va['') (map (\<lambda>vma. (vm_start vma, vm_end vma)) ivma)"

definition pgn_line :: "u64 \<Rightarrow> string" where
  "pgn_line pgn = ''va['' @ dec (unat pgn) @ '']-''"

definition print_list_pgn :: "u64 list \<Rightarrow> int \<times> string" where
  "print_list_pgn ip = print_lines ''print_list_pgn: '' pgn_line ip"

section \<open>Reading a number off a line\<close>

lemma digits_of_dec:
  assumes "dec m @ c # r = dec n @ d # s" and "\<not> is_digit c" and "\<not> is_digit d"
  shows "m = n" and "c # r = d # s"
proof -
  have t: "takeWhile is_digit (dec k @ e # x) = dec k" "dropWhile is_digit (dec k @ e # x) = e # x"
    if "\<not> is_digit e" for k e x
    using that by (simp_all add: takeWhile_append2 dropWhile_append2 dec_digits)
  have "dec m = dec n" using arg_cong [OF assms(1), of "takeWhile is_digit"] t assms(2,3) by metis
  moreover have "scan_num (dec k @ [CHR 0x20]) = (Some (int k), [CHR 0x20])" for k by simp
  ultimately show "m = n" by (metis of_nat_eq_iff option.inject prod.inject)
  show "c # r = d # s" using arg_cong [OF assms(1), of "dropWhile is_digit"] t assms(2,3) by metis
qed

section \<open>Listings\<close>

locale line_format =
  fixes line :: "'a \<Rightarrow> string"
  assumes line_inj: "line x = line y \<Longrightarrow> x = y"
    and line_one: "newline \<notin> set (line x)"
    and line_some: "line x \<noteq> []"
begin

lemma split_line:
  assumes "line x @ newline # r = line y @ newline # s"
  shows "x = y \<and> r = s"
proof -
  have t: "takeWhile (\<lambda>c. c \<noteq> newline) (line z @ newline # u) = line z"
    "dropWhile (\<lambda>c. c \<noteq> newline) (line z @ newline # u) = newline # u" for z u
  proof -
    have "\<forall>c \<in> set (line z). c \<noteq> newline" using line_one by blast
    then show "takeWhile (\<lambda>c. c \<noteq> newline) (line z @ newline # u) = line z"
      "dropWhile (\<lambda>c. c \<noteq> newline) (line z @ newline # u) = newline # u" by (simp_all add: takeWhile_append2 dropWhile_append2)
  qed
  have "line x = line y" using arg_cong [OF assms, of "takeWhile (\<lambda>c. c \<noteq> newline)"] by (simp only: t)
  then show ?thesis using assms line_inj by auto
qed

lemma line_no_blank: "line x @ newline # r \<noteq> newline # s"
  using line_some [of x] line_one [of x] by (cases "line x") auto

text \<open>A listing ends with an empty line, so it determines its lines.\<close>

lemma listing_inj:
  "concat (map (\<lambda>x. line x @ [newline]) xs) @ [newline] = concat (map (\<lambda>x. line x @ [newline]) ys) @ [newline]
   \<Longrightarrow> xs = ys"
proof (induction xs arbitrary: ys)
  case Nil
  then show ?case using line_no_blank by (cases ys) auto
next
  case (Cons x xs)
  note eq = Cons.prems
  show ?case
  proof (cases ys)
    case Nil
    then show ?thesis using eq line_no_blank by auto
  next
    case (Cons y zs)
    with eq have "line x @ newline # (concat (map (\<lambda>x. line x @ [newline]) xs) @ [newline])
        = line y @ newline # (concat (map (\<lambda>x. line x @ [newline]) zs) @ [newline])" by simp
    from split_line [OF this] Cons.IH [of zs] Cons show ?thesis by blast
  qed
qed

lemma print_lines_inj: "snd (print_lines title line xs) = snd (print_lines title line ys) \<longleftrightarrow> xs = ys"
proof
  assume eq: "snd (print_lines title line xs) = snd (print_lines title line ys)"
  have "CHR ''N'' \<noteq> newline" by (simp add: newline_def)
  then show "xs = ys"
    using eq listing_inj [of xs ys] unfolding print_lines_def by (simp split: if_splits)
qed simp

end

lemma dec_inj: "dec m = dec n \<Longrightarrow> m = n"
  using digits_of_dec(1) [of m "CHR 0x20" "[]" n "CHR 0x20" "[]"] by (simp add: is_digit_def)

lemma dec_u64_inj [simp]: "dec (unat (a :: u64)) = dec (unat b) \<longleftrightarrow> a = b"
  by (auto simp: word_unat_eq_iff dest: dec_inj)

lemma nl_dec [simp]: "CHR 0x0A \<notin> set (dec n)"
  by (simp add: dec_no is_digit_def)

interpretation fp: line_format fp_line
  by unfold_locales (simp_all add: fp_line_def newline_def)

interpretation pgn: line_format pgn_line
  by unfold_locales (simp_all add: pgn_line_def newline_def)

lemma range_line_inj: "range_line tag x = range_line tag y \<Longrightarrow> x = y"
proof -
  assume eq: "range_line tag x = range_line tag y"
  obtain a b c d where x: "x = (a, b)" and y: "y = (c, d)" by (cases x, cases y)
  have "dec (unat a) @ CHR ''-'' # CHR ''>'' # dec (unat b) = dec (unat c) @ CHR ''-'' # CHR ''>'' # dec (unat d)"
    using eq by (simp add: range_line_def x y)
  from digits_of_dec [OF this] show ?thesis by (simp add: x y is_digit_def word_unat_eq_iff)
qed

lemma range_line_format: "newline \<notin> set tag \<Longrightarrow> line_format (range_line tag)"
proof
  show "range_line tag x = range_line tag y \<Longrightarrow> x = y" for x y by (rule range_line_inj)
qed (auto simp: range_line_def newline_def split: prod.splits)

interpretation rg: line_format "range_line ''rg[''"
  by (rule range_line_format) (simp add: newline_def)

interpretation va: line_format "range_line ''va[''"
  by (rule range_line_format) (simp add: newline_def)

section \<open>The listings determine the lists\<close>

text \<open>What the \<open>print_list\<close> functions print determines the list: two lists with the same listing have
  the same frames, the same regions, the same area bounds, or the same page numbers.\<close>

theorem print_lists_faithful:
  "(snd (print_list_fp fs) = snd (print_list_fp fs') \<longleftrightarrow> fs = fs')
   \<and> (snd (print_list_pgn ps) = snd (print_list_pgn ps') \<longleftrightarrow> ps = ps')
   \<and> (snd (print_list_rg rs) = snd (print_list_rg rs')
        \<longleftrightarrow> map (\<lambda>r. (rg_start r, rg_end r)) rs = map (\<lambda>r. (rg_start r, rg_end r)) rs')
   \<and> (snd (print_list_vma vs) = snd (print_list_vma vs')
        \<longleftrightarrow> map (\<lambda>v. (vm_start v, vm_end v)) vs = map (\<lambda>v. (vm_start v, vm_end v)) vs')"
  by (simp add: print_list_fp_def print_list_pgn_def print_list_rg_def print_list_vma_def
      fp.print_lines_inj pgn.print_lines_inj rg.print_lines_inj va.print_lines_inj)

end
