(* ===== verification/OS_Plain.thy ===== *)
theory OS_Plain
  imports OS_Sched
begin

text \<open>
  The part of \<open>sched.c\<close> that is compiled without \<open>MLQ_SCHED\<close>: two plain queues, and a \<open>get_proc\<close> whose
  body was left to the students.  (\<open>sched.h\<close> defines \<open>MLQ_SCHED\<close> itself when it is not defined, so a
  build gets this part only after that line is removed.)  Both parts work on the same statics; the
  multi-level fields of \<open>sched_t\<close> stay untouched here.
\<close>

section \<open>Operations\<close>

definition plain_queue_empty :: "sched_t \<Rightarrow> int" where
  "plain_queue_empty s =
     (if empty_queue (Some (ready_queue s)) \<and> empty_queue (Some (run_queue s)) then 1 else 0)"

definition plain_init_scheduler :: "sched_t \<Rightarrow> sched_t" where
  "plain_init_scheduler s =
     s\<lparr>ready_queue := (ready_queue s)\<lparr>q_size := 0\<rparr>,
       run_queue := (run_queue s)\<lparr>q_size := 0\<rparr>,
       running_list := (running_list s)\<lparr>q_size := 0\<rparr>\<rparr>"

definition plain_get_proc :: "sched_t \<Rightarrow> pcb_ref option \<times> sched_t" where
  "plain_get_proc s = (None, s)"

definition plain_put_proc :: "sched_t \<Rightarrow> pcb_ref \<Rightarrow> sched_t" where
  "plain_put_proc s proc = s\<lparr>run_queue := enqueue (run_queue s) (Some proc)\<rparr>"

definition plain_add_proc :: "sched_t \<Rightarrow> pcb_ref \<Rightarrow> sched_t" where
  "plain_add_proc s proc = s\<lparr>ready_queue := enqueue (ready_queue s) (Some proc)\<rparr>"

definition plain_remove_proc :: "sched_t \<Rightarrow> pcb_ref \<Rightarrow> sched_t" where
  "plain_remove_proc s proc = s\<lparr>running_list := snd (purgequeue (running_list s) (Some proc))\<rparr>"

section \<open>Runs\<close>

fun plain_step :: "sched_t \<Rightarrow> sched_op \<Rightarrow> pcb_ref option \<times> sched_t" where
  "plain_step s Get = plain_get_proc s"
| "plain_step s (Put prio r) = (None, plain_put_proc s r)"
| "plain_step s (Add prio r) = (None, plain_add_proc s r)"
| "plain_step s (Remove r) = (None, plain_remove_proc s r)"

fun plain_run :: "sched_t \<Rightarrow> sched_op list \<Rightarrow> pcb_ref list \<times> sched_t" where
  "plain_run s [] = ([], s)"
| "plain_run s (a # as) =
     (let (r, s1) = plain_step s a; (rs, s2) = plain_run s1 as
      in (case r of None \<Rightarrow> rs | Some p \<Rightarrow> p # rs, s2))"

fun plain_added :: "sched_op list \<Rightarrow> pcb_ref list" where
  "plain_added (Add prio r # as) = r # plain_added as"
| "plain_added (_ # as) = plain_added as"
| "plain_added [] = []"

fun put_back :: "sched_op list \<Rightarrow> pcb_ref list" where
  "put_back (Put prio r # as) = r # put_back as"
| "put_back (_ # as) = put_back as"
| "put_back [] = []"

definition plain_inv :: "sched_t \<Rightarrow> bool" where
  "plain_inv s \<longleftrightarrow> queue_inv (ready_queue s) \<and> queue_inv (run_queue s) \<and> queue_inv (running_list s)"

lemma plain_init_inv: "plain_inv (plain_init_scheduler zero_sched)"
  by (simp add: plain_inv_def plain_init_scheduler_def zero_sched_def queue_inv_size0)

lemma plain_init_queues:
  "queue_list (ready_queue (plain_init_scheduler s)) = []" "queue_list (run_queue (plain_init_scheduler s)) = []"
  "queue_list (running_list (plain_init_scheduler s)) = []"
  by (simp_all add: plain_init_scheduler_def queue_list_size0)

text \<open>The queues only grow: what is added waits in \<open>ready_queue\<close>, what is put back in \<open>run_queue\<close>, and
  no call returns a process.\<close>

lemma plain_run_enqueues:
  "plain_inv s \<Longrightarrow> fst (plain_run s as) = [] \<and> plain_inv (snd (plain_run s as))
     \<and> ready_queue (snd (plain_run s as)) = foldl (\<lambda>q p. enqueue q (Some p)) (ready_queue s) (plain_added as)
     \<and> run_queue (snd (plain_run s as)) = foldl (\<lambda>q p. enqueue q (Some p)) (run_queue s) (put_back as)"
proof (induction as arbitrary: s)
  case (Cons a as)
  have "plain_inv (snd (plain_step s a))" "fst (plain_step s a) = None"
    using Cons.prems by (cases a; simp add: plain_inv_def plain_get_proc_def plain_put_proc_def plain_add_proc_def
      plain_remove_proc_def enqueue_inv purge_inv)+
  with Cons.IH [of "snd (plain_step s a)"] show ?case
    by (cases a) (simp_all add: case_prod_unfold Let_def plain_get_proc_def plain_put_proc_def plain_add_proc_def
      plain_remove_proc_def)
qed simp

section \<open>Nothing is ever dispatched\<close>

text \<open>Whatever is called after \<open>init_scheduler\<close>, no process is dispatched, the ready queue holds the first 50
  processes that were added (the others are dropped), the run queue the first 50 that were put
  back, and \<open>queue_empty\<close> says no from the first process on.\<close>

theorem plain_scheduler_starves:
  "let r = plain_run (plain_init_scheduler zero_sched) as
   in fst r = [] \<and> queue_list (ready_queue (snd r)) = take MAX_QUEUE_SIZE (plain_added as)
      \<and> queue_list (run_queue (snd r)) = take MAX_QUEUE_SIZE (put_back as)
      \<and> plain_queue_empty (snd r) = (if plain_added as = [] \<and> put_back as = [] then 1 else 0)"
proof -
  let ?s = "plain_init_scheduler zero_sched" and ?t = "snd (plain_run (plain_init_scheduler zero_sched) as)"
  note r = plain_run_enqueues [OF plain_init_inv, of as]
  have inv: "queue_inv (ready_queue ?s)" "queue_inv (run_queue ?s)" using plain_init_inv by (simp_all add: plain_inv_def)
  have q: "queue_list (ready_queue ?t) = take MAX_QUEUE_SIZE (plain_added as)"
    "queue_list (run_queue ?t) = take MAX_QUEUE_SIZE (put_back as)"
    using r pq.items_enq_all [OF inv(1), of "plain_added as"] pq.items_enq_all [OF inv(2), of "put_back as"]
    by (simp_all add: plain_init_queues)
  have "plain_queue_empty ?t = (if queue_list (ready_queue ?t) = [] \<and> queue_list (run_queue ?t) = [] then 1 else 0)"
  proof -
    have "queue_inv (ready_queue ?t)" "queue_inv (run_queue ?t)" using r unfolding plain_inv_def by blast+
    then show ?thesis by (simp only: plain_queue_empty_def empty_queue_iff)
  qed
  then show ?thesis using r q by (simp add: Let_def MAX_QUEUE_SIZE_def)
qed

end
