(* ===== verification/OS_Layout.thy ===== *)
theory OS_Layout
  imports OS_Pte
begin

text \<open>
  The rest of the bit layouts of \<open>mm.h\<close> and \<open>mm64.h\<close>: the masks and extraction macros that the code
  defines beside those it uses (\<open>OS_Pte\<close>), and the layout as a whole: which bits of an entry and
  of an address belong to which field.
\<close>

section \<open>Macros of mm.h\<close>

definition PAGING_MEMRAMSZ :: u32 where "PAGING_MEMRAMSZ = BIT 21"
definition PAGING_MEMSWPSZ :: u32 where "PAGING_MEMSWPSZ = BIT 29"
definition PAGING_SWPFPN_OFFSET :: nat where "PAGING_SWPFPN_OFFSET = 5"
definition PAGING_SBRK_INIT_SZ :: nat where "PAGING_SBRK_INIT_SZ = PAGING_PAGESZ"

definition PAGING_PTE_RESERVE_MASK :: u32 where "PAGING_PTE_RESERVE_MASK = BIT 29"
definition PAGING_PTE_EMPTY01_MASK :: u32 where "PAGING_PTE_EMPTY01_MASK = BIT 14"
definition PAGING_PTE_EMPTY02_MASK :: u32 where "PAGING_PTE_EMPTY02_MASK = BIT 13"

definition PAGING_PTE_USRNUM_LOBIT :: nat where "PAGING_PTE_USRNUM_LOBIT = 15"
definition PAGING_PTE_USRNUM_HIBIT :: nat where "PAGING_PTE_USRNUM_HIBIT = 27"

definition PAGING_PTE_USRNUM_MASK :: u32 where
  "PAGING_PTE_USRNUM_MASK = GENMASK PAGING_PTE_USRNUM_HIBIT PAGING_PTE_USRNUM_LOBIT"

definition PAGING_PTE_SET_PRESENT :: "u64 \<Rightarrow> u64" where
  "PAGING_PTE_SET_PRESENT pte = pte OR ucast PAGING_PTE_PRESENT_MASK"

definition PAGING_PTE_OFFST :: "u32 \<Rightarrow> u32" where
  "PAGING_PTE_OFFST pte = GETVAL pte PAGING_OFFST_MASK 0"

definition PAGING_PTE_PGN :: "u32 \<Rightarrow> u32" where
  "PAGING_PTE_PGN pte = GETVAL pte PAGING_PGN_MASK PAGING_ADDR_PGN_LOBIT"

definition PAGING_PTE_FPN :: "u32 \<Rightarrow> u32" where
  "PAGING_PTE_FPN pte = GETVAL pte PAGING_PTE_FPN_MASK 0"

definition PAGING_PTE_SWP :: "u32 \<Rightarrow> u32" where
  "PAGING_PTE_SWP pte = GETVAL pte PAGING_PTE_SWPOFF_MASK PAGING_SWPFPN_OFFSET"

definition PAGING_ADDR_OFFST_HIBIT :: nat where
  "PAGING_ADDR_OFFST_HIBIT = NBITS (of_nat PAGING_PAGESZ) - 1"

definition PAGING_ADDR_PGN_HIBIT :: nat where
  "PAGING_ADDR_PGN_HIBIT = PAGING_CPU_BUS_WIDTH - 1"

definition PAGING_ADDR_FPN_HIBIT :: nat where
  "PAGING_ADDR_FPN_HIBIT = NBITS PAGING_MEMRAMSZ - 1"

definition PAGING_SWP_LOBIT :: nat where
  "PAGING_SWP_LOBIT = NBITS (of_nat PAGING_PAGESZ)"

definition PAGING_SWP_HIBIT :: nat where
  "PAGING_SWP_HIBIT = NBITS PAGING_MEMSWPSZ - 1"

definition PAGING_FPN_MASK :: u32 where
  "PAGING_FPN_MASK = GENMASK PAGING_ADDR_FPN_HIBIT PAGING_ADDR_FPN_LOBIT"

definition PAGING_SWP_MASK :: u32 where
  "PAGING_SWP_MASK = GENMASK PAGING_SWP_HIBIT PAGING_SWP_LOBIT"

section \<open>Macros of mm64.h\<close>

definition PAGING64_PAGE_ALIGNSZ :: "u64 \<Rightarrow> u64" where
  "PAGING64_PAGE_ALIGNSZ sz = DIV_ROUND_UP sz (of_nat PAGING64_PAGESZ) * of_nat PAGING64_PAGESZ"

text \<open>The mask of the offset is built from the bounds of the 32 bit layout.\<close>

definition PAGING64_ADDR_OFFST_MASK :: u64 where
  "PAGING64_ADDR_OFFST_MASK = GENMASK64 PAGING_ADDR_OFFST_HIBIT 0"

section \<open>The bounds of the fields\<close>

text \<open>The masks of \<open>OS_Pte\<close> have these bounds written out.\<close>

definition PAGING_PTE_FPN_LOBIT :: nat where "PAGING_PTE_FPN_LOBIT = 0"
definition PAGING_PTE_FPN_HIBIT :: nat where "PAGING_PTE_FPN_HIBIT = 12"
definition PAGING_PTE_SWPTYP_LOBIT :: nat where "PAGING_PTE_SWPTYP_LOBIT = 0"
definition PAGING_PTE_SWPTYP_HIBIT :: nat where "PAGING_PTE_SWPTYP_HIBIT = 4"
definition PAGING_PTE_SWPOFF_LOBIT :: nat where "PAGING_PTE_SWPOFF_LOBIT = 5"
definition PAGING_PTE_SWPOFF_HIBIT :: nat where "PAGING_PTE_SWPOFF_HIBIT = 25"
definition PAGING_ADDR_OFFST_LOBIT :: nat where "PAGING_ADDR_OFFST_LOBIT = 0"
definition PAGING64_ADDR_OFFST_HIBIT :: nat where "PAGING64_ADDR_OFFST_HIBIT = 11"
definition PAGING64_ADDR_OFFST_LOBIT :: nat where "PAGING64_ADDR_OFFST_LOBIT = 0"
definition PAGING64_ADDR_PT_HIBIT :: nat where "PAGING64_ADDR_PT_HIBIT = 20"
definition PAGING64_ADDR_PT_LOBIT :: nat where "PAGING64_ADDR_PT_LOBIT = 12"
definition PAGING64_ADDR_PMD_HIBIT :: nat where "PAGING64_ADDR_PMD_HIBIT = 29"
definition PAGING64_ADDR_PMD_LOBIT :: nat where "PAGING64_ADDR_PMD_LOBIT = 21"
definition PAGING64_ADDR_PUD_HIBIT :: nat where "PAGING64_ADDR_PUD_HIBIT = 38"
definition PAGING64_ADDR_PUD_LOBIT :: nat where "PAGING64_ADDR_PUD_LOBIT = 30"
definition PAGING64_ADDR_P4D_HIBIT :: nat where "PAGING64_ADDR_P4D_HIBIT = 47"
definition PAGING64_ADDR_P4D_LOBIT :: nat where "PAGING64_ADDR_P4D_LOBIT = 39"
definition PAGING64_ADDR_PGD_HIBIT :: nat where "PAGING64_ADDR_PGD_HIBIT = 56"
definition PAGING64_ADDR_PGD_LOBIT :: nat where "PAGING64_ADDR_PGD_LOBIT = 48"

lemmas bound_defs = PAGING_PTE_FPN_LOBIT_def PAGING_PTE_FPN_HIBIT_def PAGING_PTE_SWPTYP_LOBIT_def
  PAGING_PTE_SWPTYP_HIBIT_def PAGING_PTE_SWPOFF_LOBIT_def PAGING_PTE_SWPOFF_HIBIT_def
  PAGING_ADDR_OFFST_LOBIT_def PAGING64_ADDR_OFFST_HIBIT_def PAGING64_ADDR_OFFST_LOBIT_def
  PAGING64_ADDR_PT_HIBIT_def PAGING64_ADDR_PT_LOBIT_def PAGING64_ADDR_PMD_HIBIT_def
  PAGING64_ADDR_PMD_LOBIT_def PAGING64_ADDR_PUD_HIBIT_def PAGING64_ADDR_PUD_LOBIT_def
  PAGING64_ADDR_P4D_HIBIT_def PAGING64_ADDR_P4D_LOBIT_def PAGING64_ADDR_PGD_HIBIT_def
  PAGING64_ADDR_PGD_LOBIT_def

lemma masks_from_bounds:
  "PAGING_PTE_FPN_MASK = GENMASK PAGING_PTE_FPN_HIBIT PAGING_PTE_FPN_LOBIT"
  "PAGING_PTE_SWPTYP_MASK = GENMASK PAGING_PTE_SWPTYP_HIBIT PAGING_PTE_SWPTYP_LOBIT"
  "PAGING_PTE_SWPOFF_MASK = GENMASK PAGING_PTE_SWPOFF_HIBIT PAGING_PTE_SWPOFF_LOBIT"
  "PAGING_OFFST_MASK = GENMASK PAGING_ADDR_OFFST_HIBIT PAGING_ADDR_OFFST_LOBIT"
  "PAGING_PGN_MASK = GENMASK PAGING_ADDR_PGN_HIBIT PAGING_ADDR_PGN_LOBIT"
  "PAGING64_ADDR_PT_MASK = GENMASK64 PAGING64_ADDR_PT_HIBIT PAGING64_ADDR_PT_LOBIT"
  "PAGING64_ADDR_PMD_MASK = GENMASK64 PAGING64_ADDR_PMD_HIBIT PAGING64_ADDR_PMD_LOBIT"
  "PAGING64_ADDR_PUD_MASK = GENMASK64 PAGING64_ADDR_PUD_HIBIT PAGING64_ADDR_PUD_LOBIT"
  "PAGING64_ADDR_P4D_MASK = GENMASK64 PAGING64_ADDR_P4D_HIBIT PAGING64_ADDR_P4D_LOBIT"
  "PAGING64_ADDR_PGD_MASK = GENMASK64 PAGING64_ADDR_PGD_HIBIT PAGING64_ADDR_PGD_LOBIT"
  by (simp_all add: bound_defs mask_defs mask64_defs PAGING_ADDR_OFFST_HIBIT_def PAGING_ADDR_PGN_HIBIT_def)

text \<open>With the bounds that the 64 bit layout names for its offset, the mask would have the 12 bits of a page
  of 4096 bytes; the macro takes the bound of the 32 bit layout.\<close>

lemma offset_mask_too_short:
  "PAGING64_ADDR_OFFST_MASK = 0xFF" "GENMASK64 PAGING64_ADDR_OFFST_HIBIT PAGING64_ADDR_OFFST_LOBIT = 0xFFF"
  by code_simp+

section \<open>The fields of an entry and of an address\<close>

text \<open>The masks of an entry of a resident page and of a swapped page, and those of a virtual address in
  the two modes.\<close>

definition resident_masks :: "u32 list" where
  "resident_masks = [PAGING_PTE_FPN_MASK, PAGING_PTE_EMPTY02_MASK, PAGING_PTE_EMPTY01_MASK, PAGING_PTE_USRNUM_MASK,
     PAGING_PTE_DIRTY_MASK, PAGING_PTE_RESERVE_MASK, PAGING_PTE_SWAPPED_MASK, PAGING_PTE_PRESENT_MASK]"

definition swapped_masks :: "u32 list" where
  "swapped_masks = [PAGING_PTE_SWPTYP_MASK, PAGING_PTE_SWPOFF_MASK, PAGING_PTE_DIRTY_MASK, PAGING_PTE_RESERVE_MASK,
     PAGING_PTE_SWAPPED_MASK, PAGING_PTE_PRESENT_MASK]"

definition address_masks :: "u32 list" where
  "address_masks = [PAGING_OFFST_MASK, PAGING_PGN_MASK]"

definition address64_masks :: "u64 list" where
  "address64_masks = [PAGING64_ADDR_OFFST_MASK, PAGING64_ADDR_PT_MASK, PAGING64_ADDR_PMD_MASK, PAGING64_ADDR_PUD_MASK,
     PAGING64_ADDR_P4D_MASK, PAGING64_ADDR_PGD_MASK]"

definition covered :: "'a :: len word list \<Rightarrow> nat \<Rightarrow> nat" where
  "covered ms n = length (filter (\<lambda>m. bit m n) ms)"

lemma NBITS_sizes [simp]: "NBITS PAGING_MEMRAMSZ = 21" "NBITS PAGING_MEMSWPSZ = 29"
  by code_simp+

lemmas layout_defs = mask_defs mask64_defs PAGING_PTE_RESERVE_MASK_def PAGING_PTE_EMPTY01_MASK_def
  PAGING_PTE_EMPTY02_MASK_def PAGING_PTE_USRNUM_MASK_def PAGING_PTE_USRNUM_LOBIT_def PAGING_PTE_USRNUM_HIBIT_def
  PAGING64_ADDR_OFFST_MASK_def PAGING_ADDR_OFFST_HIBIT_def resident_masks_def swapped_masks_def
  address_masks_def address64_masks_def covered_def

text \<open>Every bit of an entry belongs to exactly one field; in an entry of a swapped page bits 26 and 27 are
  unused.  A 32 bit address has 22 bits in two fields.  In the 64 bit layout the fields do not
  overlap, but bits 8 to 11 belong to none, although a page has 4096 bytes.\<close>

theorem fields_partition:
  "(\<forall>n < 32. covered resident_masks n = 1)
   \<and> (\<forall>n < 32. covered swapped_masks n = (if n = 26 \<or> n = 27 then 0 else 1))
   \<and> (\<forall>n < 32. covered address_masks n = (if n < 22 then 1 else 0))
   \<and> (\<forall>n < 64. covered address64_masks n = (if 8 \<le> n \<and> n < 12 \<or> 57 \<le> n then 0 else 1))"
  by (auto simp: layout_defs bit_masks)

text \<open>Reading a field is the same through both spellings of the macros.\<close>

lemma extract_again:
  "PAGING_PTE_FPN pte = PAGING_FPN pte" "PAGING_PTE_SWP pte = PAGING_SWP pte" "PAGING_PTE_OFFST pte = PAGING_OFFST pte"
  "PAGING_PTE_PGN pte = PAGING_PGN pte" "PAGING_PTE_SET_PRESENT v = SETBIT v PAGING_PTE_PRESENT_MASK"
  by (simp_all add: PAGING_PTE_FPN_def PAGING_FPN_def PAGING_PTE_SWP_def PAGING_SWP_def PAGING_PTE_OFFST_def PAGING_OFFST_def
      PAGING_PTE_PGN_def PAGING_PGN_def PAGING_PTE_SET_PRESENT_def SETBIT_def GETVAL_def PAGING_SWPFPN_OFFSET_def)

text \<open>The field of a physical address that holds the frame number has 13 bits in RAM, like the one of an
  entry, and 21 bits in swap, like the offset of a swapped page.\<close>

lemma frame_fields:
  "bit PAGING_FPN_MASK n \<longleftrightarrow> 8 \<le> n \<and> n \<le> 20" "bit PAGING_SWP_MASK n \<longleftrightarrow> 8 \<le> n \<and> n \<le> 28"
  by (simp_all add: PAGING_FPN_MASK_def PAGING_SWP_MASK_def PAGING_ADDR_FPN_HIBIT_def PAGING_SWP_HIBIT_def
      PAGING_ADDR_FPN_LOBIT_def PAGING_SWP_LOBIT_def PAGING_PAGESZ_def bit_GENMASK)

end
