(* ===== verification/OS_Bytes.thy ===== *)
theory OS_Bytes
  imports OS_Alloc
begin

text \<open>
  Isolation of memory contents.  \<open>OS_Confine\<close> shows that an instruction leaves the bookkeeping of
  other processes alone; here the bytes are added: allocation and release touch no byte of RAM and
  swap, and an access to a byte of the process reaches no frame of another one.
\<close>

section \<open>Operations that touch no byte\<close>

definition cells_kept :: "caller \<Rightarrow> caller \<Rightarrow> bool" where
  "cells_kept c c' \<longleftrightarrow> storage (mram c') = storage (mram c) \<and> storage (active_mswp c') = storage (active_mswp c)"

lemma cells_kept_refl [simp]: "cells_kept c c"
  by (simp add: cells_kept_def)

lemma cells_kept_mm [simp]: "cells_kept c (c'\<lparr>own_mm := x\<rparr>) = cells_kept c c'"
  by (simp add: cells_kept_def)

lemma cells_kept_trans: "cells_kept c c1 \<Longrightarrow> cells_kept c1 c2 \<Longrightarrow> cells_kept c c2"
  by (simp add: cells_kept_def)

lemma get_freefp_storage: "MEMPHY_get_freefp mp = Inr (r, mp') \<Longrightarrow> storage mp' = storage mp"
  by (auto simp: MEMPHY_get_freefp_def split: fp_list.splits)

lemma take_frames_storage: "take_frames MEMPHY_get_freefp n mp = Inr (ok, fs, mp') \<Longrightarrow> storage mp' = storage mp"
  by (induction n arbitrary: mp ok fs) (auto simp: bindR_eq_Inr get_freefp_storage split: option.splits)

lemma pte_set_fpn_cells: "pte_set_fpn c p f = Inr (r, c') \<Longrightarrow> cells_kept c c'"
  by (auto simp: pte_set_fpn_def get_pte_def store_pte_def bindR_eq_Inr cells_kept_def Let_def split: option.splits prod.splits)

lemma vmap_loop_cells: "vmap_loop k i c addr fs = Inr (r, c') \<Longrightarrow> cells_kept c c'"
proof (induction k arbitrary: i c fs)
  case (Suc k)
  show ?case
  proof (cases fs)
    case (Cons f gs)
    then obtain r1 c1 mm where s: "pte_set_fpn c (addr div of_nat PAGING_PAGESZ + of_nat i) f = Inr (r1, c1)"
      and l: "vmap_loop k (Suc i) (c1\<lparr>own_mm := Some mm\<rparr>) addr gs = Inr (r, c')"
      using Suc.prems by (auto simp: bindR_eq_Inr Let_def)
    from pte_set_fpn_cells [OF s] Suc.IH [OF l] show ?thesis by (simp add: cells_kept_def)
  qed (use Suc.prems in simp)
qed simp

lemma vm_map_ram_cells: "vm_map_ram c s e at n rg = Inr (r, rg', c') \<Longrightarrow> cells_kept c c'"
  by (auto simp: vm_map_ram_def alloc_pages_range_def vmap_page_range_def bindR_eq_Inr cells_kept_def Let_def
      dest!: take_frames_storage vmap_loop_cells split: if_splits)

lemma inc_vma_cells: "inc_vma_limit c vmaid sz = Inr (r, c') \<Longrightarrow> cells_kept c c'"
  by (auto simp: inc_vma_limit_def bindR_eq_Inr Let_def dest!: vm_map_ram_cells split: if_splits option.splits)

lemma free_area_cells: "get_free_vmrg_area c vmaid sz = (g, c') \<Longrightarrow> cells_kept c c'"
  by (auto simp: get_free_vmrg_area_def split: option.splits if_splits)

section \<open>The whole state\<close>

definition bytes_kept :: "os_t \<Rightarrow> os_t \<Rightarrow> bool" where
  "bytes_kept s s' \<longleftrightarrow> k_mram s' = k_mram s \<and> k_active_mswp s' = k_active_mswp s \<and> (os_wf s \<longrightarrow> os_wf s')
     \<and> storage (device s' (k_mram s)) = storage (device s (k_mram s))
     \<and> storage (device s' (k_active_mswp s)) = storage (device s (k_active_mswp s))"

lemma bytes_kept_refl [simp]: "bytes_kept s s"
  by (simp add: bytes_kept_def)

lemma bytes_kept_trans: "bytes_kept s s1 \<Longrightarrow> bytes_kept s1 s2 \<Longrightarrow> bytes_kept s s2"
  by (simp add: bytes_kept_def)

lemma bytes_kept_set_mm [simp]: "bytes_kept s (set_proc_mm s p mm)"
  by (simp add: bytes_kept_def os_wf_set_mm)

lemma bytes_kept_store: "os_wf s \<Longrightarrow> cells_kept (load_caller s p) c \<Longrightarrow> bytes_kept s (store_caller s q c)"
  using device_store_caller [of s q c] by (simp add: bytes_kept_def cells_kept_def os_wf_store_caller)

lemma syscall_inc_bytes:
  assumes "os_wf s" and "syscall s i 17 \<lparr>a1 = of_int SYSMEM_INC_OP, a2 = x, a3 = y\<rparr> = Inr (r, regs, s')"
  shows "bytes_kept s s'"
proof (cases "find_caller s i")
  case None
  then show ?thesis using assms(2) by (simp add: syscall_def sys_memmap_def)
next
  case (Some q)
  then obtain r1 c where "inc_vma_limit (load_caller s q) (ucast x) y = Inr (r1, c)" "s' = store_caller s q c"
    using assms(2) by (auto simp: syscall_inc on_proc_def bindR_eq_Inr)
  then show ?thesis using bytes_kept_store [OF assms(1) inc_vma_cells] by simp
qed

lemma liballoc_bytes:
  assumes wf: "os_wf s" and st: "liballoc s p sz rgid = Inr (r, s')"
  shows "bytes_kept s s'"
proof -
  obtain x where l: "lib_alloc s p 0 rgid sz = Inr (x, s')"
    using st by (auto simp: liballoc_def bindR_eq_Inr split: if_splits)
  show ?thesis
  proof (cases "proc_mm s p = None \<or> get_vma_by_num (proc_mm s p) 0 = None")
    case True
    then show ?thesis using l by (auto simp: lib_alloc_def split: option.splits)
  next
    case False
    then obtain mm k where mm: "proc_mm s p = Some mm" "get_vma_by_num (Some mm) 0 = Some k" by auto
    obtain g c where g: "get_free_vmrg_area (load_caller s p) 0 (ucast sz) = (g, c)"
      by (cases "get_free_vmrg_area (load_caller s p) 0 (ucast sz)")
    note c = free_area_cells [OF g]
    show ?thesis
    proof (cases g)
      case (Some rg)
      then show ?thesis using l bytes_kept_store [OF wf, of p] c by (auto simp: lib_alloc_def mm g bindR_eq_Inr)
    next
      case None
      let ?s = "store_caller s p c"
      obtain r1 regs s1 mm1 where sy: "syscall ?s (pid (pcbs s ! p)) 17 \<lparr>a1 = of_int SYSMEM_INC_OP, a2 = scast (0 :: i32), a3 = sz\<rparr> = Inr (r1, regs, s1)"
        and s': "s' = set_proc_mm s1 p mm1"
        using l by (auto simp: lib_alloc_def mm g None bindR_eq_Inr Let_def)
      have 1: "bytes_kept s ?s" by (rule bytes_kept_store [OF wf c])
      have 2: "bytes_kept ?s s1" by (rule syscall_inc_bytes [OF os_wf_store_caller [OF wf] sy])
      show ?thesis unfolding s' by (rule bytes_kept_trans [OF bytes_kept_trans [OF 1 2] bytes_kept_set_mm])
    qed
  qed
qed

lemma libfree_bytes: "libfree s p rgid = Inr (r, s') \<Longrightarrow> bytes_kept s s'"
  by (auto simp: libfree_def lib_free_def bindR_eq_Inr split: if_splits option.splits)

text \<open>What a process sees of its memory depends on its tables and on the bytes of RAM only.\<close>

lemma vbyte_kept:
  assumes "bytes_kept s s'" and "length (pcbs s') = length (pcbs s)" and "proc_mm s' q = proc_mm s q"
  shows "vbyte s' q b = vbyte s q b"
  using assms by (simp add: vbyte_def frame_at_def bytes_kept_def)

section \<open>Accesses\<close>

text \<open>The instruction accesses a byte of the process itself, through a register of the table, and makes no
  memory system call.  A read looks its region up in the \<open>mm_struct\<close> the kernel points to.\<close>

definition own_access :: "os_t \<Rightarrow> pcb_ref \<Rightarrow> inst_t \<Rightarrow> bool" where
  "own_access s p i =
     (case opcode i of
        READ \<Rightarrow> unat (ucast (arg_0 i) :: u32) < 30 \<and> (case k_mm s of None \<Rightarrow> False | Some m \<Rightarrow>
          vbyte s p (unat (rg_start (symrgtbl (mms s ! m) ! unat (ucast (arg_0 i) :: u32)) + arg_1 i)) \<noteq> None)
      | WRITE \<Rightarrow> unat (ucast (arg_1 i) :: u32) < 30 \<and> (case proc_mm s p of None \<Rightarrow> False | Some mm \<Rightarrow>
          vbyte s p (unat (rg_start (symrgtbl mm ! unat (ucast (arg_1 i) :: u32)) + arg_2 i)) \<noteq> None)
      | SYSCALL \<Rightarrow> (ucast (arg_0 i) :: u32) \<noteq> 17
      | _ \<Rightarrow> True)"

definition others_kept :: "os_t \<Rightarrow> pcb_ref \<Rightarrow> os_t \<Rightarrow> bool" where
  "others_kept s p s' \<longleftrightarrow> (\<forall>q b. q \<noteq> p \<longrightarrow> q < length (pcbs s) \<longrightarrow> vbyte s' q b = vbyte s q b)
     \<and> storage (device s' (k_active_mswp s)) = storage (device s (k_active_mswp s))"

lemma others_kept_refl [simp]: "others_kept s p s"
  by (simp add: others_kept_def)

lemma others_kept_bytes:
  assumes "bytes_kept s s'" and "confined s p s'"
  shows "others_kept s p s'"
  using vbyte_kept [OF assms(1)] assms by (simp add: others_kept_def confined_def) (simp add: bytes_kept_def)

text \<open>A process that is not in the running list has its memory system calls refused.\<close>

lemma syscall_refused: "find_caller s i = None \<Longrightarrow> syscall s i 17 regs = Inr (-1, regs, s)"
  by (simp add: syscall_def sys_memmap_def)

lemma access_refused:
  assumes ok: "frames_ok s" and p: "p < length (pcbs s)" "proc_mm s p = Some mm"
    and none: "find_caller s (pid (pcbs s ! p)) = None" and a: "unat (a :: u64) < unat (sbrk (heap mm))"
  shows "pg_setval s p (ucast a) v = Inr (0, s)" and "pg_getval s p (ucast a) = Inr (0, s)"
proof -
  note at = frames_ok_at [OF ok p a] and wf = frames_okD(1) [OF ok]
  have mmok: "mm_ok mm" using frames_okD(4) [OF ok p] by (simp add: space_ok_def)
  obtain f where "pg_getpage s p (PAGING_PGN (ucast a)) = Inr ((0, Some f), s)"
    using pg_getpage_resident [OF wf p(2) mmok, of "PAGING_PGN (ucast a)"] at(2) by (simp only: page_of_addr(1) [OF at(4)])
  then show "pg_setval s p (ucast a) v = Inr (0, s)" "pg_getval s p (ucast a) = Inr (0, s)"
    by (simp_all add: pg_setval_def pg_getval_def syscall_refused [OF none])
qed

lemma setval_others:
  assumes ok: "frames_ok s" and p: "p < length (pcbs s)" "proc_mm s p = Some mm" and c: "caller_found s p"
    and a: "unat (a :: u64) < unat (sbrk (heap mm))" and st: "pg_setval s p (ucast a) v = Inr (r, s')"
  shows "others_kept s p s'"
proof (cases "find_caller s (pid (pcbs s ! p))")
  case None
  then show ?thesis using access_refused(1) [OF ok p None a] st by simp
next
  case (Some q)
  then have l: "listed s p" using c by (simp add: caller_found_def listed_def)
  let ?f = "page_frame mm (of_nat (unat a div 256))"
  let ?st = "(storage (ram s))[?f * 256 + unat a mod 256 := v]"
  have s': "s' = set_ram s ((ram s)\<lparr>storage := ?st\<rparr>)" using pg_setval_at [OF ok p l a, of v] st by simp
  have "vbyte s' q b = vbyte s q b" if "q \<noteq> p" for q b
    unfolding s' using vbyte_write [OF ok frames_ok_at(1) [OF ok p a], of v q b] that by simp
  moreover have "device s' (k_active_mswp s) = device s (k_active_mswp s)"
    using frames_okD(1) [OF ok] by (auto simp: s' os_wf_def set_ram_def device_def set_device_def)
  ultimately show ?thesis by (simp add: others_kept_def)
qed

lemma getval_same:
  assumes ok: "frames_ok s" and p: "p < length (pcbs s)" "proc_mm s p = Some mm" and c: "caller_found s p"
    and a: "unat (a :: u64) < unat (sbrk (heap mm))"
  shows "pg_getval s p (ucast a) = Inr (0, s)"
proof (cases "find_caller s (pid (pcbs s ! p))")
  case None
  then show ?thesis using access_refused(2) [OF ok p None a] by simp
next
  case (Some q)
  then have "listed s p" using c by (simp add: caller_found_def listed_def)
  then show ?thesis using pg_getval_at [OF ok p _ a] by simp
qed

lemma below_break:
  assumes "frames_ok s" and "p < length (pcbs s)" and "proc_mm s p = Some mm" and "vbyte s p a \<noteq> None"
  shows "a < unat (sbrk (heap mm))"
  using vbyte_iff [OF assms(1-3)] assms(4) by blast

lemma exec_others:
  assumes ok: "frames_ok s" and p: "p < length (pcbs s)" and c: "caller_found s p" and i: "own_access s p i"
    and conf: "confined s p s'" and st: "exec_inst data0 s p i = Inr (r, s')"
  shows "others_kept s p s'"
proof (cases "opcode i")
  case ALLOC
  then show ?thesis using liballoc_bytes [OF frames_okD(1) [OF ok]] st conf by (auto simp: exec_inst_def intro: others_kept_bytes)
next
  case FREE
  then show ?thesis using libfree_bytes st conf by (auto simp: exec_inst_def intro: others_kept_bytes)
next
  case WRITE
  let ?r = "ucast (arg_1 i) :: u32"
  obtain mm where mm: "proc_mm s p = Some mm" and reg: "unat ?r < 30"
    and v: "vbyte s p (unat (rg_start (symrgtbl mm ! unat ?r) + arg_2 i)) \<noteq> None"
    using i WRITE by (auto simp: own_access_def split: option.splits)
  have "libwrite s p (ucast (arg_0 i)) ?r (arg_2 i) = Inr (r, s')" using st WRITE by (simp add: exec_inst_def)
  then obtain r1 where "lib_write s p 0 ?r (arg_2 i) (ucast (arg_0 i)) = Inr (r1, s')"
    by (auto simp: libwrite_def bindR_eq_Inr split: if_splits)
  then have "s' = s \<or> (\<exists>r1. pg_setval s p (ucast (rg_start (symrgtbl mm ! unat ?r) + arg_2 i)) (ucast (arg_0 i)) = Inr (r1, s'))"
    using mm reg by (auto simp: lib_write_def symrg_small bindR_eq_Inr get_at_def split: option.splits if_splits)
  then show ?thesis using setval_others [OF ok p mm c below_break [OF ok p mm v]] by auto
next
  case READ
  let ?r = "ucast (arg_0 i) :: u32"
  show ?thesis
  proof (cases "proc_mm s p")
    case None
    then show ?thesis using st READ by (auto simp: exec_inst_def libread_def lib_read_def bindR_eq_Inr)
  next
    case (Some mm)
    obtain m where m: "k_mm s = Some m" and reg: "unat ?r < 30"
      and v: "vbyte s p (unat (rg_start (symrgtbl (mms s ! m) ! unat ?r) + arg_1 i)) \<noteq> None"
      using i READ by (auto simp: own_access_def split: option.splits)
    have "libread data0 s p ?r (arg_1 i) = Inr (x, s1) \<Longrightarrow> s1 = s" for x s1
      using Some m reg getval_same [OF ok p Some c below_break [OF ok p Some v]]
      by (auto simp: libread_def lib_read_def symrg_small bindR_eq_Inr get_at_def split: if_splits)
    then show ?thesis using st READ by (auto simp: exec_inst_def bindR_eq_Inr)
  qed
next
  case SYSCALL
  then show ?thesis using st i by (auto simp: exec_inst_def own_access_def libsyscall_def syscall_def bindR_eq_Inr split: if_splits)
qed (use st in \<open>auto simp: exec_inst_def calc_def libkmem_malloc_def libkmem_cache_pool_create_def libkmem_cache_alloc_def
   libkmem_copy_from_user_def libkmem_copy_to_user_def\<close>)

section \<open>Moving the program counter\<close>

lemma move_pc:
  fixes s p x
  defines "s1 \<equiv> s\<lparr>pcbs := (pcbs s)[p := (pcbs s ! p)\<lparr>pc := x\<rparr>]\<rparr>"
  shows "pid (pcbs s1 ! q) = pid (pcbs s ! q)" and "proc_mm s1 q = proc_mm s q" and "length (pcbs s1) = length (pcbs s)"
    and "find_caller s1 i = find_caller s i" and "caller_found s1 p = caller_found s p"
    and "frames_ok s1 = frames_ok s" and "vbyte s1 = vbyte s" and "own_access s1 p ins = own_access s p ins"
    and "device s1 d = device s d" and "k_active_mswp s1 = k_active_mswp s"
proof -
  have pcb: "pid (pcbs s1 ! q) = pid (pcbs s ! q)" "pcb_mm (pcbs s1 ! q) = pcb_mm (pcbs s ! q)" for q
    by (cases "p < length (pcbs s)"; simp add: s1_def nth_list_update list_update_beyond)+
  have same: "length (pcbs s1) = length (pcbs s)" "mms s1 = mms s" "devs s1 = devs s" "sched s1 = sched s"
    "k_running s1 = k_running s" "k_mm s1 = k_mm s" "k_mram s1 = k_mram s" "k_active_mswp s1 = k_active_mswp s"
    by (simp_all add: s1_def)
  show mm: "proc_mm s1 q = proc_mm s q" for q by (simp add: proc_mm_def pcb same)
  show fc: "find_caller s1 i = find_caller s i" for i by (simp only: find_caller_def pcb same)
  have fr: "frame_at s1 = frame_at s" by (simp add: frame_at_def fun_eq_iff same mm)
  show dev: "device s1 d = device s d" for d by (simp add: device_def same split: option.split)
  show vb: "vbyte s1 = vbyte s" by (simp add: vbyte_def fun_eq_iff fr dev same split: option.split)
  have "os_wf s1 = os_wf s" by (simp only: os_wf_def pcb same)
  then show "frames_ok s1 = frames_ok s" by (simp only: frames_ok_def mm fr same dev)
  show "pid (pcbs s1 ! q) = pid (pcbs s ! q)" "length (pcbs s1) = length (pcbs s)" "k_active_mswp s1 = k_active_mswp s"
    by (simp_all add: pcb same)
  show "caller_found s1 p = caller_found s p" by (simp add: caller_found_def pcb fc)
  show "own_access s1 p ins = own_access s p ins" by (simp only: own_access_def vb mm same)
qed

section \<open>One instruction\<close>

text \<open>C14: An instruction changes no other process, bytes of memory included.  In a state where every
  process has its own \<open>mm_struct\<close> and every frame one owner (\<open>frames_ok\<close>), let the search of the
  running list find the process itself or nobody under its identifier (\<open>caller_found\<close>), and let the
  instruction access, if anything, a byte of the process and make no memory system call
  (\<open>own_access\<close>).  Then one call of \<open>run\<close> leaves the control block, the tables and regions and every
  byte of the virtual memory of every other process as they are, and the bytes of the swap
  device and the scheduler.  Of the own control block only the program counter moves, by
  one; a process at its end is left as it is with result 1.\<close>

theorem run_confined:
  assumes "frames_ok s" and "p < length (pcbs s)" and "caller_found s p"
    and "pc (pcbs s ! p) < code_size (code (pcbs s ! p))
      \<Longrightarrow> own_access s p (code_text (code (pcbs s ! p)) ! unat (pc (pcbs s ! p)))"
    and "run data0 s p = Inr (r, s')"
  shows "(\<forall>q < length (pcbs s). q \<noteq> p \<longrightarrow> pcbs s' ! q = pcbs s ! q \<and> proc_mm s' q = proc_mm s q
      \<and> (\<forall>b. vbyte s' q b = vbyte s q b))
    \<and> storage (device s' (k_active_mswp s)) = storage (device s (k_active_mswp s))
    \<and> sched s' = sched s \<and> length (pcbs s') = length (pcbs s)
    \<and> (if pc (pcbs s ! p) < code_size (code (pcbs s ! p))
       then pcbs s' ! p = (pcbs s ! p)\<lparr>pc := pc (pcbs s ! p) + 1\<rparr>
       else s' = s \<and> r = 1)"
proof -
  note kept = run_keeps_others [OF frames_okD(1) [OF assms(1)] assms(2,3,5)]
  have "others_kept s p s'"
  proof (cases "pc (pcbs s ! p) < code_size (code (pcbs s ! p))")
    case False
    then show ?thesis using kept by simp
  next
    case True
    let ?i = "code_text (code (pcbs s ! p)) ! unat (pc (pcbs s ! p))"
    let ?s1 = "s\<lparr>pcbs := (pcbs s)[p := (pcbs s ! p)\<lparr>pc := pc (pcbs s ! p) + 1\<rparr>]\<rparr>"
    have ex: "exec_inst data0 ?s1 p ?i = Inr (r, s')"
      using assms(5) True by (auto simp: run_def Let_def bindR_eq_Inr fetch_def get_at_def not_le [symmetric] split: if_splits)
    have ok: "frames_ok ?s1" and p: "p < length (pcbs ?s1)" and c: "caller_found ?s1 p" and own: "own_access ?s1 p ?i"
      using assms(1-3) assms(4) [OF True] by (simp_all only: move_pc)
    have "call_ok ?s1 p" using frames_okD(1) [OF ok] p c by (simp only: call_ok_def)
    then have "confined ?s1 p s'"
      using inside.stays_exec [OF within_refl, of ?s1 p data0 ?i] ex by (simp add: stays_def within_def)
    from exec_others [OF ok p c own this ex] show ?thesis unfolding others_kept_def move_pc .
  qed
  then show ?thesis using kept unfolding others_kept_def by blast
qed


text \<open>A witness: both processes of the small machine own 300 bytes when process 0 writes its first one.\<close>

lemma small_two:
  obtains s mm g where "frames_ok s" and "2 = length (pcbs s)" and "proc_mm s 0 = Some mm" and "listed s 0"
    and "pcbs s ! 0 = small_pcb 0 is" and "symrgtbl mm ! 2 = g" and "vbyte s 0 (unat (rg_start g)) \<noteq> None"
    and "\<exists>b. vbyte s 1 b \<noteq> None"
proof -
  let ?s = "small_os is []"
  have pg: "pages 300 = 2" by (simp add: pages_def)
  have fr: "free_frames (ram ?s) = [0, 1, 2, 3]" using fresh_ram by (simp add: fresh_caller_def)
  have pool: "pool_ok (ram ?s)" using frames_okD(3) [OF small_os_ok] .
  have free: "first_fit x (vm_freerg_list (heap fresh_mm)) = None" if "x = 300" for x
    using that by (simp add: fresh_mm_def init_mm_def heap_def enlist_vm_rg_node_def Let_def init_vm_rg_def)
  obtain s mm1 g1 where a: "liballoc ?s 1 300 0 = Inr (0, s)" "frames_ok s" "proc_mm s 1 = Some mm1"
    "unat (rg_end g1) = unat (rg_start g1) + 300" "\<And>b. covers b g1 \<Longrightarrow> vbyte s 1 b \<noteq> None"
    using liballoc_ok [OF small_os_ok, of 1 "is" "[]" fresh_mm 0 300] small_os_listed(2) fr pg by auto
  obtain mp m' where b: "liballoc ?s 1 300 0 = Inr (0, set_ram (set_proc_mm ?s 1 m') mp)" "free_frames mp = [2, 3]"
    using liballoc_grow [OF small_os_wf, of 1 "is" "[]" fresh_mm 300 0] small_os_listed(2) pool fr pg free
      fresh_mm by auto
  have c1: "confined ?s 1 s" using liballoc_confined [OF small_os_ok _ small_os_listed(2) a(1)] by simp
  have s: "length (pcbs s) = 2" "proc_mm s 0 = Some fresh_mm" "listed s 0" "pcbs s ! 0 = small_pcb 0 is"
    using c1 listed_confined [OF c1] small_os_listed(1) by (simp_all add: confined_def)
  have "s = set_ram (set_proc_mm ?s 1 m') mp" using a(1) b(1) by simp
  then have n: "free_frames (ram s) = [2, 3]" using b(2) by (simp add: set_ram_def set_proc_mm_def small_pcb_def device_def set_device_def) (simp add: small_os_def)
  obtain t mm g where d: "liballoc s 0 300 2 = Inr (0, t)" "frames_ok t" "proc_mm t 0 = Some mm"
    "symrgtbl mm = (symrgtbl fresh_mm)[2 := g]" "unat (rg_end g) = unat (rg_start g) + 300"
    "\<And>b. covers b g \<Longrightarrow> vbyte t 0 b \<noteq> None" "\<And>q b. vbyte s q b \<noteq> None \<Longrightarrow> vbyte t q b = vbyte s q b"
    using liballoc_ok [OF a(2) _ s(2,3), of 2 300] n pg by (auto simp: s(1))
  have c2: "confined s 0 t" using liballoc_confined [OF a(2) _ s(3) d(1)] by (simp add: s(1))
  have "\<exists>b. vbyte t 1 b \<noteq> None" using a(4) a(5) [of "unat (rg_start g1)"] d(7) [of 1 "unat (rg_start g1)"]
    by (intro exI [of _ "unat (rg_start g1)"]) (simp add: covers_def)
  moreover have "symrgtbl mm ! 2 = g" by (simp add: d(4) PAGING_MAX_SYMTBL_SZ_def)
  moreover have "vbyte t 0 (unat (rg_start g)) \<noteq> None" using d(5,6) by (simp add: covers_def)
  ultimately show ?thesis
    using that [of t mm g] d(2,3) c2 s listed_confined [OF c2] by (simp add: confined_def)
qed

theorem run_confined_witness:
  "\<exists>s s'. run 0 s 0 = Inr (0, s') \<and> pc (pcbs s' ! 0) = 1 \<and> (\<exists>b. vbyte s' 0 b = Some 65)
     \<and> (\<exists>b. vbyte s 1 b \<noteq> None) \<and> (\<forall>b. vbyte s' 1 b = vbyte s 1 b)"
proof -
  let ?i = "\<lparr>opcode = WRITE, arg_0 = 65, arg_1 = 2, arg_2 = 0, arg_3 = 0\<rparr>"
  obtain s mm g where s: "frames_ok s" "2 = length (pcbs s)" "proc_mm s 0 = Some mm" "listed s 0"
    "pcbs s ! 0 = small_pcb 0 [?i]" "symrgtbl mm ! 2 = g" "vbyte s 0 (unat (rg_start g)) \<noteq> None"
    "\<exists>b. vbyte s 1 b \<noteq> None" by (rule small_two)
  let ?s1 = "s\<lparr>pcbs := (pcbs s)[0 := (pcbs s ! 0)\<lparr>pc := pc (pcbs s ! 0) + 1\<rparr>]\<rparr>"
  have pc: "pc (pcbs s ! 0) = 0" "code_size (code (pcbs s ! 0)) = 1" "code_text (code (pcbs s ! 0)) = [?i]"
    by (simp_all add: s(5) small_pcb_def)
  have args: "ucast (2 :: u64) = (2 :: u32)" "ucast (65 :: u64) = (65 :: u8)" by simp_all
  have own: "own_access s 0 ?i" using s(3,6,7) by (simp add: own_access_def args)
  have c: "caller_found s 0" using s(4) by (simp add: caller_found_def listed_def)
  have ok: "frames_ok ?s1" "0 < length (pcbs ?s1)" "proc_mm ?s1 0 = Some mm" "listed ?s1 0"
    using s(1-4) by (simp_all only: move_pc listed_def)
  have "vbyte ?s1 0 (unat (rg_start (symrgtbl mm ! unat (2 :: u32)) + 0)) \<noteq> None" using s(6,7) by (simp only: move_pc) simp
  then obtain s' where s': "libwrite ?s1 0 65 2 0 = Inr (0, s')"
    "vbyte s' 0 (unat (rg_start (symrgtbl mm ! unat (2 :: u32)) + 0)) = Some 65"
    using libwrite_virtual_byte [OF ok, of 2 0 65] by auto
  have "run 0 s 0 = Inr (0, s')" using s'(1) by (simp add: run_def Let_def pc fetch_def get_at_def exec_inst_def args)
  moreover from run_confined [OF s(1) _ c _ this] s(2) [symmetric] own pc
  have "\<forall>b. vbyte s' 1 b = vbyte s 1 b" "pc (pcbs s' ! 0) = 1" by (auto simp: length_greater_0_conv [symmetric] simp del: length_greater_0_conv)
  ultimately show ?thesis using s(8) s'(2) by blast
qed

end
