(* ===== verification/OS_Race.thy ===== *)
theory OS_Race
  imports OS_Libmem
begin

text \<open>
  Below the granularity of instructions: \<open>find_victim_page\<close> and \<open>MEMPHY_get_freefp\<close> on the nodes of their
  linked lists, one access to shared memory per step.  A thread that is alone performs the list
  operation the rest of the development uses; two threads that run the same code at once, as
  reads on two CPUs may (\<open>__read\<close> takes no \<open>mmvm_lock\<close>), free one node twice or take one frame
  twice.
\<close>

section \<open>Threads\<close>

datatype heap_fault = Null_pointer | Freed_node

fun alone :: "('s \<Rightarrow> 't \<Rightarrow> 'e + 's \<times> 't) \<Rightarrow> nat \<Rightarrow> 's \<times> 't \<Rightarrow> 'e + 's \<times> 't" where
  "alone step 0 x = Inr x"
| "alone step (Suc k) (s, t) = bindR (step s t) (alone step k)"

text \<open>Two threads; the schedule says for each step whether the second one takes it.\<close>

fun interleave ::
  "('s \<Rightarrow> 't \<Rightarrow> 'e + 's \<times> 't) \<Rightarrow> bool list \<Rightarrow> 's \<times> 't \<times> 't \<Rightarrow> 'e + 's \<times> 't \<times> 't" where
  "interleave step [] x = Inr x"
| "interleave step (False # bs) (s, t, u) = bindR (step s t) (\<lambda>(s, t). interleave step bs (s, t, u))"
| "interleave step (True # bs) (s, t, u) = bindR (step s u) (\<lambda>(s, u). interleave step bs (s, t, u))"

lemma alone_add: "alone step k x = Inr y \<Longrightarrow> alone step (k + j) x = alone step j y"
proof (induction k arbitrary: x)
  case (Suc k)
  then show ?case by (cases x) (auto simp: bindR_eq_Inr)
qed simp

lemma alone_snoc: "alone step k x = Inr (s, t) \<Longrightarrow> step s t = Inr y \<Longrightarrow> alone step (Suc k) x = Inr y"
  using alone_add [of step k x "(s, t)" 1] by (cases y) simp

lemma interleave_append:
  "interleave step bs x = Inr y \<Longrightarrow> interleave step (bs @ cs) x = interleave step cs y"
proof (induction step bs x rule: interleave.induct)
  case (2 step bs s t u)
  then show ?case by (auto simp: bindR_eq_Inr)
next
  case (3 step bs s t u)
  then show ?case by (auto simp: bindR_eq_Inr)
qed simp

lemma interleave_first:
  "alone step k (s, t) = Inr (s', t') \<Longrightarrow> interleave step (replicate k False) (s, t, u) = Inr (s', t', u)"
proof (induction k arbitrary: s t)
  case (Suc k)
  then show ?case by (fastforce simp: bindR_eq_Inr)
qed simp

lemma interleave_second:
  "alone step k (s, u) = Inr (s', u') \<Longrightarrow> interleave step (replicate k True) (s, t, u) = Inr (s', t, u')"
proof (induction k arbitrary: s u)
  case (Suc k)
  then show ?case by (fastforce simp: bindR_eq_Inr)
qed simp

section \<open>Linked lists\<close>

text \<open>From \<open>p\<close> on the nodes hold the values of \<open>xs\<close>, which pairs addresses and values.\<close>

fun chain :: "('n \<Rightarrow> nat option) \<Rightarrow> ('n \<Rightarrow> u64) \<Rightarrow> (nat \<Rightarrow> 'n option) \<Rightarrow> nat option \<Rightarrow> (nat \<times> u64) list \<Rightarrow> bool" where
  "chain next val h p [] = (p = None)"
| "chain next val h p ((a, x) # xs) = (p = Some a \<and> (\<exists>n. h a = Some n \<and> val n = x \<and> chain next val h (next n) xs))"

lemma chain_upd [simp]: "a \<notin> fst ` set xs \<Longrightarrow> chain next val (h(a := n)) p xs = chain next val h p xs"
  by (induction "next" val h p xs rule: chain.induct) auto

lemma chain_last: "chain next val h p (xs @ [(a, x)]) \<Longrightarrow> \<exists>n. h a = Some n \<and> val n = x \<and> next n = None"
  by (induction "next" val h p xs rule: chain.induct) auto

section \<open>The FIFO list of a process\<close>

record pgn_t =
  pgn :: u64
  pg_next :: "nat option"

text \<open>Freed nodes are \<open>None\<close>.\<close>

record fifo_t =
  fifo_head :: "nat option"
  pg_nodes :: "nat \<Rightarrow> pgn_t option"

datatype victim_at = V_head | V_test | V_move | V_last | V_unlink | V_free | V_ret int

record victim_t =
  v_pg :: "nat option"
  v_prev :: "nat option"
  v_retpgn :: "u64 option"
  v_at :: victim_at

definition victim_start :: victim_t where
  "victim_start = \<lparr>v_pg = None, v_prev = None, v_retpgn = None, v_at = V_head\<rparr>"

definition pg_node :: "fifo_t \<Rightarrow> nat option \<Rightarrow> heap_fault + nat \<times> pgn_t" where
  "pg_node m p =
     (case p of None \<Rightarrow> Inl Null_pointer
      | Some a \<Rightarrow> (case pg_nodes m a of None \<Rightarrow> Inl Freed_node | Some n \<Rightarrow> Inr (a, n)))"

definition victim_step :: "fifo_t \<Rightarrow> victim_t \<Rightarrow> heap_fault + fifo_t \<times> victim_t" where
  "victim_step m t =
     (case v_at t of
        V_head \<Rightarrow> Inr (m, t\<lparr>v_pg := fifo_head m, v_prev := None,
                           v_at := if fifo_head m = None then V_ret (-1) else V_test\<rparr>)
      | V_test \<Rightarrow> bindR (pg_node m (v_pg t)) (\<lambda>(_, n).
          Inr (m, t\<lparr>v_at := if pg_next n = None then V_last else V_move\<rparr>))
      | V_move \<Rightarrow> bindR (pg_node m (v_pg t)) (\<lambda>(a, n).
          Inr (m, t\<lparr>v_prev := Some a, v_pg := pg_next n, v_at := V_test\<rparr>))
      | V_last \<Rightarrow> bindR (pg_node m (v_pg t)) (\<lambda>(_, n). Inr (m, t\<lparr>v_retpgn := Some (pgn n), v_at := V_unlink\<rparr>))
      | V_unlink \<Rightarrow>
          (if v_prev t = None then Inr (m\<lparr>fifo_head := None\<rparr>, t\<lparr>v_at := V_free\<rparr>)
           else bindR (pg_node m (v_prev t)) (\<lambda>(a, n).
             Inr (m\<lparr>pg_nodes := (pg_nodes m)(a \<mapsto> n\<lparr>pg_next := None\<rparr>)\<rparr>, t\<lparr>v_at := V_free\<rparr>)))
      | V_free \<Rightarrow> bindR (pg_node m (v_pg t)) (\<lambda>(a, _).
          Inr (m\<lparr>pg_nodes := (pg_nodes m)(a := None)\<rparr>, t\<lparr>v_at := V_ret 0\<rparr>))
      | V_ret r \<Rightarrow> Inr (m, t))"

abbreviation "pg_chain \<equiv> chain pg_next pgn"

definition fifo_holds :: "fifo_t \<Rightarrow> (nat \<times> u64) list \<Rightarrow> bool" where
  "fifo_holds m xs \<longleftrightarrow> pg_chain (pg_nodes m) (fifo_head m) xs \<and> distinct (map fst xs)"

text \<open>Cutting the last node off.\<close>

lemma pg_chain_cut:
  assumes "pg_chain h p (xs @ [(b, y), (a, x)])" and "distinct (map fst (xs @ [(b, y), (a, x)]))"
  shows "\<exists>n. h b = Some n \<and> pg_chain (h(b \<mapsto> n\<lparr>pg_next := None\<rparr>, a := z)) p (xs @ [(b, y)])"
  using assms by (induction xs arbitrary: p) auto

text \<open>The loop runs to the last node and remembers the node before it.\<close>

lemma victim_walk:
  "pg_chain (pg_nodes m) (v_pg t) (xs @ [(a, x)]) \<Longrightarrow> v_at t = V_test \<Longrightarrow>
   \<exists>k. alone victim_step k (m, t) = Inr (m, t\<lparr>v_pg := Some a, v_prev := if xs = [] then v_prev t else Some (fst (last xs)),
     v_retpgn := Some x, v_at := V_unlink\<rparr>)"
proof (induction xs arbitrary: t)
  case Nil
  then have "alone victim_step 2 (m, t) = Inr (m, t\<lparr>v_pg := Some a, v_retpgn := Some x, v_at := V_unlink\<rparr>)"
    by (auto simp: numeral_2_eq_2 victim_step_def pg_node_def)
  then show ?case by auto
next
  case (Cons c xs)
  obtain b y where c: "c = (b, y)" by (cases c)
  obtain n where n: "v_pg t = Some b" "pg_nodes m b = Some n" "pg_chain (pg_nodes m) (pg_next n) (xs @ [(a, x)])"
    using Cons.prems(1) by (auto simp: c)
  let ?t = "t\<lparr>v_prev := Some b, v_pg := pg_next n\<rparr>"
  have "pg_next n \<noteq> None" using n(3) by (cases xs) auto
  then have "alone victim_step 2 (m, t) = Inr (m, ?t)"
    using n(1,2) Cons.prems(2) by (auto simp: numeral_2_eq_2 victim_step_def pg_node_def)
  note two = alone_add [OF this]
  obtain k where "alone victim_step k (m, ?t) = Inr (m, ?t\<lparr>v_pg := Some a,
      v_prev := if xs = [] then v_prev ?t else Some (fst (last xs)), v_retpgn := Some x, v_at := V_unlink\<rparr>)"
    using Cons.IH [of ?t] n(3) Cons.prems(2) by auto
  then show ?case using two [of k] by (intro exI [of _ "2 + k"]) (simp add: c split: if_splits)
qed

text \<open>From the start to the point where the last node is about to be unlinked, without a write.\<close>

definition at_unlink :: "(nat \<times> u64) list \<Rightarrow> victim_t \<Rightarrow> bool" where
  "at_unlink xs t \<longleftrightarrow> v_pg t = Some (fst (last xs)) \<and> v_retpgn t = Some (snd (last xs)) \<and> v_at t = V_unlink
     \<and> v_prev t = (if length xs = 1 then None else Some (fst (last (butlast xs))))"

lemma victim_search:
  assumes "fifo_holds m xs" and "xs \<noteq> []"
  shows "\<exists>k t. alone victim_step k (m, victim_start) = Inr (m, t) \<and> at_unlink xs t"
proof -
  obtain ys a x where xs: "xs = ys @ [(a, x)]" using assms(2) by (cases xs rule: rev_cases) auto
  let ?t = "victim_start\<lparr>v_pg := fifo_head m, v_at := V_test\<rparr>"
  have chain: "pg_chain (pg_nodes m) (v_pg ?t) (ys @ [(a, x)])" using assms(1) by (simp add: fifo_holds_def xs)
  then have "fifo_head m \<noteq> None" by (cases ys) auto
  then have "alone victim_step 1 (m, victim_start) = Inr (m, ?t)"
    by (auto simp: victim_step_def victim_start_def)
  note start = alone_add [OF this]
  from victim_walk [OF chain] obtain k where "alone victim_step k (m, ?t) = Inr (m, ?t\<lparr>v_pg := Some a,
      v_prev := if ys = [] then v_prev ?t else Some (fst (last ys)), v_retpgn := Some x, v_at := V_unlink\<rparr>)" by auto
  then show ?thesis using start [of k]
    by (intro exI [of _ "1 + k"]) (auto simp: at_unlink_def xs victim_start_def)
qed

text \<open>Unlinking the last node and freeing it.\<close>

definition unlink_last :: "(nat \<times> u64) list \<Rightarrow> fifo_t \<Rightarrow> fifo_t" where
  "unlink_last xs m =
    (if length xs = 1 then m\<lparr>fifo_head := None\<rparr>
     else let b = fst (last (butlast xs)) in m\<lparr>pg_nodes := (pg_nodes m)(b := map_option (pg_next_update (\<lambda>_. None)) (pg_nodes m b))\<rparr>)"

definition free_last :: "(nat \<times> u64) list \<Rightarrow> fifo_t \<Rightarrow> fifo_t" where
  "free_last xs m = m\<lparr>pg_nodes := (pg_nodes m)(fst (last xs) := None)\<rparr>"

lemma victim_unlink:
  assumes "at_unlink xs t" and "length xs \<noteq> 1 \<Longrightarrow> pg_nodes m (fst (last (butlast xs))) \<noteq> None"
  shows "victim_step m t = Inr (unlink_last xs m, t\<lparr>v_at := V_free\<rparr>)"
  using assms by (auto simp: victim_step_def at_unlink_def unlink_last_def pg_node_def Let_def)

lemma victim_free:
  assumes "at_unlink xs t"
  shows "victim_step m (t\<lparr>v_at := V_free\<rparr>) = (if pg_nodes m (fst (last xs)) = None then Inl Freed_node
     else Inr (free_last xs m, t\<lparr>v_at := V_ret 0\<rparr>))"
  using assms by (auto simp: victim_step_def at_unlink_def free_last_def pg_node_def)

lemma fifo_cut:
  assumes "fifo_holds m xs" and "xs \<noteq> []"
  shows "fifo_holds (free_last xs (unlink_last xs m)) (butlast xs)" and "pg_nodes m (fst (last xs)) \<noteq> None"
    and "length xs \<noteq> 1 \<Longrightarrow> pg_nodes m (fst (last (butlast xs))) \<noteq> None"
    and "length xs \<noteq> 1 \<Longrightarrow> fst (last xs) \<noteq> fst (last (butlast xs))"
proof -
  obtain ys a x where xs: "xs = ys @ [(a, x)]" using assms(2) by (cases xs rule: rev_cases) auto
  have ch: "pg_chain (pg_nodes m) (fifo_head m) xs" "distinct (map fst xs)" using assms(1) by (simp_all add: fifo_holds_def)
  show "pg_nodes m (fst (last xs)) \<noteq> None" using chain_last ch(1) by (fastforce simp: xs)
  have "fifo_holds (free_last xs (unlink_last xs m)) (butlast xs) \<and> (length xs \<noteq> 1 \<longrightarrow>
      pg_nodes m (fst (last (butlast xs))) \<noteq> None \<and> fst (last xs) \<noteq> fst (last (butlast xs)))"
  proof (cases ys rule: rev_cases)
    case Nil
    then show ?thesis by (simp add: xs fifo_holds_def unlink_last_def free_last_def)
  next
    case (snoc zs c)
    obtain b y where c: "c = (b, y)" by (cases c)
    from pg_chain_cut [of "pg_nodes m" "fifo_head m" zs b y a x None] ch
    obtain n where "pg_nodes m b = Some n" "pg_chain ((pg_nodes m)(b \<mapsto> n\<lparr>pg_next := None\<rparr>, a := None)) (fifo_head m) (zs @ [(b, y)])"
      by (auto simp: xs snoc c)
    then show ?thesis using ch(2) by (auto simp: xs snoc c fifo_holds_def unlink_last_def free_last_def Let_def butlast_append)
  qed
  then show "fifo_holds (free_last xs (unlink_last xs m)) (butlast xs)"
    "length xs \<noteq> 1 \<Longrightarrow> pg_nodes m (fst (last (butlast xs))) \<noteq> None"
    "length xs \<noteq> 1 \<Longrightarrow> fst (last xs) \<noteq> fst (last (butlast xs))" by blast+
qed

section \<open>The frame lists of a device\<close>

record frame_t =
  fpn :: u64
  fp_next :: "nat option"

record pool_t =
  free_head :: "nat option"
  used_head :: "nat option"
  fp_nodes :: "nat \<Rightarrow> frame_t option"

datatype getfp_at = F_head | F_fpn | F_pop | F_next | F_used | F_ret int

record getfp_t =
  f_fp :: "nat option"
  f_retfpn :: "u64 option"
  f_at :: getfp_at

definition getfp_start :: getfp_t where
  "getfp_start = \<lparr>f_fp = None, f_retfpn = None, f_at = F_head\<rparr>"

definition fp_node :: "pool_t \<Rightarrow> nat option \<Rightarrow> heap_fault + nat \<times> frame_t" where
  "fp_node m p =
     (case p of None \<Rightarrow> Inl Null_pointer
      | Some a \<Rightarrow> (case fp_nodes m a of None \<Rightarrow> Inl Freed_node | Some n \<Rightarrow> Inr (a, n)))"

definition getfp_step :: "pool_t \<Rightarrow> getfp_t \<Rightarrow> heap_fault + pool_t \<times> getfp_t" where
  "getfp_step m t =
     (case f_at t of
        F_head \<Rightarrow> Inr (m, t\<lparr>f_fp := free_head m, f_at := if free_head m = None then F_ret (-1) else F_fpn\<rparr>)
      | F_fpn \<Rightarrow> bindR (fp_node m (f_fp t)) (\<lambda>(_, n). Inr (m, t\<lparr>f_retfpn := Some (fpn n), f_at := F_pop\<rparr>))
      | F_pop \<Rightarrow> bindR (fp_node m (f_fp t)) (\<lambda>(_, n). Inr (m\<lparr>free_head := fp_next n\<rparr>, t\<lparr>f_at := F_next\<rparr>))
      | F_next \<Rightarrow> bindR (fp_node m (f_fp t)) (\<lambda>(a, n).
          Inr (m\<lparr>fp_nodes := (fp_nodes m)(a \<mapsto> n\<lparr>fp_next := used_head m\<rparr>)\<rparr>, t\<lparr>f_at := F_used\<rparr>))
      | F_used \<Rightarrow> Inr (m\<lparr>used_head := f_fp t\<rparr>, t\<lparr>f_at := F_ret 0\<rparr>)
      | F_ret r \<Rightarrow> Inr (m, t))"

definition pool_holds :: "pool_t \<Rightarrow> (nat \<times> u64) list \<Rightarrow> (nat \<times> u64) list \<Rightarrow> bool" where
  "pool_holds m fs us \<longleftrightarrow> chain fp_next fpn (fp_nodes m) (free_head m) fs
     \<and> chain fp_next fpn (fp_nodes m) (used_head m) us \<and> distinct (map fst (fs @ us))"

text \<open>A thread that is alone moves the first free node to the used list.  Of two threads that start
  together both can get the same frame, and the node then points to itself.\<close>

lemma get_freefp_race:
  assumes "pool_holds m ((a, f) # fs) us"
  shows "\<exists>k m' t. alone getfp_step k (m, getfp_start) = Inr (m', t) \<and> f_at t = F_ret 0 \<and> f_retfpn t = Some f
      \<and> pool_holds m' fs ((a, f) # us)"
    and "\<exists>bs m' t u n. interleave getfp_step bs (m, getfp_start, getfp_start) = Inr (m', t, u)
      \<and> f_at t = F_ret 0 \<and> f_at u = F_ret 0 \<and> f_retfpn t = Some f \<and> f_retfpn u = Some f
      \<and> used_head m' = Some a \<and> fp_nodes m' a = Some n \<and> fp_next n = Some a"
proof -
  obtain n where n: "free_head m = Some a" "fp_nodes m a = Some n" "fpn n = f" "chain fp_next fpn (fp_nodes m) (fp_next n) fs"
    and rest: "chain fp_next fpn (fp_nodes m) (used_head m) us" "distinct (map fst (fs @ us))"
      "a \<notin> fst ` set fs" "a \<notin> fst ` set us" using assms by (auto simp: pool_holds_def)
  note steps = getfp_step_def getfp_start_def fp_node_def n(1-3) numeral_eq_Suc
  let ?m = "m\<lparr>free_head := fp_next n, used_head := Some a, fp_nodes := (fp_nodes m)(a \<mapsto> n\<lparr>fp_next := used_head m\<rparr>)\<rparr>"
  have "alone getfp_step 5 (m, getfp_start) = Inr (?m, \<lparr>f_fp = Some a, f_retfpn = Some f, f_at = F_ret 0\<rparr>)"
    by (simp add: steps)
  moreover have "pool_holds ?m fs ((a, f) # us)" using n rest by (auto simp: pool_holds_def)
  ultimately show "\<exists>k m' t. alone getfp_step k (m, getfp_start) = Inr (m', t) \<and> f_at t = F_ret 0 \<and> f_retfpn t = Some f
      \<and> pool_holds m' fs ((a, f) # us)" by (intro exI conjI) auto
  let ?t = "\<lparr>f_fp = Some a, f_retfpn = Some f, f_at = F_ret 0\<rparr>" and ?n = "n\<lparr>fp_next := Some a\<rparr>"
  let ?bs = "[False, True, False, True, False, True, False, False, True, True]"
  let ?m2 = "m\<lparr>free_head := fp_next n, used_head := Some a, fp_nodes := (fp_nodes m)(a \<mapsto> ?n)\<rparr>"
  have "interleave getfp_step ?bs (m, getfp_start, getfp_start) = Inr (?m2, ?t, ?t)" by (simp add: steps)
  then show "\<exists>bs m' t u n. interleave getfp_step bs (m, getfp_start, getfp_start) = Inr (m', t, u)
      \<and> f_at t = F_ret 0 \<and> f_at u = F_ret 0 \<and> f_retfpn t = Some f \<and> f_retfpn u = Some f
      \<and> used_head m' = Some a \<and> fp_nodes m' a = Some n \<and> fp_next n = Some a"
    by (intro exI [of _ ?bs] exI [of _ ?m2] exI [of _ ?t] exI [of _ ?n]) simp
qed

section \<open>Properties\<close>

text \<open>C36: \<open>find_victim_page\<close> is correct for one thread at a time and not for two.  On a FIFO list that is
  not empty a thread that is alone returns 0 and the last page, as the list operation
  \<open>find_victim_page\<close> of the model does, unlinks exactly the last node and frees it.  Two threads that
  execute the code on one \<open>mm_struct\<close> without a lock, as \<open>__read\<close> does, have for every such list an
  interleaving in which the first one returns 0 and the second one frees the node again.\<close>

theorem find_victim_race:
  assumes "fifo_holds m xs" and "xs \<noteq> []" and "fifo_pgn mm = map snd xs"
  shows "(\<exists>k m' t. alone victim_step k (m, victim_start) = Inr (m', t) \<and> v_at t = V_ret 0
        \<and> find_victim_page mm = (v_retpgn t, mm\<lparr>fifo_pgn := map snd (butlast xs)\<rparr>)
        \<and> fifo_holds m' (butlast xs) \<and> pg_nodes m' (fst (last xs)) = None)
    \<and> (\<exists>bs m' t u. interleave victim_step bs (m, victim_start, victim_start) = Inr (m', t, u)
        \<and> v_at t = V_ret 0 \<and> v_at u = V_free \<and> victim_step m' u = Inl Freed_node)"
proof -
  obtain k t where k: "alone victim_step k (m, victim_start) = Inr (m, t)" "at_unlink xs t"
    using victim_search [OF assms(1,2)] by blast
  note cut = fifo_cut [OF assms(1,2)]
  have node: "pg_nodes (unlink_last xs m) (fst (last xs)) \<noteq> None" using cut(2,4) by (simp add: unlink_last_def Let_def)
  have two: "alone victim_step 2 (m, t) = Inr (free_last xs (unlink_last xs m), t\<lparr>v_at := V_ret 0\<rparr>)"
    using victim_unlink [OF k(2) cut(3)] victim_free [OF k(2), of "unlink_last xs m"] node by (simp add: numeral_2_eq_2)
  have 1: "alone victim_step (k + 2) (m, victim_start) = Inr (free_last xs (unlink_last xs m), t\<lparr>v_at := V_ret 0\<rparr>)"
    using alone_add [OF k(1), of 2] two by simp
  let ?m = "free_last xs (unlink_last xs m)"
  let ?bs = "replicate k False @ replicate k True @ replicate 2 False @ [True]"
  have prev: "length xs \<noteq> 1 \<Longrightarrow> pg_nodes ?m (fst (last (butlast xs))) \<noteq> None"
    using cut(3,4) by (auto simp: free_last_def unlink_last_def Let_def)
  have "interleave victim_step (replicate k False @ replicate k True @ replicate 2 False @ [True]) (m, victim_start, victim_start)
    = Inr (unlink_last xs ?m, t\<lparr>v_at := V_ret 0\<rparr>, t\<lparr>v_at := V_free\<rparr>)"
    using interleave_append [OF interleave_first [OF k(1), of victim_start]]
      interleave_append [OF interleave_second [OF k(1), of t]]
      interleave_append [OF interleave_first [OF two, of t]] victim_unlink [OF k(2) prev] by simp
  moreover have "victim_step (unlink_last xs ?m) (t\<lparr>v_at := V_free\<rparr>) = Inl Freed_node"
    using victim_free [OF k(2), of "unlink_last xs ?m"] cut(4) by (simp add: free_last_def unlink_last_def Let_def)
  moreover have "v_at (t\<lparr>v_at := V_ret 0\<rparr>) = V_ret 0" "v_at (t\<lparr>v_at := V_free\<rparr>) = V_free" by simp_all
  ultimately have "\<exists>bs m' t u. interleave victim_step bs (m, victim_start, victim_start) = Inr (m', t, u)
        \<and> v_at t = V_ret 0 \<and> v_at u = V_free \<and> victim_step m' u = Inl Freed_node"
    by blast
  moreover have "find_victim_page mm = (v_retpgn t, mm\<lparr>fifo_pgn := map snd (butlast xs)\<rparr>)"
    using assms(2,3) k(2) by (simp add: find_victim_page_def at_unlink_def last_map map_butlast)
  ultimately show ?thesis using 1 cut(1) by (fastforce simp: free_last_def)
qed

text \<open>A list of two nodes.\<close>

theorem find_victim_race_witness:
  "\<exists>m bs m' t u. fifo_holds m [(7, 1), (9, 0)]
     \<and> interleave victim_step bs (m, victim_start, victim_start) = Inr (m', t, u)
     \<and> v_at t = V_ret 0 \<and> v_at u = V_free \<and> victim_step m' u = Inl Freed_node"
proof -
  let ?m = "\<lparr>fifo_head = Some 7, pg_nodes = [7 \<mapsto> \<lparr>pgn = 1, pg_next = Some 9\<rparr>, 9 \<mapsto> \<lparr>pgn = 0, pg_next = None\<rparr>]\<rparr>"
  have m: "fifo_holds ?m [(7, 1), (9, 0)]" by (simp add: fifo_holds_def)
  from find_victim_race [OF m, of "fresh_mm\<lparr>fifo_pgn := [1, 0]\<rparr>"]
  have "\<exists>bs m' t u. interleave victim_step bs (?m, victim_start, victim_start) = Inr (m', t, u)
      \<and> v_at t = V_ret 0 \<and> v_at u = V_free \<and> victim_step m' u = Inl Freed_node" by simp
  with m show ?thesis by blast
qed

end
