(* ===== verification/Spec2Isabelle.thy ===== *)
theory Spec2Isabelle
  imports OS_Swap OS_Safe OS_Access32 OS_Mem OS_Print OS_Plain OS_Layout OS_Bytes OS_Race
begin

text \<open>
  Verification library for the Simple OS Simulator (C, \<open>src/src\<close> and \<open>src/include\<close>), in the
  configuration of \<open>os-cfg.h\<close>: \<open>MLQ_SCHED\<close>, \<open>MM_PAGING\<close>, \<open>MM64\<close> defined, \<open>CONFIG64\<close> not; two
  theories cover the memory managers of the other configurations.

  \<^bold>\<open>The program.\<close>  A loader thread reads process descriptions and adds processes to a multi-level
  queue scheduler; CPU threads take a process, execute one instruction per time slot and put the
  process back when its quantum is over.  Instructions allocate, release, read and write
  memory through a library that keeps regions per process, grows the heap through a system
  call, and translates addresses with a five-level page table into frames of a simulated RAM,
  with a swap device behind it.

  \<^bold>\<open>The theories.\<close>
  \<^item> \<open>OS_Prelude\<close>: machine integers, faults and results, list and word lemmas shared by all.
  \<^item> \<open>OS_Queue\<close> (\<open>queue.c\<close>): the array queue, its refinement to a bounded list; the locale
    \<open>bounded_fifo\<close> is the contract of a queue and is interpreted on the array code.
  \<^item> \<open>OS_Sched\<close> (\<open>sched.c\<close>): the 140 levels with slot budgets; invariant along every sequence of
    calls, what a dispatch does on every branch, bounded waiting, conservation of processes.
  \<^item> \<open>OS_Memphy\<close> (\<open>mm-memphy.c\<close>): devices, bytes, frame lists; the locale \<open>frame_pool\<close> carries
    the allocation loop and is interpreted on the device's frame list.
  \<^item> \<open>OS_Pte\<close> (\<open>bitops.h\<close>, \<open>mm.h\<close>, \<open>mm64.h\<close>, \<open>mm64.c\<close>): bit masks, entries and address
    splitting, at 32 and 64 bits.
  \<^item> \<open>OS_Pgtable\<close> (\<open>get_pte\<close> of \<open>mm64.c\<close>): the directory walk with lazy allocation and its refinement
    to a map; the locale \<open>page_map\<close> carries runs of updates.
  \<^item> \<open>OS_Mm\<close> (\<open>mm64.c\<close>, \<open>mm-vm.c\<close>): areas, mapping, heap growth, page copies.
  \<^item> \<open>OS_Region\<close> (\<open>libmem.c\<close>): first fit, free list, FIFO of pages; regions as intervals that no
    address belongs to twice.
  \<^item> \<open>OS_State\<close> (\<open>common.h\<close>): processes, kernel pointers and the stores they point into.
  \<^item> \<open>OS_Syscall\<close> (\<open>syscall.c\<close>, \<open>sys_mem.c\<close>, \<open>sys_listsyscall.c\<close>, \<open>libstd.c\<close>), \<open>OS_Libmem\<close>
    (\<open>libmem.c\<close>) and \<open>OS_Cpu\<close> (\<open>cpu.c\<close>): the calls from an instruction down to a device byte.
  \<^item> \<open>OS_Confine\<close>: one instruction changes one process only.
  \<^item> \<open>OS_Vm\<close>, \<open>OS_Alloc\<close>: virtual memory under the invariant \<open>frames_ok\<close> (every page below the
    break is resident, every frame has one owner): writes are map updates, allocation and
    release keep regions disjoint and bytes intact; what happens when frames run out or the
    process is missing from the running list.
  \<^item> \<open>OS_Swap\<close>: an access to a page that was never mapped while a page must be evicted
    (\<open>pg_getpage\<close>): what is copied where, and in which state the victim's entry is left.
  \<^item> \<open>OS_Timer\<close> (\<open>timer.c\<close>): the slot barrier as a step relation of device threads and the timer
    thread, its invariant, and the progress of the timer thread.
  \<^item> \<open>OS_Scan\<close>, \<open>OS_Loader\<close> (\<open>loader.c\<close>), \<open>OS_Config\<close> (\<open>read_config\<close> of \<open>os.c\<close>): the \<open>scanf\<close> family on
    characters, the reader of process descriptions and of the configuration; reading is inverse
    to printing; what short or malformed files do.
  \<^item> \<open>OS_System\<close> (\<open>os.c\<close>): \<open>main\<close>, \<open>cpu_routine\<close> and \<open>ld_routine\<close> as interleaved machines over
    kernel, scheduler and timer; \<open>OS_Sim\<close>: no process is in two places, none is lost, the CPUs
    leave only when all are finished, start times and time slices are kept; \<open>OS_Demo\<close>: an
    executable reading of the steps and a complete run.  Assignments through the shared pointer
    \<open>krnl->mm\<close> are steps of their own; \<open>OS_Isolation\<close>: in runs in which no CPU moves that pointer while
    the loader sets up a process (\<open>calm_reach\<close>), process ids and \<open>mm_struct\<close>s are distinct and a
    process's bookkeeping changes only by its own instructions; in other runs two processes can
    end up with one \<open>mm_struct\<close>.
  \<^item> \<open>OS_Progress\<close>: no deadlock: until all threads have left, one of them has a step, unless one
    has crashed.  \<open>OS_Terminates\<close>: a lexicographic rank that every step lowers, so the program
    terminates under every interleaving.  \<open>OS_Complete\<close>: both together: unless a thread crashes,
    every run ends with all processes finished; none crashes when the processes use no memory.
  \<^item> \<open>OS_Main\<close> (\<open>main\<close> of \<open>os.c\<close> up to \<open>read_config\<close>): the program from its argument and the text of its
    files to the end; every process has the code of its file (\<open>files_ok\<close>).  The demo \<open>os sched\<close> of the
    repository, with its files as they are, is an instance.
  \<^item> \<open>OS_Robust\<close>: whatever an instruction with registers in range does (sizes, addresses, running
    out of frames, swapping), it returns, when RAM has the 2 MB that a frame number can address; on
    a smaller RAM an access to an evicted page faults.  \<open>OS_Safe\<close>: so programs that use memory
    complete as well.  Instructions are single steps there, which is what the threads do on one
    CPU while the loader is left alone (\<open>calm_run\<close>); the theorem is stated for these runs.  The
    locale \<open>instructions\<close> (\<open>OS_Complete\<close>) carries both classes of programs.  The demo
    \<open>os os_1_singleCPU_mlq\<close> of the repository is an instance.
  \<^item> \<open>OS_Bytes\<close>: an instruction leaves every byte of the memory of other processes alone
    (\<open>OS_Confine\<close> has their tables and control blocks).
  \<^item> \<open>OS_Race\<close>: \<open>find_victim_page\<close> and \<open>MEMPHY_get_freefp\<close> as pointer code with one memory access per
    step: alone they are the list operations of \<open>OS_Region\<close> and \<open>OS_Memphy\<close>; two threads without a
    lock can free a node twice or take a frame twice.
  \<^item> \<open>OS_Mm32\<close> (\<open>mm.c\<close>, the memory manager of builds without \<open>MM64\<close>): flat page table, mapping,
    swapping out and in, byte accesses.  \<open>OS_Paging32\<close>: every mapped page has a slot of its own in
    RAM or swap; one abstract move of a page between slots covers both directions.
    \<open>OS_Access32\<close>: sequences of accesses refine a map of bytes, mapping with and without enough
    frames, lost swap frames, equivalence of the flat and the five-level table.
  \<^item> \<open>OS_Mem\<close> (\<open>mem.c\<close> and the instructions of \<open>cpu.c\<close> for builds without \<open>MM_PAGING\<close>): the
    segment memory whose bodies the authors emptied; what is left always fails.
  \<^item> \<open>OS_Layout\<close> (\<open>mm.h\<close>, \<open>mm64.h\<close>): the other masks, and which bits belong to which field.
    \<open>OS_Print\<close> (\<open>mm64.c\<close>): the \<open>print_list\<close> functions; the locale \<open>line_format\<close> says when a listing
    determines the list.  \<open>OS_Plain\<close> (\<open>sched.c\<close> without \<open>MLQ_SCHED\<close>): two queues that nothing ever
    leaves.
  \<^bold>\<open>How code and model correspond.\<close>  A C function is one definition of the same name (\<open>__alloc\<close>,
  \<open>__free\<close>, \<open>__read\<close>, \<open>__write\<close> are \<open>lib_alloc\<close>, \<open>lib_free\<close>, \<open>lib_read\<close>, \<open>lib_write\<close>; other
  leading underscores are dropped).  Pointers to objects are positions in stores, \<open>NULL\<close> is
  \<open>None\<close>, linked lists are lists.  Error codes are ordinary results; undefined behaviour (a \<open>NULL\<close>
  dereference, an index outside an array, a read of an indeterminate value) is \<open>Inl\<close> of a
  \<open>fault\<close>.  \<open>addr_t\<close> is a 64 bit word (32 bit in
  \<open>OS_Mm32\<close>), \<open>int\<close> a 32 bit word read with \<open>sint\<close>, and every
  conversion of the code is a \<open>ucast\<close> or \<open>scast\<close>.  \<open>malloc\<close> and \<open>calloc\<close> are taken to succeed.
  Printed text is not part of the state.  A function that runs under a mutex is one step.

  \<^bold>\<open>Termination.\<close>  Loops are structural recursions on the remaining iterations or on the list
  they traverse; the cursor loop of the sequential device has a measure.  No fuel is used.
  That the threads as a whole come to an end is a theorem (\<open>sys_terminates\<close>).

  \<^bold>\<open>Not modelled.\<close>  The release of the timer's device list at shutdown.  The stubs of \<open>libmem.c\<close> that are never
  called, the two functions of \<open>mm.c\<close> that only print an error, and its \<open>print_list\<close> functions, which
  pass 32 bit values to \<open>%lu\<close>.  \<open>paging.c\<close> is an old driver whose target does not link.  In \<open>mm.c\<close> the
  macros \<open>PAGING_PAGE_SWAPPED\<close> and \<open>PAGING_OFF\<close> are defined nowhere: they are arguments, and the
  theorems name what they need of them (\<open>macros32\<close>).  One instruction is one step of the system
  (its switch of \<open>krnl->mm\<close> is a separate step before it).  \<open>__alloc\<close>, \<open>__free\<close> and \<open>__write\<close> hold
  \<open>mmvm_lock\<close>, but \<open>__read\<close> does not, and the search of \<open>running_list\<close> in \<open>sys_mem.c\<close> takes no
  \<open>queue_lock\<close>: on several CPUs the accesses of such calls can interleave inside an instruction,
  which \<open>OS_Race\<close> shows for the two list operations and the system model leaves out.  So that
  memory programs run without a fault is claimed for one CPU only; the statements about the
  whole system that hold for more CPUs are about scheduling, progress and termination, or
  about instructions one at a time.
\<close>

end
